(* ===== verification/Prelude.thy ===== *)
theory Prelude
  imports Main "HOL-Library.AList" "HOL-Library.Multiset" "HOL-Library.Word"
begin

text \<open>
  What every component of the development shares: the error values of a Go call, the two
  loop combinators a \<open>for ... range\<close> with an early \<open>return\<close> becomes (pure, and threading
  an effect history), Go maps as association lists with distinct keys, and the lemmas on
  these that carry the component proofs.

  A Go function \<open>(T, error)\<close> is a value of \<open>err + T\<close>: \<open>Inl\<close> holds the error that is
  returned, or the run-time panic that the call raises (\<open>GoPanic\<close>); \<open>Inr\<close> holds the
  result of a call that returned a nil error.
\<close>

named_theorems map_simps \<open>look-up laws of the Go maps\<close>
named_theorems loop_simps \<open>unfolding laws of the loop combinators\<close>

section \<open>Errors\<close>

datatype err =
    ErrNew string             \<comment> \<open>\<open>errors.New(text)\<close>\<close>
  | ParseError string string  \<comment> \<open>\<open>net.ParseError\<close>: its Type and Text\<close>
  | NotFound string           \<comment> \<open>an API error for which \<open>errors.IsNotFound\<close> holds\<close>
  | ApiError string           \<comment> \<open>any other error of a client, a cloud or a package\<close>
  | MultiError "err list"     \<comment> \<open>errors collected from several goroutines\<close>
  | GoPanic string            \<comment> \<open>a run-time panic, which no code of the operator recovers\<close>

fun is_panic :: "err \<Rightarrow> bool" where
  "is_panic (GoPanic _) = True"
| "is_panic _ = False"

definition bind_err :: "err + 'a \<Rightarrow> ('a \<Rightarrow> err + 'b) \<Rightarrow> err + 'b" where
  "bind_err r f = (case r of Inl e \<Rightarrow> Inl e | Inr x \<Rightarrow> f x)"

lemma bind_err_simps [simp]:
  "bind_err (Inl e) f = Inl e"
  "bind_err (Inr x) f = f x"
  by (simp_all add: bind_err_def)

lemma bind_err_Inr_iff [simp]: "bind_err r f = Inr y \<longleftrightarrow> (\<exists>x. r = Inr x \<and> f x = Inr y)"
  by (auto simp: bind_err_def split: sum.splits)

section \<open>Loops\<close>

text \<open>
  \<open>go_for f xs s\<close> is \<open>for _, x := range xs { ... }\<close> over a slice, with \<open>s\<close> the local
  variables that the body assigns; an \<open>Inl\<close> of the body is its early return of an error.
\<close>

fun go_for :: "('a \<Rightarrow> 's \<Rightarrow> err + 's) \<Rightarrow> 'a list \<Rightarrow> 's \<Rightarrow> err + 's" where
  "go_for f [] s = Inr s"
| "go_for f (x # xs) s = (case f x s of Inl e \<Rightarrow> Inl e | Inr s' \<Rightarrow> go_for f xs s')"

lemma go_for_append:
  "go_for f (xs @ ys) s = bind_err (go_for f xs s) (go_for f ys)"
  by (induction xs arbitrary: s) (auto split: sum.splits)

lemma go_for_Inl: "go_for f xs s = Inl e \<Longrightarrow> \<exists>x \<in> set xs. \<exists>s'. f x s' = Inl e"
  by (induction xs arbitrary: s) (auto split: sum.splits)

lemma go_for_inv:
  assumes "go_for f xs s = Inr t" and "I s"
    and "\<And>x s s'. x \<in> set xs \<Longrightarrow> I s \<Longrightarrow> f x s = Inr s' \<Longrightarrow> I s'"
  shows "I t"
  using assms
proof (induction xs arbitrary: s)
  case Nil
  then show ?case by simp
next
  case (Cons x xs)
  then obtain s' where s': "f x s = Inr s'" "go_for f xs s' = Inr t"
    by (auto split: sum.splits)
  then have "I s'" using Cons.prems by auto
  with s' Cons show ?case by (meson list.set_intros(2))
qed

text \<open>The same rule with the part of the slice already visited in the invariant.\<close>

lemma go_for_inv_prefix:
  assumes "go_for f xs s = Inr t" and "I [] s"
    and "\<And>ys x zs s s'. xs = ys @ x # zs \<Longrightarrow> I ys s \<Longrightarrow> f x s = Inr s' \<Longrightarrow> I (ys @ [x]) s'"
  shows "I xs t"
proof -
  have "I (ys @ xs') t'"
    if "go_for f xs' s' = Inr t'" "I ys s'" "xs = ys @ xs'" for ys xs' s' t'
    using that
  proof (induction xs' arbitrary: ys s')
    case Nil
    then show ?case by simp
  next
    case (Cons x xs')
    then obtain s'' where s'': "f x s' = Inr s''" "go_for f xs' s'' = Inr t'"
      by (auto split: sum.splits)
    then have "I (ys @ [x]) s''" using Cons.prems assms(3) by blast
    with Cons.IH [of s'' "ys @ [x]"] s'' Cons.prems show ?case by simp
  qed
  from this [of xs s t "[]"] assms show ?thesis by simp
qed

lemma go_for_total:
  assumes "I s" and "\<And>x s. x \<in> set xs \<Longrightarrow> I s \<Longrightarrow> \<exists>s'. f x s = Inr s' \<and> I s'"
  shows "\<exists>t. go_for f xs s = Inr t \<and> I t"
  using assms
proof (induction xs arbitrary: s)
  case Nil
  then show ?case by simp
next
  case (Cons x xs)
  then obtain s' where "f x s = Inr s'" "I s'" by force
  with Cons.IH [of s'] Cons.prems show ?case by auto
qed

lemma go_for_cong:
  assumes "\<And>x s. x \<in> set xs \<Longrightarrow> f x s = g x s"
  shows "go_for f xs s = go_for g xs s"
  using assms by (induction xs arbitrary: s) (auto split: sum.splits)

text \<open>A loop within a loop visits the pairs.\<close>

text \<open>A loop whose iterations fail, or not, whatever the state: it ends at the first that fails.\<close>

lemma go_for_stateless:
  assumes "\<And>x s. case err x of None \<Rightarrow> \<exists>s'. f x s = Inr s' | Some e \<Rightarrow> f x s = Inl e"
  shows "go_for f xs s = Inl e \<longleftrightarrow> (\<exists>ys x zs. xs = ys @ x # zs \<and> (\<forall>y \<in> set ys. err y = None) \<and> err x = Some e)"
    and "(\<exists>t. go_for f xs s = Inr t) \<longleftrightarrow> (\<forall>x \<in> set xs. err x = None)"
proof -
  have step: "(err x = None \<and> (\<exists>s'. f x s = Inr s')) \<or> (\<exists>e. err x = Some e \<and> f x s = Inl e)" for x s
    using assms [of x s] by (cases "err x") simp_all
  show "go_for f xs s = Inl e \<longleftrightarrow> (\<exists>ys x zs. xs = ys @ x # zs \<and> (\<forall>y \<in> set ys. err y = None) \<and> err x = Some e)"
  proof (induction xs arbitrary: s)
    case (Cons x xs)
    from step [of x s] show ?case
    proof (elim disjE conjE exE)
      fix s' assume x: "err x = None" "f x s = Inr s'"
      have "(\<exists>ys y zs. x # xs = ys @ y # zs \<and> (\<forall>y \<in> set ys. err y = None) \<and> err y = Some e) \<longleftrightarrow>
          (\<exists>ys y zs. xs = ys @ y # zs \<and> (\<forall>y \<in> set ys. err y = None) \<and> err y = Some e)" (is "?l \<longleftrightarrow> ?r")
      proof
        assume ?l
        then obtain ys y zs where l: "x # xs = ys @ y # zs" "\<forall>y \<in> set ys. err y = None" "err y = Some e" by blast
        then show ?r using x(1) by (cases ys) auto
      next
        assume ?r
        then obtain ys y zs where "xs = ys @ y # zs" "\<forall>y \<in> set ys. err y = None" "err y = Some e" by blast
        then show ?l using x(1) by (intro exI [of _ "x # ys"]) auto
      qed
      with x Cons.IH [of s'] show ?thesis by simp
    next
      fix e' assume x: "err x = Some e'" "f x s = Inl e'"
      have "e' = e \<longleftrightarrow> (\<exists>ys y zs. x # xs = ys @ y # zs \<and> (\<forall>y \<in> set ys. err y = None) \<and> err y = Some e)"
      proof
        assume "e' = e"
        with x(1) show "\<exists>ys y zs. x # xs = ys @ y # zs \<and> (\<forall>y \<in> set ys. err y = None) \<and> err y = Some e"
          by (intro exI [of _ "[]"]) auto
      next
        assume "\<exists>ys y zs. x # xs = ys @ y # zs \<and> (\<forall>y \<in> set ys. err y = None) \<and> err y = Some e"
        then obtain ys y zs where "x # xs = ys @ y # zs" "\<forall>y \<in> set ys. err y = None" "err y = Some e" by blast
        with x(1) show "e' = e" by (cases ys) auto
      qed
      with x(2) show ?thesis by simp
    qed
  qed simp
  show "(\<exists>t. go_for f xs s = Inr t) \<longleftrightarrow> (\<forall>x \<in> set xs. err x = None)"
  proof (induction xs arbitrary: s)
    case (Cons x xs)
    from step [of x s] show ?case
    proof (elim disjE conjE exE)
      fix s' assume "err x = None" "f x s = Inr s'"
      with Cons.IH [of s'] show ?thesis by simp
    qed simp
  qed simp
qed

lemma go_for_nested:
  "go_for (\<lambda>x. go_for (f x) (g x)) xs s = go_for (\<lambda>(x, y). f x y) (concat (map (\<lambda>x. map (Pair x) (g x)) xs)) s"
proof (induction xs arbitrary: s)
  case (Cons x xs)
  have "go_for (\<lambda>(x, y). f x y) (map (Pair x) ys) s = go_for (f x) ys s" for ys
    by (induction ys arbitrary: s) (auto split: sum.splits)
  then show ?case by (simp add: go_for_append Cons.IH bind_err_def split: sum.splits)
qed simp

text \<open>A loop whose body never returns early is a fold.\<close>

lemma go_for_fold: "go_for (\<lambda>x s. Inr (f x s)) xs s = Inr (fold f xs s)"
  by (induction xs arbitrary: s) auto

text \<open>
  \<open>go_for_w\<close> is the loop whose body also issues calls to the outside: \<open>'w\<close> is what is
  remembered of them.
\<close>

type_synonym ('w, 'a) action = "'w \<Rightarrow> (err + 'a) \<times> 'w"

fun go_for_w :: "('a \<Rightarrow> 's \<Rightarrow> ('w, 's) action) \<Rightarrow> 'a list \<Rightarrow> 's \<Rightarrow> ('w, 's) action" where
  "go_for_w f [] s w = (Inr s, w)"
| "go_for_w f (x # xs) s w =
     (case f x s w of (Inl e, w') \<Rightarrow> (Inl e, w') | (Inr s', w') \<Rightarrow> go_for_w f xs s' w')"

definition bind_w :: "('w, 'a) action \<Rightarrow> ('a \<Rightarrow> ('w, 'b) action) \<Rightarrow> ('w, 'b) action" where
  "bind_w a f w = (case a w of (Inl e, w') \<Rightarrow> (Inl e, w') | (Inr x, w') \<Rightarrow> f x w')"

definition pure_w :: "err + 'a \<Rightarrow> ('w, 'a) action" where
  "pure_w r w = (r, w)"

lemma bind_w_Inr:
  assumes "bind_w a f w = (Inr y, w2)"
  obtains x w1 where "a w = (Inr x, w1)" "f x w1 = (Inr y, w2)"
  using assms by (auto simp: bind_w_def split: prod.splits sum.splits)

lemma bind_w_cases:
  assumes "bind_w a f w = (r, w2)"
  obtains e where "a w = (Inl e, w2)" "r = Inl e" | x w1 where "a w = (Inr x, w1)" "f x w1 = (r, w2)"
  using assms by (auto simp: bind_w_def split: prod.splits sum.splits)

lemma go_for_w_append:
  "go_for_w f (xs @ ys) s w =
     (case go_for_w f xs s w of (Inl e, w') \<Rightarrow> (Inl e, w') | (Inr s', w') \<Rightarrow> go_for_w f ys s' w')"
  by (induction xs arbitrary: s w) (auto split: prod.splits sum.splits)

lemma go_for_w_nested:
  "go_for_w (\<lambda>x. go_for_w (f x) (g x)) xs s w =
     go_for_w (\<lambda>(x, y). f x y) (concat (map (\<lambda>x. map (Pair x) (g x)) xs)) s w"
proof (induction xs arbitrary: s w)
  case (Cons x xs)
  have "go_for_w (\<lambda>(x, y). f x y) (map (Pair x) ys) s w = go_for_w (f x) ys s w" for ys
    by (induction ys arbitrary: s w) (auto split: prod.splits sum.splits)
  then show ?case by (simp add: go_for_w_append Cons.IH split: prod.splits sum.splits)
qed simp

lemma go_for_w_inv:
  assumes "go_for_w f xs s w = (r, v)" and "I s w"
    and "\<And>x s w s' w'. x \<in> set xs \<Longrightarrow> I s w \<Longrightarrow> f x s w = (Inr s', w') \<Longrightarrow> I s' w'"
    and "\<And>x s w e w'. x \<in> set xs \<Longrightarrow> I s w \<Longrightarrow> f x s w = (Inl e, w') \<Longrightarrow> J e w'"
  shows "case r of Inl e \<Rightarrow> J e v | Inr t \<Rightarrow> I t v"
  using assms
proof (induction xs arbitrary: s w)
  case Nil
  then show ?case by auto
next
  case (Cons x xs)
  show ?case
  proof (cases "f x s w")
    case (Pair q w')
    show ?thesis
    proof (cases q)
      case (Inl e)
      with Pair have body: "f x s w = (Inl e, w')" by simp
      then have "r = Inl e" "v = w'" using Cons.prems(1) by simp_all
      moreover have "J e w'" using Cons.prems(4) [OF _ Cons.prems(2) body] by simp
      ultimately show ?thesis by simp
    next
      case (Inr s')
      with Pair have body: "f x s w = (Inr s', w')" by simp
      then have "go_for_w f xs s' w' = (r, v)" using Cons.prems(1) by simp
      moreover have "I s' w'" using Cons.prems(3) [OF _ Cons.prems(2) body] by simp
      ultimately show ?thesis using Cons.IH Cons.prems(3,4) by (meson list.set_intros(2))
    qed
  qed
qed

section \<open>Go maps\<close>

text \<open>
  A Go map is an association list with distinct keys. Reading an absent key gives the zero
  value of the element type, which \<open>gm_get\<close> takes as its first argument; writing replaces
  the value or adds the key. The order of the list carries no meaning: where the code
  ranges over a map, the order of the visit is a parameter of the model
  (\<open>range_order\<close> in the theory \<open>Externals\<close>).
\<close>

type_synonym ('k, 'v) gomap = "('k \<times> 'v) list"

abbreviation gm_keys :: "('k, 'v) gomap \<Rightarrow> 'k list" where
  "gm_keys m \<equiv> map fst m"

definition gm_get :: "'v \<Rightarrow> ('k, 'v) gomap \<Rightarrow> 'k \<Rightarrow> 'v" where
  "gm_get z m k = (case map_of m k of None \<Rightarrow> z | Some v \<Rightarrow> v)"

definition gm_put :: "'k \<Rightarrow> 'v \<Rightarrow> ('k, 'v) gomap \<Rightarrow> ('k, 'v) gomap" where
  "gm_put k v m = AList.update k v m"

lemma map_of_gm_put [simp]: "map_of (gm_put k v m) = (map_of m)(k \<mapsto> v)"
  by (simp add: gm_put_def update_conv')

lemma gm_get_put [map_simps]: "gm_get z (gm_put k v m) k' = (if k' = k then v else gm_get z m k')"
  by (simp add: gm_get_def)

lemma gm_get_Nil [simp]: "gm_get z [] k = z"
  by (simp add: gm_get_def)

lemma set_gm_keys_put [simp]: "fst ` set (gm_put k v m) = insert k (fst ` set m)"
  by (metis dom_map_of_conv_image_fst dom_fun_upd map_of_gm_put option.distinct(1))

lemma distinct_gm_put [simp]: "distinct (gm_keys m) \<Longrightarrow> distinct (gm_keys (gm_put k v m))"
  by (simp add: gm_put_def distinct_update)

lemma gm_keys_put_in: "k \<in> set (gm_keys m) \<Longrightarrow> gm_keys (gm_put k v m) = gm_keys m"
  by (simp add: gm_put_def update_keys)

lemma gm_get_notin: "k \<notin> set (gm_keys m) \<Longrightarrow> gm_get z m k = z"
  by (metis gm_get_def map_of_eq_None_iff option.simps(4) set_map)

lemma gm_get_in_keys: "x \<in> set (gm_get [] m k) \<Longrightarrow> k \<in> fst ` set m"
  using gm_get_notin [of k m "[]"] by fastforce

lemma map_of_gm_get: "k \<in> set (gm_keys m) \<Longrightarrow> map_of m k = Some (gm_get z m k)"
  by (metis gm_get_def map_of_eq_None_iff not_Some_eq option.simps(5) set_map)

text \<open>Building a map from the entries of another one, some of them dropped.\<close>

definition gm_filter_map :: "('k \<Rightarrow> 'v \<Rightarrow> 'w option) \<Rightarrow> ('k, 'v) gomap \<Rightarrow> ('k, 'w) gomap" where
  "gm_filter_map f m = List.map_filter (\<lambda>(k, v). map_option (Pair k) (f k v)) m"

lemma gm_filter_map_Cons:
  "gm_filter_map f ((k, v) # m) =
     (case f k v of None \<Rightarrow> gm_filter_map f m | Some w \<Rightarrow> (k, w) # gm_filter_map f m)"
  by (simp add: gm_filter_map_def List.map_filter_simps split: option.splits)

lemma gm_filter_map_Nil [simp]: "gm_filter_map f [] = []"
  by (simp add: gm_filter_map_def List.map_filter_simps)

lemma gm_filter_map_keys: "fst ` set (gm_filter_map f m) \<subseteq> fst ` set m"
proof (induction m)
  case (Cons x m)
  then show ?case by (cases x; cases "f (fst x) (snd x)") (auto simp: gm_filter_map_Cons)
qed simp

lemma distinct_gm_filter_map: "distinct (gm_keys m) \<Longrightarrow> distinct (gm_keys (gm_filter_map f m))"
proof (induction m)
  case (Cons x m)
  then have "fst x \<notin> fst ` set (gm_filter_map f m)" using gm_filter_map_keys [of f m] by auto
  with Cons show ?case by (cases x; cases "f (fst x) (snd x)") (auto simp: gm_filter_map_Cons)
qed simp

lemma map_of_gm_filter_map:
  "distinct (gm_keys m) \<Longrightarrow> map_of (gm_filter_map f m) k = Option.bind (map_of m k) (f k)"
proof (induction m)
  case Nil
  then show ?case by simp
next
  case (Cons x m)
  have "map_of m (fst x) = None" using Cons.prems by (auto simp: map_of_eq_None_iff)
  with Cons show ?case by (cases x) (auto simp: gm_filter_map_Cons split: option.splits)
qed

text \<open>
  \<open>range_update f ks m\<close> is the loop \<open>for k := range m { v, err := f(k, m[k]); if err != nil
  { return err }; m[k] = v }\<close>, visiting the keys in the order \<open>ks\<close>. The laws it needs of
  the map are those of the locale; Go's maps provide them.
\<close>

locale keyed_store =
  fixes get :: "'m \<Rightarrow> 'k \<Rightarrow> 'v" and put :: "'k \<Rightarrow> 'v \<Rightarrow> 'm \<Rightarrow> 'm" and keys :: "'m \<Rightarrow> 'k set"
  assumes get_put: "get (put k v m) k' = (if k' = k then v else get m k')"
    and keys_put: "keys (put k v m) = insert k (keys m)"
begin

lemma update_loop_result:
  assumes "go_for (\<lambda>k m. bind_err (f k (get m k)) (\<lambda>v. Inr (put k v m))) ks m = Inr m'"
    and "distinct ks"
  shows "(\<forall>k \<in> set ks. f k (get m k) = Inr (get m' k)) \<and>
         (\<forall>k. k \<notin> set ks \<longrightarrow> get m' k = get m k) \<and> keys m' = set ks \<union> keys m"
  using assms
proof (induction ks arbitrary: m)
  case Nil
  then show ?case by simp
next
  case (Cons k ks)
  then obtain v where v: "f k (get m k) = Inr v"
    and rest: "go_for (\<lambda>k m. bind_err (f k (get m k)) (\<lambda>v. Inr (put k v m))) ks (put k v m) = Inr m'"
    by (auto split: sum.splits)
  note ih = Cons.IH [OF rest]
  have "f k' (get m k') = Inr (get m' k')" if "k' \<in> set (k # ks)" for k'
    using ih Cons.prems(2) v that by (cases "k' = k") (auto simp: get_put)
  moreover have "get m' k' = get m k'" if "k' \<notin> set (k # ks)" for k'
    using ih Cons.prems(2) that by (simp add: get_put)
  ultimately show ?case using ih Cons.prems(2) by (auto simp: keys_put)
qed

lemma update_loop_total:
  assumes "\<And>k. k \<in> set ks \<Longrightarrow> \<exists>v. f k (get m k) = Inr v" and "distinct ks"
  shows "\<exists>m'. go_for (\<lambda>k m. bind_err (f k (get m k)) (\<lambda>v. Inr (put k v m))) ks m = Inr m'"
  using assms
proof (induction ks arbitrary: m)
  case Nil
  then show ?case by simp
next
  case (Cons k ks)
  then obtain v where v: "f k (get m k) = Inr v" by auto
  have "\<exists>v'. f k' (get (put k v m) k') = Inr v'" if "k' \<in> set ks" for k'
    using that Cons.prems by (auto simp: get_put)
  with Cons.IH [of "put k v m"] Cons.prems(2) v show ?case by auto
qed

end

interpretation gomap: keyed_store "gm_get z" gm_put "\<lambda>m. set (gm_keys m)" for z
  by unfold_locales (auto simp: gm_get_put)

definition range_update ::
  "'v \<Rightarrow> ('k \<Rightarrow> 'v \<Rightarrow> err + 'v) \<Rightarrow> 'k list \<Rightarrow> ('k, 'v) gomap \<Rightarrow> err + ('k, 'v) gomap" where
  "range_update z f ks m =
     go_for (\<lambda>k m. bind_err (f k (gm_get z m k)) (\<lambda>v. Inr (gm_put k v m))) ks m"

lemma range_update_get:
  assumes "range_update z f ks m = Inr m'" and "distinct ks"
  shows "k \<in> set ks \<Longrightarrow> f k (gm_get z m k) = Inr (gm_get z m' k)"
    and "k \<notin> set ks \<Longrightarrow> gm_get z m' k = gm_get z m k"
  using gomap.update_loop_result [where f = f and ks = ks and m = m and m' = m' and z = z] assms
  by (auto simp: range_update_def)

lemma range_update_keys:
  assumes "range_update z f ks m = Inr m'" and "set ks \<subseteq> set (gm_keys m)"
  shows "gm_keys m' = gm_keys m"
  using assms unfolding range_update_def
proof (induction ks arbitrary: m)
  case Nil
  then show ?case by simp
next
  case (Cons k ks)
  from Cons.prems(1) obtain v
    where "go_for (\<lambda>k m. bind_err (f k (gm_get z m k)) (\<lambda>v. Inr (gm_put k v m))) ks (gm_put k v m)
      = Inr m'"
    by (auto split: sum.splits)
  from Cons.IH [OF this] Cons.prems(2) show ?case by (auto simp: gm_keys_put_in)
qed

lemma range_update_total:
  assumes "\<And>k. k \<in> set ks \<Longrightarrow> \<exists>v. f k (gm_get z m k) = Inr v" and "distinct ks"
  shows "\<exists>m'. range_update z f ks m = Inr m'"
  unfolding range_update_def
  by (rule gomap.update_loop_total [where f = f]) (use assms in auto)

section \<open>Lists\<close>

text \<open>
  A strictly increasing list over a segment of the naturals: the first index whose element
  is not its own offset from \<open>b\<close> gives the least number from \<open>b\<close> on that is missing.
\<close>

lemma sorted_offset_prefix:
  fixes xs :: "nat list"
  assumes "sorted_wrt (<) xs" and "\<forall>x \<in> set xs. b \<le> x" and "i < length xs"
  shows "b + i \<le> xs ! i"
  using assms(3)
proof (induction i)
  case 0
  then show ?case using assms(2) by simp
next
  case (Suc i)
  then have "xs ! i < xs ! Suc i" using assms(1) by (simp add: sorted_wrt_nth_less)
  with Suc show ?case by simp
qed

lemma least_gap:
  fixes xs :: "nat list"
  assumes srt: "sorted_wrt (<) xs" and lo: "\<forall>x \<in> set xs. b \<le> x"
    and i: "i < length xs" "xs ! i \<noteq> b + i" and before: "\<And>j. j < i \<Longrightarrow> xs ! j = b + j"
  shows "b + i \<notin> set xs" and "\<And>y. b \<le> y \<Longrightarrow> y < b + i \<Longrightarrow> y \<in> set xs"
proof -
  have gt: "b + i < xs ! i" using sorted_offset_prefix [OF srt lo i(1)] i(2) by simp
  show "b + i \<notin> set xs"
  proof
    assume "b + i \<in> set xs"
    then obtain j where j: "j < length xs" "xs ! j = b + i" by (auto simp: in_set_conv_nth)
    show False
    proof (cases "j < i")
      case True
      with before j show False by simp
    next
      case False
      then have "xs ! i \<le> xs ! j"
        using srt j(1) by (cases "i = j") (auto simp: sorted_wrt_nth_less less_imp_le)
      with gt j show False by simp
    qed
  qed
  fix y assume "b \<le> y" "y < b + i"
  then have "y = xs ! (y - b)" using before [of "y - b"] by simp
  moreover have "y - b < length xs" using \<open>y < b + i\<close> i(1) by linarith
  ultimately show "y \<in> set xs" by (metis nth_mem)
qed

lemma sorted_insert_at:
  fixes xs :: "'a::linorder list"
  assumes "sorted_wrt (<) xs" and "\<And>j. j < i \<Longrightarrow> xs ! j < x" and "i \<le> length xs"
    and "i < length xs \<Longrightarrow> x < xs ! i"
  shows "sorted_wrt (<) (take i xs @ x # drop i xs)"
proof -
  have below: "y < x" if "y \<in> set (take i xs)" for y
  proof -
    from that obtain j where "j < i" "y = xs ! j"
      by (auto simp: in_set_conv_nth)
    then show ?thesis using assms(2) by simp
  qed
  have above: "x < z" if "z \<in> set (drop i xs)" for z
  proof -
    from that obtain k where k: "i + k < length xs" "z = xs ! (i + k)"
      by (metis add.commute in_set_conv_nth length_drop less_diff_conv nth_drop assms(3))
    then have "xs ! i \<le> z" using assms(1)
      by (cases k) (auto simp: sorted_wrt_nth_less less_imp_le)
    with assms(4) k show ?thesis by (meson le_add1 le_less_trans order_less_le_trans)
  qed
  have "sorted_wrt (<) (take i xs)" "sorted_wrt (<) (drop i xs)"
    using assms(1) by (simp_all add: sorted_wrt_take sorted_wrt_drop)
  moreover have "y < z" if "y \<in> set (take i xs)" "z \<in> set (drop i xs)" for y z
    using below [OF that(1)] above [OF that(2)] by simp
  ultimately show ?thesis using below above by (auto simp: sorted_wrt_append)
qed

end
