(* ===== verification/GoNet.thy ===== *)
theory GoNet
  imports Prelude
begin

unbundle bit_operations_syntax

text \<open>
  The part of Go's standard library that the operator computes with: \<open>strings.Split\<close> and
  \<open>strings.Join\<close>, \<open>strconv\<close>-style decimals, and of the package \<open>net\<close> the types \<open>IP\<close> and
  \<open>IPNet\<close> with \<open>ParseIP\<close>, \<open>IP.String\<close>, \<open>ParseCIDR\<close>, \<open>IPNet.Contains\<close> and
  \<open>IPNet.String\<close> (Go 1.22, the version \<open>go.mod\<close> names). IPv6 text is parsed and printed
  as the library does it, because a namespace annotation or a cloud answer may hold it.

  An \<open>ip\<close> is a \<open>net.IP\<close> up to \<open>IP.Equal\<close>: the 4-byte and the 16-byte form of an IPv4
  address are the one value \<open>IPv4 w\<close>, and \<open>IPv6 w\<close> is used for addresses outside
  \<open>::ffff:0:0/96\<close> only. No operation of the operator tells the two forms apart.
\<close>

section \<open>Strings\<close>

fun split_on :: "char \<Rightarrow> string \<Rightarrow> string list" where
  "split_on d [] = [[]]"
| "split_on d (c # cs) =
     (if c = d then [] # split_on d cs
      else (case split_on d cs of [] \<Rightarrow> [[c]] | f # fs \<Rightarrow> (c # f) # fs))"

fun join_with :: "char \<Rightarrow> string list \<Rightarrow> string" where
  "join_with d [] = []"
| "join_with d [f] = f"
| "join_with d (f # fs) = f @ d # join_with d fs"

lemma split_on_not_Nil [simp]: "split_on d s \<noteq> []"
  by (cases s) (auto split: list.splits)

lemma split_on_none: "d \<notin> set s \<Longrightarrow> split_on d s = [s]"
  by (induction s) auto

lemma split_on_append: "d \<notin> set f \<Longrightarrow> split_on d (f @ d # s) = f # split_on d s"
  by (induction f) auto

text \<open>Splitting a join gives the fields back, when no field holds the separator.\<close>

lemma split_join:
  "fs \<noteq> [] \<Longrightarrow> \<forall>f \<in> set fs. d \<notin> set f \<Longrightarrow> split_on d (join_with d fs) = fs"
  by (induction d fs rule: join_with.induct) (auto simp: split_on_none split_on_append)

lemma join_split: "join_with d (split_on d s) = s"
proof (induction s)
  case Nil
  then show ?case by simp
next
  case (Cons c cs)
  obtain f fs where fs: "split_on d cs = f # fs" by (cases "split_on d cs") auto
  with Cons show ?case by (cases fs) auto
qed

section \<open>Decimal and hexadecimal digits\<close>

definition digit_val :: "char \<Rightarrow> int option" where
  "digit_val c =
     (let n = of_char c in if 48 \<le> n \<and> n \<le> 57 then Some (n - 48) else None)"

definition hex_val :: "char \<Rightarrow> int option" where
  "hex_val c =
     (let n = of_char c in
      if 48 \<le> n \<and> n \<le> 57 then Some (n - 48)
      else if 97 \<le> n \<and> n \<le> 102 then Some (n - 97 + 10)
      else if 65 \<le> n \<and> n \<le> 70 then Some (n - 65 + 10) else None)"

definition digit_char :: "int \<Rightarrow> char" where
  "digit_char n = ''0123456789'' ! nat n"

definition hex_char :: "int \<Rightarrow> char" where
  "hex_char n = ''0123456789abcdef'' ! nat n"

lemma digit_cases:
  fixes n :: int
  assumes "0 \<le> n" "n < 10"
  shows "n \<in> {0, 1, 2, 3, 4, 5, 6, 7, 8, 9}"
  using assms unfolding insert_iff empty_iff by presburger

lemma digit_val_char: "0 \<le> n \<Longrightarrow> n < 10 \<Longrightarrow> digit_val (digit_char n) = Some n"
  by (drule (1) digit_cases) (auto simp: digit_val_def digit_char_def)

lemma digit_char_not_sep: "0 \<le> n \<Longrightarrow> n < 10 \<Longrightarrow> digit_char n \<notin> {CHR ''.'', CHR '':'', CHR ''%'', CHR '',''}"
  by (drule (1) digit_cases) (auto simp: digit_char_def)

text \<open>The decimal text of a byte, and of a prefix length, without leading zeros.\<close>

definition dec :: "int \<Rightarrow> string" where
  "dec n =
     (if n < 10 then [digit_char n]
      else if n < 100 then [digit_char (n div 10), digit_char (n mod 10)]
      else [digit_char (n div 100), digit_char (n div 10 mod 10), digit_char (n mod 10)])"

text \<open>A 16-bit group in hexadecimal, without leading zeros.\<close>

definition hex :: "int \<Rightarrow> string" where
  "hex n =
     (if n < 16 then [hex_char n]
      else if n < 256 then [hex_char (n div 16), hex_char (n mod 16)]
      else if n < 4096 then [hex_char (n div 256), hex_char (n div 16 mod 16), hex_char (n mod 16)]
      else [hex_char (n div 4096), hex_char (n div 256 mod 16), hex_char (n div 16 mod 16),
            hex_char (n mod 16)])"

section \<open>Addresses\<close>

datatype ip = NilIP | IPv4 "32 word" | IPv6 "128 word"

fun is_IPv4 :: "ip \<Rightarrow> bool" where
  "is_IPv4 (IPv4 _) = True"
| "is_IPv4 _ = False"

fun ip4_word :: "ip \<Rightarrow> 32 word" where
  "ip4_word (IPv4 w) = w"
| "ip4_word _ = 0"

text \<open>Addresses are ordered by value, nil first and IPv4 before IPv6.\<close>

fun ip_rank :: "ip \<Rightarrow> int \<times> int" where
  "ip_rank NilIP = (0, 0)"
| "ip_rank (IPv4 w) = (1, uint w)"
| "ip_rank (IPv6 w) = (2, uint w)"

lemma ip_rank_inj: "ip_rank a = ip_rank b \<longleftrightarrow> a = b"
  by (cases a; cases b) (auto simp: word_uint_eq_iff)

instantiation ip :: linorder
begin

definition less_eq_ip :: "ip \<Rightarrow> ip \<Rightarrow> bool" where
  "a \<le> b \<longleftrightarrow> fst (ip_rank a) < fst (ip_rank b) \<or>
     fst (ip_rank a) = fst (ip_rank b) \<and> snd (ip_rank a) \<le> snd (ip_rank b)"

definition less_ip :: "ip \<Rightarrow> ip \<Rightarrow> bool" where
  "(a :: ip) < b \<longleftrightarrow> a \<le> b \<and> \<not> b \<le> a"

instance
proof
  fix a b c :: ip
  show "a \<le> a" by (simp add: less_eq_ip_def)
  show "a \<le> b \<Longrightarrow> b \<le> c \<Longrightarrow> a \<le> c" by (auto simp: less_eq_ip_def)
  show "a \<le> b \<Longrightarrow> b \<le> a \<Longrightarrow> a = b"
    by (auto simp: less_eq_ip_def prod_eq_iff simp flip: ip_rank_inj)
  show "a \<le> b \<or> b \<le> a" by (auto simp: less_eq_ip_def)
qed (simp add: less_ip_def)

end

lemma IPv4_less [simp]: "IPv4 a < IPv4 b \<longleftrightarrow> a < b"
  by (auto simp: less_ip_def less_eq_ip_def word_less_def)

lemma IPv4_le [simp]: "IPv4 a \<le> IPv4 b \<longleftrightarrow> a \<le> b"
  by (auto simp: less_eq_ip_def word_le_def)

subsection \<open>Parsing an address: \<open>netip.ParseAddr\<close>\<close>

text \<open>
  \<open>parseIPv4Fields v d fs s\<close>: \<open>v\<close> is the octet being read, \<open>d\<close> its number of digits
  (so \<open>d = 0\<close> at the start and after a dot) and \<open>fs\<close> the octets already read.
\<close>

fun parseIPv4Fields :: "int \<Rightarrow> nat \<Rightarrow> int list \<Rightarrow> string \<Rightarrow> int list option" where
  "parseIPv4Fields v d fs [] = (if length fs < 3 then None else Some (fs @ [v]))"
| "parseIPv4Fields v d fs (c # cs) =
     (case digit_val c of
        Some n \<Rightarrow>
          if d = 1 \<and> v = 0 then None
          else if v * 10 + n > 255 then None
          else parseIPv4Fields (v * 10 + n) (Suc d) fs cs
      | None \<Rightarrow>
          if c = CHR ''.'' then
            if d = 0 \<or> cs = [] then None
            else if length fs = 3 then None
            else parseIPv4Fields 0 0 (fs @ [v]) cs
          else None)"

definition word_of_octets :: "int list \<Rightarrow> 32 word" where
  "word_of_octets fs = word_of_int (foldl (\<lambda>a b. a * 256 + b) 0 fs)"

definition parseIPv4 :: "string \<Rightarrow> (32 word) option" where
  "parseIPv4 s = map_option word_of_octets (parseIPv4Fields 0 0 [] s)"

text \<open>The hexadecimal digits at the start of a text: their number, their value, the rest.\<close>

fun parse_hex :: "nat \<Rightarrow> int \<Rightarrow> string \<Rightarrow> (nat \<times> int \<times> string) option" where
  "parse_hex off acc [] = Some (off, acc, [])"
| "parse_hex off acc (c # cs) =
     (case hex_val c of
        None \<Rightarrow> Some (off, acc, c # cs)
      | Some n \<Rightarrow>
          if off > 3 then None
          else if acc * 16 + n > 65535 then None
          else parse_hex (Suc off) (acc * 16 + n) cs)"

text \<open>
  The group loop of \<open>parseIPv6\<close>: \<open>n\<close> counts the 16-bit groups still missing (so it stops
  after eight), \<open>gs\<close> are the groups read and \<open>e\<close> is the place of the ellipsis.
\<close>

fun parse_groups ::
  "nat \<Rightarrow> int list \<Rightarrow> nat option \<Rightarrow> string \<Rightarrow> (int list \<times> nat option \<times> string) option" where
  "parse_groups 0 gs e s = Some (gs, e, s)"
| "parse_groups (Suc n) gs e s =
     (case parse_hex 0 0 s of
        None \<Rightarrow> None
      | Some (off, acc, r) \<Rightarrow>
          if off = 0 then None
          else if r \<noteq> [] \<and> hd r = CHR ''.'' then
            (if e = None \<and> length gs \<noteq> 6 then None
             else if length gs + 2 > 8 then None
             else (case parseIPv4Fields 0 0 [] s of
                     Some [a, b, c, d] \<Rightarrow> Some (gs @ [a * 256 + b, c * 256 + d], e, [])
                   | _ \<Rightarrow> None))
          else
            (case r of
               [] \<Rightarrow> Some (gs @ [acc], e, [])
             | c # r' \<Rightarrow>
                 if c \<noteq> CHR '':'' then None
                 else if r' = [] then None
                 else if hd r' = CHR '':'' then
                   (if e \<noteq> None then None
                    else if tl r' = [] then Some (gs @ [acc], Some (length gs + 1), [])
                    else parse_groups n (gs @ [acc]) (Some (length gs + 1)) (tl r'))
                 else parse_groups n (gs @ [acc]) e r'))"

definition expand_groups :: "int list \<Rightarrow> nat option \<Rightarrow> int list option" where
  "expand_groups gs e =
     (if length gs < 8 then
        (case e of
           None \<Rightarrow> None
         | Some p \<Rightarrow> Some (take p gs @ replicate (8 - length gs) 0 @ drop p gs))
      else if e \<noteq> None then None else Some gs)"

definition word_of_groups :: "int list \<Rightarrow> 128 word" where
  "word_of_groups gs = word_of_int (foldl (\<lambda>a b. a * 65536 + b) 0 gs)"

definition parseIPv6 :: "string \<Rightarrow> (128 word) option" where
  "parseIPv6 s =
     (if CHR ''%'' \<in> set s then None  \<comment> \<open>both callers reject an address with a zone\<close>
      else
        let leading = take 2 s = ''::'';
            s' = (if leading then drop 2 s else s)
        in if leading \<and> s' = [] then Some 0
           else (case parse_groups 8 [] (if leading then Some 0 else None) s' of
                   Some (gs, e, []) \<Rightarrow> map_option word_of_groups (expand_groups gs e)
                 | _ \<Rightarrow> None))"

datatype addr = Addr4 "32 word" | Addr6 "128 word"

text \<open>The first of \<open>.\<close>, \<open>:\<close> and \<open>%\<close> in the text decides which parser reads it.\<close>

fun addr_kind :: "string \<Rightarrow> char option" where
  "addr_kind [] = None"
| "addr_kind (c # cs) = (if c \<in> {CHR ''.'', CHR '':'', CHR ''%''} then Some c else addr_kind cs)"

definition ParseAddr :: "string \<Rightarrow> addr option" where
  "ParseAddr s =
     (case addr_kind s of
        None \<Rightarrow> None
      | Some c \<Rightarrow>
          if c = CHR ''.'' then map_option Addr4 (parseIPv4 s)
          else if c = CHR '':'' then map_option Addr6 (parseIPv6 s)
          else None)"

text \<open>\<open>As16\<close> followed by the identification of the two forms of an IPv4 address.\<close>

definition ip_of_16 :: "128 word \<Rightarrow> ip" where
  "ip_of_16 w = (if drop_bit 32 w = 65535 then IPv4 (ucast w) else IPv6 w)"

definition ParseIP :: "string \<Rightarrow> ip" where
  "ParseIP s =
     (case ParseAddr s of
        None \<Rightarrow> NilIP
      | Some (Addr4 w) \<Rightarrow> IPv4 w
      | Some (Addr6 w) \<Rightarrow> ip_of_16 w)"

subsection \<open>Printing an address: \<open>IP.String\<close>\<close>

definition octets :: "32 word \<Rightarrow> int list" where
  "octets w = [uint w div 16777216, uint w div 65536 mod 256, uint w div 256 mod 256, uint w mod 256]"

definition groups :: "128 word \<Rightarrow> int list" where
  "groups w = map (\<lambda>i. uint w div 65536 ^ (7 - i) mod 65536) [0..<8]"

text \<open>The longest run of at least two zero groups, the first one of that length.\<close>

definition zero_run :: "int list \<Rightarrow> nat \<Rightarrow> nat" where
  "zero_run gs i = length (takeWhile (\<lambda>g. g = 0) (drop i gs))"

definition longest_zeros :: "int list \<Rightarrow> (nat \<times> nat) option" where
  "longest_zeros gs =
     foldl (\<lambda>best i.
       let l = zero_run gs i in
       if 2 \<le> l \<and> (case best of None \<Rightarrow> True | Some (a, b) \<Rightarrow> b - a < l)
       then Some (i, i + l) else best) None [0..<length gs]"

definition IPv6_String :: "128 word \<Rightarrow> string" where
  "IPv6_String w =
     (let gs = groups w in
      case longest_zeros gs of
        None \<Rightarrow> join_with (CHR '':'') (map hex gs)
      | Some (a, b) \<Rightarrow>
          join_with (CHR '':'') (map hex (take a gs)) @ ''::'' @
          join_with (CHR '':'') (map hex (drop b gs)))"

fun IP_String :: "ip \<Rightarrow> string" where
  "IP_String NilIP = ''<nil>''"
| "IP_String (IPv4 w) = join_with (CHR ''.'') (map dec (octets w))"
| "IP_String (IPv6 w) = IPv6_String w"

subsection \<open>An IPv4 address survives printing and parsing\<close>

lemma dec_cases:
  assumes "0 \<le> n" "n < 256"
  obtains "0 \<le> n" "n < 10" "dec n = [digit_char n]"
  | "10 \<le> n" "n < 100" "dec n = [digit_char (n div 10), digit_char (n mod 10)]"
  | "100 \<le> n" "n < 256"
    "dec n = [digit_char (n div 100), digit_char (n div 10 mod 10), digit_char (n mod 10)]"
  using assms by (cases "n < 10"; cases "n < 100") (auto simp: dec_def)

lemma dec_not_sep: "0 \<le> n \<Longrightarrow> n < 256 \<Longrightarrow> set (dec n) \<inter> {CHR ''.'', CHR '':'', CHR ''%'', CHR '',''} = {}"
proof (erule (1) dec_cases)
  show ?thesis if "0 \<le> n" "n < 10" "dec n = [digit_char n]"
    using that digit_char_not_sep [of n] by auto
  show ?thesis if "10 \<le> n" "n < 100" "dec n = [digit_char (n div 10), digit_char (n mod 10)]"
    using that digit_char_not_sep [of "n div 10"] digit_char_not_sep [of "n mod 10"] by auto
  show ?thesis if "100 \<le> n" "n < 256"
    "dec n = [digit_char (n div 100), digit_char (n div 10 mod 10), digit_char (n mod 10)]"
    using that digit_char_not_sep [of "n div 100"] digit_char_not_sep [of "n div 10 mod 10"]
      digit_char_not_sep [of "n mod 10"] by auto
qed

lemma parse_digit:
  assumes "0 \<le> n" "n < 10" "\<not> (d = 1 \<and> v = 0)" "m = v * 10 + n" "m \<le> 255"
  shows "parseIPv4Fields v d fs (digit_char n # cs) = parseIPv4Fields m (Suc d) fs cs"
  using assms by (auto simp: digit_val_char)

lemma parse_dec:
  assumes "0 \<le> n" "n < 256"
  shows "parseIPv4Fields 0 0 fs (dec n @ s) = parseIPv4Fields n (length (dec n)) fs s"
  using assms
proof (rule dec_cases)
  assume a: "0 \<le> n" "n < 10" "dec n = [digit_char n]"
  then show ?thesis unfolding a(3) by (simp add: parse_digit [of n] del: parseIPv4Fields.simps)
next
  assume a: "10 \<le> n" "n < 100" "dec n = [digit_char (n div 10), digit_char (n mod 10)]"
  have "parseIPv4Fields 0 0 fs (digit_char (n div 10) # digit_char (n mod 10) # s)
    = parseIPv4Fields (n div 10) (Suc 0) fs (digit_char (n mod 10) # s)"
    by (rule parse_digit) (use a(1,2) in simp_all)
  also have "\<dots> = parseIPv4Fields n (Suc (Suc 0)) fs s"
    by (rule parse_digit) (use a(1,2) in simp_all)
  finally show ?thesis unfolding a(3) by (simp del: parseIPv4Fields.simps)
next
  assume a: "100 \<le> n" "n < 256"
    "dec n = [digit_char (n div 100), digit_char (n div 10 mod 10), digit_char (n mod 10)]"
  have "n div 10 div 10 = n div 100" by (simp add: zdiv_zmult2_eq [symmetric])
  then have e: "n div 10 = n div 100 * 10 + n div 10 mod 10"
    using div_mult_mod_eq [of "n div 10" 10] by simp
  have "parseIPv4Fields 0 0 fs
      (digit_char (n div 100) # digit_char (n div 10 mod 10) # digit_char (n mod 10) # s)
    = parseIPv4Fields (n div 100) (Suc 0) fs (digit_char (n div 10 mod 10) # digit_char (n mod 10) # s)"
    by (rule parse_digit) (use a(1,2) in simp_all)
  also have "\<dots> = parseIPv4Fields (n div 10) (Suc (Suc 0)) fs (digit_char (n mod 10) # s)"
    by (rule parse_digit [OF _ _ _ e]) (use a(1,2) in simp_all)
  also have "\<dots> = parseIPv4Fields n (Suc (Suc (Suc 0))) fs s"
    by (rule parse_digit) (use a(1,2) in simp_all)
  finally show ?thesis unfolding a(3) by (simp del: parseIPv4Fields.simps)
qed

lemma dec_not_Nil [simp]: "dec n \<noteq> []"
  by (simp add: dec_def)

lemma parse_dec_dot:
  assumes "0 \<le> n" "n < 256" "length fs < 3" "s \<noteq> []"
  shows "parseIPv4Fields 0 0 fs (dec n @ CHR ''.'' # s) = parseIPv4Fields 0 0 (fs @ [n]) s"
  using assms by (simp add: parse_dec digit_val_def)

lemma parse_dec_last:
  assumes "0 \<le> n" "n < 256" "length fs = 3"
  shows "parseIPv4Fields 0 0 fs (dec n) = Some (fs @ [n])"
  using assms parse_dec [of n fs "[]"] by simp

lemma octets_bounds: "set (octets w) \<subseteq> {0..<256}"
  using uint_lt2p [of w] by (auto simp: octets_def pos_imp_zdiv_nonneg_iff)

lemma word_of_octets_octets: "word_of_octets (octets w) = w"
proof -
  have "foldl (\<lambda>a b. a * 256 + b) 0 (octets w) = uint w"
  proof -
    have "uint w div 65536 div 256 = uint w div 16777216"
      and "uint w div 256 div 256 = uint w div 65536"
      by (simp_all add: zdiv_zmult2_eq [symmetric])
    then have "uint w div 65536 = uint w div 16777216 * 256 + uint w div 65536 mod 256"
      and "uint w div 256 = uint w div 65536 * 256 + uint w div 256 mod 256"
      using div_mult_mod_eq [of "uint w div 65536" 256] div_mult_mod_eq [of "uint w div 256" 256]
      by simp_all
    moreover have "uint w = uint w div 256 * 256 + uint w mod 256"
      by (rule div_mult_mod_eq [symmetric])
    ultimately show ?thesis by (simp add: octets_def)
  qed
  then show ?thesis by (simp add: word_of_octets_def)
qed

lemma parseIPv4_String: "parseIPv4 (IP_String (IPv4 w)) = Some w"
proof -
  obtain a b c d where o: "octets w = [a, b, c, d]" by (simp add: octets_def)
  with octets_bounds [of w] have "parseIPv4Fields 0 0 [] (IP_String (IPv4 w)) = Some (octets w)"
    by (simp add: parse_dec_dot parse_dec_last)
  then show ?thesis by (simp add: parseIPv4_def word_of_octets_octets)
qed

lemma addr_kind_append:
  "set s \<inter> {CHR ''.'', CHR '':'', CHR ''%''} = {} \<Longrightarrow> addr_kind (s @ t) = addr_kind t"
  by (induction s) auto

lemma addr_kind_IPv4_String: "addr_kind (IP_String (IPv4 w)) = Some (CHR ''.'')"
proof -
  obtain a b c d where o: "octets w = [a, b, c, d]" by (simp add: octets_def)
  with octets_bounds [of w] dec_not_sep [of a]
  have "set (dec a) \<inter> {CHR ''.'', CHR '':'', CHR ''%''} = {}" by auto
  with o show ?thesis by (simp add: addr_kind_append)
qed

lemma ParseIP_String [simp]: "ParseIP (IP_String (IPv4 w)) = IPv4 w"
  by (simp add: ParseIP_def ParseAddr_def addr_kind_IPv4_String parseIPv4_String del: IP_String.simps)

lemma comma_not_in_String: "CHR '','' \<notin> set (IP_String (IPv4 w))"
proof -
  obtain a b c d where o: "octets w = [a, b, c, d]" by (simp add: octets_def)
  with octets_bounds [of w] dec_not_sep [of a] dec_not_sep [of b] dec_not_sep [of c] dec_not_sep [of d]
  show ?thesis by auto
qed

lemma IPv4_String_inj [simp]: "IP_String (IPv4 v) = IP_String (IPv4 w) \<longleftrightarrow> v = w"
  by (metis ParseIP_String ip.inject(1))

section \<open>Networks\<close>

datatype ipnet = Net4 "32 word" nat | Net6 "128 word" nat

definition mask4 :: "nat \<Rightarrow> 32 word" where
  "mask4 n = NOT (mask (32 - n))"

definition mask6 :: "nat \<Rightarrow> 128 word" where
  "mask6 n = NOT (mask (128 - n))"

fun net_IP :: "ipnet \<Rightarrow> ip" where
  "net_IP (Net4 b n) = IPv4 b"
| "net_IP (Net6 b n) = ip_of_16 b"

text \<open>\<open>IPNet.Contains\<close>: an address of the other family, and nil, is in no network.\<close>

fun net_contains :: "ipnet \<Rightarrow> ip \<Rightarrow> bool" where
  "net_contains (Net4 b n) x =
     (case x of IPv4 w \<Rightarrow> w AND mask4 n = b AND mask4 n | _ \<Rightarrow> False)"
| "net_contains (Net6 b n) x =
     (case ip_of_16 b of
        IPv4 v \<Rightarrow> (case x of IPv4 w \<Rightarrow> w AND ucast (mask6 n) = v AND ucast (mask6 n) | _ \<Rightarrow> False)
      | _ \<Rightarrow> (case x of IPv6 w \<Rightarrow> w AND mask6 n = b AND mask6 n | _ \<Rightarrow> False))"

text \<open>\<open>binary.BigEndian.Uint32\<close> of the mask's bytes: the first four of them.\<close>

fun mask_be32 :: "ipnet \<Rightarrow> 32 word" where
  "mask_be32 (Net4 b n) = mask4 n"
| "mask_be32 (Net6 b n) = ucast (drop_bit 96 (mask6 n))"

text \<open>The decimal text of a prefix length and \<open>IPNet.String\<close>.\<close>

fun net_String :: "ipnet \<Rightarrow> string" where
  "net_String (Net4 b n) = IP_String (IPv4 b) @ ''/'' @ dec (int n)"
| "net_String (Net6 b n) = IP_String (ip_of_16 b) @ ''/'' @ dec (int n)"

subsection \<open>Parsing a network: \<open>net.ParseCIDR\<close>\<close>

fun dtoi :: "int \<Rightarrow> string \<Rightarrow> (int \<times> string) option" where
  "dtoi n [] = Some (n, [])"
| "dtoi n (c # cs) =
     (case digit_val c of
        None \<Rightarrow> Some (n, c # cs)
      | Some d \<Rightarrow> if n * 10 + d \<ge> 16777215 then None else dtoi (n * 10 + d) cs)"

definition prefix_length :: "string \<Rightarrow> nat \<Rightarrow> nat option" where
  "prefix_length s bits =
     (if s = [] then None
      else (case dtoi 0 s of
              Some (n, []) \<Rightarrow> if n > int bits then None else Some (nat n)
            | _ \<Rightarrow> None))"

definition ParseCIDR :: "string \<Rightarrow> err + ip \<times> ipnet" where
  "ParseCIDR s =
     (let bad = Inl (ParseError ''CIDR address'' s);
          adr = takeWhile (\<lambda>c. c \<noteq> CHR ''/'') s;
          rst = dropWhile (\<lambda>c. c \<noteq> CHR ''/'') s
      in case rst of
           [] \<Rightarrow> bad
         | _ # msk \<Rightarrow>
             (case ParseAddr adr of
                None \<Rightarrow> bad
              | Some (Addr4 w) \<Rightarrow>
                  (case prefix_length msk 32 of
                     None \<Rightarrow> bad
                   | Some n \<Rightarrow> Inr (IPv4 w, Net4 (w AND mask4 n) n))
              | Some (Addr6 w) \<Rightarrow>
                  (case prefix_length msk 128 of
                     None \<Rightarrow> bad
                   | Some n \<Rightarrow> Inr (ip_of_16 w, Net6 (w AND mask6 n) n))))"

subsection \<open>IPv4 networks are intervals\<close>

definition net_ok :: "ipnet \<Rightarrow> bool" where
  "net_ok c = (case c of Net4 b n \<Rightarrow> b AND mask4 n = b \<and> n \<le> 32 | Net6 b n \<Rightarrow> False)"

lemma net_contains_Net4 [simp]:
  "net_contains (Net4 b n) (IPv4 w) \<longleftrightarrow> w AND mask4 n = b AND mask4 n"
  by simp

lemma net_contains_IPv4: "net_contains (Net4 b n) x \<Longrightarrow> \<exists>w. x = IPv4 w"
  by (cases x) auto

lemma net_contains_NilIP [simp]: "\<not> net_contains c NilIP"
  by (cases c) (auto split: ip.splits)

lemma and_mask4_eq:
  "w AND mask4 n = b AND mask4 n \<longleftrightarrow> drop_bit (32 - n) w = drop_bit (32 - n) b"
proof -
  have "w AND NOT (mask k) = push_bit k (drop_bit k w)" for k and w :: "32 word"
    by (rule bit_eqI) (auto simp: bit_simps)
  moreover have "push_bit k (drop_bit k w) = push_bit k (drop_bit k b) \<longleftrightarrow> drop_bit k w = drop_bit k b"
    for k and w b :: "32 word"
  proof
    assume "push_bit k (drop_bit k w) = push_bit k (drop_bit k b)"
    then have "bit w (k + i) = bit b (k + i)" for i
    proof -
      have "bit (push_bit k (drop_bit k w)) (k + i) = bit (push_bit k (drop_bit k b)) (k + i)"
        using \<open>push_bit k (drop_bit k w) = push_bit k (drop_bit k b)\<close> by simp
      then show ?thesis using bit_imp_le_length [of w "k + i"] bit_imp_le_length [of b "k + i"]
        by (auto simp: bit_simps)
    qed
    then show "drop_bit k w = drop_bit k b" by (auto intro!: bit_eqI simp: bit_simps)
  qed simp
  ultimately show ?thesis by (simp add: mask4_def)
qed

lemma div_eq_interval:
  fixes x y :: nat
  assumes "0 < k" "y mod k = 0"
  shows "x div k = y div k \<longleftrightarrow> y \<le> x \<and> x < y + k"
proof -
  obtain q where q: "y = k * q" using assms(2) by auto
  have "x div k = q \<longleftrightarrow> k * q \<le> x \<and> x < k * q + k"
    using assms(1) by (metis div_nat_eqI dividend_less_times_div mult.commute mult_Suc_right
        add.commute times_div_less_eq_dividend)
  with q assms(1) show ?thesis by simp
qed

lemma aligned_mod:
  fixes b :: "32 word"
  assumes "b AND mask4 n = b"
  shows "unat b mod 2 ^ (32 - n) = 0"
proof -
  have "take_bit (32 - n) b = (b AND mask4 n) AND mask (32 - n)"
    using assms by (simp add: take_bit_eq_mask)
  also have "\<dots> = 0" by (rule bit_eqI) (auto simp: mask4_def bit_simps)
  finally have "unat (take_bit (32 - n) b) = 0" by simp
  then have "take_bit (32 - n) (unat b) = 0" by (simp only: unsigned_take_bit_eq)
  then show ?thesis by (simp only: take_bit_eq_mod)
qed

lemma net4_interval:
  assumes "b AND mask4 n = b"
  shows "net_contains (Net4 b n) (IPv4 w) \<longleftrightarrow> unat b \<le> unat w \<and> unat w < unat b + 2 ^ (32 - n)"
proof -
  have unat_drop: "unat (drop_bit k x) = unat x div 2 ^ k" for k and x :: "32 word"
    by (metis unat_drop_bit_eq drop_bit_eq_div)
  have "net_contains (Net4 b n) (IPv4 w) \<longleftrightarrow> unat w div 2 ^ (32 - n) = unat b div 2 ^ (32 - n)"
    unfolding net_contains_Net4 and_mask4_eq by (simp only: word_unat_eq_iff unat_drop)
  also have "\<dots> \<longleftrightarrow> unat b \<le> unat w \<and> unat w < unat b + 2 ^ (32 - n)"
    by (rule div_eq_interval) (use aligned_mod [OF assms] in auto)
  finally show ?thesis .
qed

text \<open>The last address of a network, and that no address of it wraps around.\<close>

lemma net4_top:
  assumes "b AND mask4 n = b" "n \<le> 32"
  shows "unat b + 2 ^ (32 - n) \<le> 2 ^ 32"
proof -
  have "(2::nat) ^ (32 - n) dvd 2 ^ 32" by (rule le_imp_power_dvd) simp
  moreover have "2 ^ (32 - n) dvd unat b" using aligned_mod [OF assms(1)] by auto
  moreover have "unat b < 2 ^ 32" using unsigned_less [of b] by simp
  ultimately show ?thesis
    by (metis (no_types, lifting) dvd_add_right_iff dvd_diff_nat dvd_imp_le le_add_diff_inverse
        less_imp_le not_le zero_less_diff add_le_cancel_left)
qed

lemma ParseCIDR_error: "ParseCIDR s = Inl e \<Longrightarrow> e = ParseError ''CIDR address'' s"
  by (auto simp: ParseCIDR_def Let_def split: list.splits option.splits addr.splits prod.splits)

lemma ParseCIDR_net_ok:
  assumes "ParseCIDR s = Inr (IPv4 w, Net4 b n)"
  shows "n \<le> 32" and "b = w AND mask4 n" and "net_ok (Net4 b n)" and "net_contains (Net4 b n) (IPv4 w)"
proof -
  from assms show n: "n \<le> 32" and b: "b = w AND mask4 n"
    by (auto simp: ParseCIDR_def Let_def prefix_length_def
        split: list.splits option.splits addr.splits if_splits prod.splits)
  show "net_ok (Net4 b n)" "net_contains (Net4 b n) (IPv4 w)"
    using n by (simp_all add: b net_ok_def and.assoc)
qed

lemma ParseCIDR_Net4: "ParseCIDR s = Inr (a, Net4 b n) \<Longrightarrow> \<exists>w. a = IPv4 w"
  by (auto simp: ParseCIDR_def Let_def split: list.splits option.splits addr.splits)

end
