(* ===== verification/Model.thy ===== *)
theory Model
  imports GoNet
begin

text \<open>
  The data the operator works on: the \<open>EgressIPAM\<close> resource of
  \<open>api/v1alpha1/egressipam_types.go\<close>, the fields of the Kubernetes and OpenShift objects
  that the code reads or writes, the \<open>ReconcileContext\<close> and the \<open>Infra\<close> interface of
  \<open>reconcilecontext/reconcile_context.go\<close>, and the history of the calls that change
  something outside the process.
\<close>

section \<open>Objects\<close>

type_synonym labels = "(string, string) gomap"

text \<open>
  A Go map or slice that an object was decoded into may be nil: \<open>None\<close>. Reading nil is
  reading an empty one; assigning into a nil map panics.
\<close>

type_synonym annotations = "labels option"
type_synonym slice = "string list option"

definition getAnnotation :: "annotations \<Rightarrow> string \<Rightarrow> string option" where
  "getAnnotation a k = (case a of None \<Rightarrow> None | Some m \<Rightarrow> map_of m k)"

definition setAnnotation :: "annotations \<Rightarrow> string \<Rightarrow> string \<Rightarrow> err + annotations" where
  "setAnnotation a k v =
     (case a of
        None \<Rightarrow> Inl (GoPanic ''assignment to entry in nil map'')
      | Some m \<Rightarrow> Inr (Some (gm_put k v m)))"

definition deleteAnnotation :: "annotations \<Rightarrow> string \<Rightarrow> annotations" where
  "deleteAnnotation a k = map_option (filter (\<lambda>(k', v). k' \<noteq> k)) a"

definition slice_elems :: "slice \<Rightarrow> string list" where
  "slice_elems s = (case s of None \<Rightarrow> [] | Some xs \<Rightarrow> xs)"

lemma slice_elems_Some [simp]: "slice_elems (Some xs) = xs"
  by (simp add: slice_elems_def)

lemma getAnnotation_set:
  "setAnnotation a k v = Inr b \<Longrightarrow> getAnnotation b k' = (if k' = k then Some v else getAnnotation a k')"
  by (auto simp: setAnnotation_def getAnnotation_def split: option.splits)

lemma getAnnotation_delete:
  "getAnnotation (deleteAnnotation a k) k' = (if k' = k then None else getAnnotation a k')"
proof (cases a)
  case None
  then show ?thesis by (simp add: getAnnotation_def deleteAnnotation_def)
next
  case (Some m)
  have "map_of (filter (\<lambda>(k', v). k' \<noteq> k) m) k' = (if k' = k then None else map_of m k')"
    by (induction m) auto
  with Some show ?thesis by (simp add: getAnnotation_def deleteAnnotation_def)
qed

record node =
  node_name :: string
  node_labels :: labels
  node_annotations :: annotations
  node_providerID :: string
  node_conditions :: "(string \<times> string) list"  \<comment> \<open>\<open>Status.Conditions\<close>: Type and Status\<close>

record namespace =
  ns_name :: string
  ns_annotations :: annotations

record netnamespace =
  nn_name :: string
  nn_egressIPs :: slice

record hostsubnet =
  hs_name :: string
  hs_hostIP :: string
  hs_egressIPs :: slice
  hs_egressCIDRs :: slice

text \<open>The zero value of a map's element, which reading an absent key gives.\<close>

definition zero_node :: node where
  "zero_node = \<lparr>node_name = '''', node_labels = [], node_annotations = None, node_providerID = '''',
     node_conditions = []\<rparr>"

definition zero_netnamespace :: netnamespace where
  "zero_netnamespace = \<lparr>nn_name = '''', nn_egressIPs = None\<rparr>"

definition zero_hostsubnet :: hostsubnet where
  "zero_hostsubnet = \<lparr>hs_name = '''', hs_hostIP = '''', hs_egressIPs = None, hs_egressCIDRs = None\<rparr>"

text \<open>The object of a watch event, before the type assertion of its handler.\<close>

datatype kobject = KNode node | KNamespace namespace | KHostSubnet hostsubnet | KNetNamespace netnamespace

text \<open>
  \<open>reflect.DeepEqual\<close> on slices with their static element type (values of different types are
  never deeply equal, nor are a nil and an empty slice) and on string maps.
\<close>

datatype go_value =
    StringSlice slice                 \<comment> \<open>\<open>[]string\<close>\<close>
  | NetNamespaceEgressIPs slice       \<comment> \<open>\<open>[]ocpnetv1.NetNamespaceEgressIP\<close>\<close>
  | HostSubnetEgressIPs slice         \<comment> \<open>\<open>[]ocpnetv1.HostSubnetEgressIP\<close>\<close>
  | HostSubnetEgressCIDRs slice       \<comment> \<open>\<open>[]ocpnetv1.HostSubnetEgressCIDR\<close>\<close>

definition DeepEqual :: "go_value \<Rightarrow> go_value \<Rightarrow> bool" where
  "DeepEqual a b = (a = b)"

definition DeepEqual_map :: "annotations \<Rightarrow> annotations \<Rightarrow> bool" where
  "DeepEqual_map a b =
     (case (a, b) of
        (None, None) \<Rightarrow> True
      | (Some m, Some n) \<Rightarrow>
          set (gm_keys m) = set (gm_keys n) \<and> (\<forall>k \<in> set (gm_keys m). map_of m k = map_of n k)
      | _ \<Rightarrow> False)"

section \<open>The EgressIPAM resource\<close>

record label_selector =
  matchLabels :: labels
  matchExpressions :: "(string \<times> string \<times> string list) list"

record CIDRAssignment =
  CIDR :: string
  LabelValue :: string
  ReservedIPs :: "string list"

record EgressIPAM =
  ei_name :: string
  ei_annotations :: annotations
  ei_finalizers :: "string list"
  ei_deletionTimestamp :: "string option"
  CIDRAssignments :: "CIDRAssignment list"
  TopologyLabel :: string
  NodeSelector :: label_selector

definition NamespaceAnnotation :: string where
  "NamespaceAnnotation = ''egressip-ipam-operator.redhat-cop.io/egressipam''"

definition NamespaceAssociationAnnotation :: string where
  "NamespaceAssociationAnnotation = ''egressip-ipam-operator.redhat-cop.io/egressips''"

lemma annotations_differ [simp]: "NamespaceAnnotation \<noteq> NamespaceAssociationAnnotation"
  "NamespaceAssociationAnnotation \<noteq> NamespaceAnnotation"
  by (simp_all add: NamespaceAnnotation_def NamespaceAssociationAnnotation_def)

definition ns_egressipam :: "namespace \<Rightarrow> string option" where
  "ns_egressipam n = getAnnotation (ns_annotations n) NamespaceAnnotation"

definition ns_ips :: "namespace \<Rightarrow> string option" where
  "ns_ips n = getAnnotation (ns_annotations n) NamespaceAssociationAnnotation"

section \<open>The reconcile context\<close>

datatype platform = AWSPlatformType | AzurePlatformType | GCPPlatformType | OtherPlatform string

record rcontext =
  rc_Infrastructure :: platform
  rc_CloudCredentialsSecret :: "(string, string) gomap"
  rc_EgressIPAM :: EgressIPAM
  rc_CIDRs :: "string list"
  rc_NetCIDRByCIDR :: "(string, ipnet) gomap"
  rc_CIDRsByLabel :: "(string, string) gomap"
  rc_ReservedIPsByCIDR :: "(string, ip list) gomap"
  rc_AllNodes :: "(string, node) gomap"
  rc_AllHostSubnets :: "(string, hostsubnet) gomap"
  rc_SelectedNodes :: "(string, node) gomap"
  rc_SelectedNodesByCIDR :: "(string, string list) gomap"
  rc_SelectedHostSubnets :: "(string, hostsubnet) gomap"
  rc_SelectedHostSubnetsByCIDR :: "(string, string list) gomap"
  rc_ReferringNamespaces :: "(string, namespace) gomap"
  rc_InitiallyAssignedNamespaces :: "namespace list"
  rc_UnAssignedNamespaces :: "namespace list"
  rc_NetNamespaces :: "(string, netnamespace) gomap"
  rc_InitiallyAssignedIPsByNode :: "(string, string list) gomap"
  rc_UsedIPsByCIDR :: "(string, ip list) gomap"
  rc_FinallyAssignedNamespaces :: "namespace list"
  rc_FinallyAssignedIPsByNode :: "(string, string list) gomap"

section \<open>Calls to the outside\<close>

text \<open>
  A network interface of Azure as the SDK has it, with the pointers the code tests or that Azure
  may leave nil as options. What else it holds is passed on unchanged (\<open>interface_rest\<close>).
\<close>

record ip_configuration =
  config_Name :: string
  PrivateIPAddress :: "string option"
  PrivateIPAllocationMethod :: string
  config_Subnet :: "string option"
  config_Primary :: "bool option"
  LoadBalancerBackendAddressPools :: "string list option"

record network_interface =
  interface_ID :: string
  interface_Name :: string
  IPConfigurations :: "ip_configuration list option"
  interface_rest :: string

text \<open>
  The request for cloud credentials: an \<open>AWSProviderSpec\<close> lists statements (actions, effect,
  resource), an \<open>AzureProviderSpec\<close> roles. \<open>cr_SecretRef\<close> is the namespace and name of the
  secret that is asked for.
\<close>

datatype provider_spec =
    AWSProviderSpec "(string list \<times> string \<times> string) list"
  | AzureProviderSpec "string list"

record credentials_request =
  cr_Namespace :: string
  cr_Name :: string
  cr_ResourceVersion :: string
  cr_OwnerReferences :: "string list"
  cr_SecretRef :: "string \<times> string"
  cr_ProviderSpec :: provider_spec

datatype api_call =
    UpdateNamespace namespace
  | UpdateNetNamespace netnamespace
  | UpdateHostSubnet hostsubnet
  | UpdateEgressIPAM EgressIPAM
  | CreateCredentialsRequest credentials_request
  | UpdateCredentialsRequest credentials_request
  | UnassignPrivateIpAddresses string "string list"  \<comment> \<open>EC2: network interface, addresses\<close>
  | AssignPrivateIpAddresses string "string list"
  | CreateOrUpdate string string network_interface
      \<comment> \<open>Azure: resource group, name, interface; its error is that of \<open>CreateOrUpdate\<close> or, when
        there is none, of \<open>WaitForCompletionRef\<close>\<close>

text \<open>
  The history of a run: every call that was made, in order, with the error it returned
  (\<open>None\<close> for success). What a call or a read answers may depend on all of it.
\<close>

type_synonym history = "(api_call \<times> err option) list"

fun is_cloud_call :: "api_call \<Rightarrow> bool" where
  "is_cloud_call (UnassignPrivateIpAddresses _ _) = True"
| "is_cloud_call (AssignPrivateIpAddresses _ _) = True"
| "is_cloud_call (CreateOrUpdate _ _ _) = True"
| "is_cloud_call _ = False"

definition calls :: "history \<Rightarrow> api_call list" where
  "calls h = map fst h"

lemma calls_simps [simp]:
  "calls [] = []" "calls (h @ h') = calls h @ calls h'" "calls (x # h) = fst x # calls h"
  by (simp_all add: calls_def)

section \<open>The Infra interface\<close>

text \<open>
  The interface \<open>reconcilecontext.Infra\<close>: what a platform provides. The \<open>Infra\<close> field of
  the context is passed beside it, since its operations take the context.
\<close>

record infra =
  GetUsedIPsByCIDR :: "rcontext \<Rightarrow> (history, (string, ip list) gomap) action"
  ReconcileInstanceSecondaryIPs :: "rcontext \<Rightarrow> (history, unit) action"
  RemoveAllAssignedIPs :: "rcontext \<Rightarrow> (history, unit) action"
  GetIPCapacity :: "node \<Rightarrow> (history, 32 word) action"

end
