(* ===== verification/Externals.thy ===== *)
theory Externals
  imports Model
begin

text \<open>
  What the operator uses and the repository does not hold, as the parameter \<open>goenv\<close> of the
  model: third-party packages, the API server, the order in which Go visits a map and
  schedules goroutines. The predicates named \<open>_laws\<close> state the documented behaviour the
  code relies on; a theorem that needs one of them has it as a hypothesis. \<open>example_env\<close>
  is an environment in which all of them hold.
\<close>

section \<open>The environment\<close>

record goenv =
  range_order :: "nat \<Rightarrow> string list \<Rightarrow> string list"
    \<comment> \<open>the order in which the \<open>range\<close> over a map at a given source line visits its keys\<close>
  go_schedule :: "nat \<Rightarrow> nat \<Rightarrow> nat list"
    \<comment> \<open>the order in which the goroutines started by the loop at a source line make their call\<close>
  go_interleave :: "nat \<Rightarrow> nat \<Rightarrow> nat list"
    \<comment> \<open>the same for goroutines of several steps: which goroutine makes the next step\<close>
  to_uint32 :: "ip \<Rightarrow> 32 word"                   \<comment> \<open>\<open>ipmath.ToUInt32\<close>\<close>
  from_uint32 :: "32 word \<Rightarrow> ip"                 \<comment> \<open>\<open>ipmath.FromUInt32\<close>\<close>
  delta_ip :: "ip \<Rightarrow> int \<Rightarrow> ip"                  \<comment> \<open>\<open>ipmath.DeltaIP\<close>\<close>
  network_size :: "ipnet \<Rightarrow> 32 word"             \<comment> \<open>\<open>ipmath.NetworkSize\<close>\<close>
  u32_list :: "32 word list \<Rightarrow> 32 word list"     \<comment> \<open>\<open>u32set.New(xs...).List()\<close>\<close>
  str_list :: "string list \<Rightarrow> string list"       \<comment> \<open>\<open>strset.New(xs...).List()\<close>\<close>
  str_difference :: "string list \<Rightarrow> string list \<Rightarrow> string list"
    \<comment> \<open>\<open>strset.Difference(strset.New(xs...), strset.New(ys...)).List()\<close>\<close>
  str_intersection :: "string list \<Rightarrow> string list \<Rightarrow> string list"
    \<comment> \<open>\<open>strset.Intersection(strset.New(xs...), strset.New(ys...)).List()\<close>\<close>
  str_is_equal :: "string list \<Rightarrow> string list \<Rightarrow> bool"
    \<comment> \<open>\<open>strset.New(xs...).IsEqual(strset.New(ys...))\<close>\<close>
  multierror :: "err option list \<Rightarrow> err option"
    \<comment> \<open>\<open>ErrorOrNil\<close> after \<open>multierror.Append\<close> of each result\<close>
  selector_of :: "label_selector \<Rightarrow> err + (labels \<Rightarrow> bool)"
    \<comment> \<open>\<open>metav1.LabelSelectorAsSelector\<close> and the selector's \<open>Matches\<close>\<close>
  has_finalizer :: "EgressIPAM \<Rightarrow> string \<Rightarrow> bool"
  add_finalizer :: "EgressIPAM \<Rightarrow> string \<Rightarrow> EgressIPAM"
  remove_finalizer :: "EgressIPAM \<Rightarrow> string \<Rightarrow> EgressIPAM"
  is_being_deleted :: "EgressIPAM \<Rightarrow> bool"        \<comment> \<open>operator-utils\<close>
  api_reply :: "history \<Rightarrow> api_call \<Rightarrow> string option"
    \<comment> \<open>the error with which the server or the cloud answers a call, after a history\<close>
  list_nodes :: "history \<Rightarrow> err + node list"
  list_hostsubnets :: "history \<Rightarrow> err + hostsubnet list"
  list_namespaces :: "history \<Rightarrow> err + namespace list"
  list_netnamespaces :: "history \<Rightarrow> err + netnamespace list"
  list_egressipams :: "history \<Rightarrow> err + EgressIPAM list"
  get_egressipam :: "string \<Rightarrow> history \<Rightarrow> err + EgressIPAM"
  get_namespace :: "string \<Rightarrow> history \<Rightarrow> err + namespace"
  get_netnamespace :: "string \<Rightarrow> history \<Rightarrow> err + netnamespace"
  get_operator_namespace :: "err + string"
  get_infrastructure :: "history \<Rightarrow> err + platform"  \<comment> \<open>the resource \<open>cluster\<close>, by a direct client\<close>
  get_credentials_request :: "string \<Rightarrow> string \<Rightarrow> history \<Rightarrow> err + string"
    \<comment> \<open>namespace, name; the resource version\<close>
  set_controller_reference :: "string \<Rightarrow> credentials_request \<Rightarrow> credentials_request"
    \<comment> \<open>\<open>SetControllerReference\<close>, whose error the code drops\<close>
  direct_client :: "err option"  \<comment> \<open>\<open>GetDirectClientWithSchemeBuilders\<close>: the error, if any\<close>
  secret_String :: "labels \<Rightarrow> string"  \<comment> \<open>\<open>Secret.String()\<close>, given the data\<close>
  get_secret :: "string \<Rightarrow> string \<Rightarrow> history \<Rightarrow> err + labels"  \<comment> \<open>namespace, name; the data\<close>

section \<open>Documented behaviour\<close>

text \<open>A \<open>range\<close> visits every key of the map exactly once.\<close>

definition range_laws :: "goenv \<Rightarrow> bool" where
  "range_laws E \<longleftrightarrow> (\<forall>l ks. distinct ks \<longrightarrow>
     distinct (range_order E l ks) \<and> set (range_order E l ks) = set ks)"

text \<open>Every goroutine runs, once.\<close>

definition schedule_laws :: "goenv \<Rightarrow> bool" where
  "schedule_laws E \<longleftrightarrow> (\<forall>l n.
     distinct (go_schedule E l n) \<and> set (go_schedule E l n) = {0..<n})"

text \<open>
  \<open>ipmath\<close> on IPv4 addresses: the 32-bit value of an address, the address of a value, the
  address a distance away (32-bit addition). \<open>size_law\<close> is separate, since most theorems
  hold whatever \<open>NetworkSize\<close> returns: the number of addresses of the network, as a
  \<open>uint32\<close> (so 0 for a /0).
\<close>

definition ipmath_laws :: "goenv \<Rightarrow> bool" where
  "ipmath_laws E \<longleftrightarrow>
     (\<forall>w. to_uint32 E (IPv4 w) = w) \<and> (\<forall>w. from_uint32 E w = IPv4 w) \<and>
     (\<forall>w d. delta_ip E (IPv4 w) d = IPv4 (w + word_of_int d))"

definition size_law :: "goenv \<Rightarrow> bool" where
  "size_law E \<longleftrightarrow> (\<forall>b n. n \<le> 32 \<longrightarrow> network_size E (Net4 b n) = word_of_int (2 ^ (32 - n)))"

text \<open>The listings of the sets of \<open>go-set\<close>: no repetition, no particular order.\<close>

definition u32set_laws :: "goenv \<Rightarrow> bool" where
  "u32set_laws E \<longleftrightarrow> (\<forall>xs. distinct (u32_list E xs) \<and> set (u32_list E xs) = set xs)"

definition strset_laws :: "goenv \<Rightarrow> bool" where
  "strset_laws E \<longleftrightarrow>
     (\<forall>xs. distinct (str_list E xs) \<and> set (str_list E xs) = set xs) \<and>
     (\<forall>xs ys. distinct (str_difference E xs ys) \<and> set (str_difference E xs ys) = set xs - set ys) \<and>
     (\<forall>xs ys. distinct (str_intersection E xs ys) \<and> set (str_intersection E xs ys) = set xs \<inter> set ys) \<and>
     (\<forall>xs ys. str_is_equal E xs ys \<longleftrightarrow> set xs = set ys)"

text \<open>\<open>multierror\<close> drops nil errors; it does not panic.\<close>

definition multierror_laws :: "goenv \<Rightarrow> bool" where
  "multierror_laws E \<longleftrightarrow> (\<forall>rs.
     (multierror E rs = None \<longleftrightarrow> (\<forall>r \<in> set rs. r = None)) \<and>
     (\<forall>e. multierror E rs = Some e \<longrightarrow> \<not> is_panic e))"

text \<open>The finalizer helpers of operator-utils.\<close>

definition finalizer_laws :: "goenv \<Rightarrow> bool" where
  "finalizer_laws E \<longleftrightarrow>
     (\<forall>x f. has_finalizer E x f \<longleftrightarrow> f \<in> set (ei_finalizers x)) \<and>
     (\<forall>x f. has_finalizer E (add_finalizer E x f) f) \<and>
     (\<forall>x f. \<not> has_finalizer E (remove_finalizer E x f) f)"

lemma range_lawsD:
  assumes "range_laws E" "distinct ks"
  shows "distinct (range_order E l ks)" "set (range_order E l ks) = set ks"
  using assms by (simp_all add: range_laws_def)

lemma ipmath_lawsD:
  assumes "ipmath_laws E"
  shows "to_uint32 E (IPv4 w) = w" "from_uint32 E w = IPv4 w"
    "delta_ip E (IPv4 w) d = IPv4 (w + word_of_int d)"
  using assms by (simp_all add: ipmath_laws_def)

lemma u32set_lawsD:
  assumes "u32set_laws E"
  shows "distinct (u32_list E ws)" "set (u32_list E ws) = set ws"
  using assms by (simp_all add: u32set_laws_def)

lemma strset_lawsD:
  assumes "strset_laws E"
  shows "distinct (str_list E xs)" "set (str_list E xs) = set xs"
    "distinct (str_difference E xs ys)" "set (str_difference E xs ys) = set xs - set ys"
    "distinct (str_intersection E xs ys)" "set (str_intersection E xs ys) = set xs \<inter> set ys"
    "str_is_equal E xs ys \<longleftrightarrow> set xs = set ys"
  using assms by (simp_all add: strset_laws_def)

section \<open>Calls and goroutines\<close>

definition perform :: "goenv \<Rightarrow> api_call \<Rightarrow> history \<Rightarrow> err option \<times> history" where
  "perform E c h = (let r = map_option ApiError (api_reply E h c) in (r, h @ [(c, r)]))"

text \<open>A call whose error ends the caller: \<open>if err != nil { return err }\<close>.\<close>

definition perform_w :: "goenv \<Rightarrow> api_call \<Rightarrow> (history, unit) action" where
  "perform_w E c h =
     (case perform E c h of (None, h') \<Rightarrow> (Inr (), h') | (Some e, h') \<Rightarrow> (Inl e, h'))"

text \<open>
  The pattern of the code's parallel loops: one goroutine per element, each of which makes
  its call and sends one result (nil or an error) into the channel; then one result per
  element is received and collected. A panic in a goroutine ends the process.
\<close>

type_synonym 'a goroutine = "'a \<Rightarrow> history \<Rightarrow> err option \<times> history"

fun run_goroutines :: "'a goroutine \<Rightarrow> 'a list \<Rightarrow> (history, err option list) action" where
  "run_goroutines f [] h = (Inr [], h)"
| "run_goroutines f (x # xs) h =
     (case f x h of (r, h') \<Rightarrow>
        (case r of
           Some (GoPanic m) \<Rightarrow> (Inl (GoPanic m), h')
         | _ \<Rightarrow>
             (case run_goroutines f xs h' of
                (Inl e, h'') \<Rightarrow> (Inl e, h'')
              | (Inr rs, h'') \<Rightarrow> (Inr (r # rs), h''))))"

definition scheduled :: "goenv \<Rightarrow> nat \<Rightarrow> 'a list \<Rightarrow> 'a list" where
  "scheduled E l xs = map (\<lambda>i. xs ! i) (filter (\<lambda>i. i < length xs) (go_schedule E l (length xs)))"

definition go_all :: "goenv \<Rightarrow> nat \<Rightarrow> 'a goroutine \<Rightarrow> 'a list \<Rightarrow> (history, unit) action" where
  "go_all E l f xs h =
     (case run_goroutines f (scheduled E l xs) h of
        (Inl e, h') \<Rightarrow> (Inl e, h')
      | (Inr rs, h') \<Rightarrow>
          (case multierror E rs of None \<Rightarrow> (Inr (), h') | Some e \<Rightarrow> (Inl e, h')))"

lemma scheduled_subset: "set (scheduled E l xs) \<subseteq> set xs"
  by (auto simp: scheduled_def)

lemma set_scheduled: "schedule_laws E \<Longrightarrow> set (scheduled E l xs) = set xs"
  unfolding schedule_laws_def scheduled_def by (force simp: in_set_conv_nth)

lemma mset_scheduled:
  assumes "schedule_laws E"
  shows "mset (scheduled E l xs) = mset xs"
proof -
  let ?s = "go_schedule E l (length xs)"
  have "set ?s = {0..<length xs}" using assms by (simp add: schedule_laws_def)
  then have all: "filter (\<lambda>i. i < length xs) ?s = ?s" by (auto simp: filter_id_conv)
  have "mset ?s = mset [0..<length xs]"
    using assms by (simp add: schedule_laws_def set_eq_iff_mset_eq_distinct [symmetric] del: mset_upt)
  then have "mset (map ((!) xs) ?s) = mset (map ((!) xs) [0..<length xs])" by (simp only: mset_map)
  then show ?thesis by (simp only: scheduled_def all map_nth)
qed

text \<open>
  Every parallel loop of the operator has goroutines that send an error at once, do nothing,
  or make one call that their element determines: they \<open>follow\<close> a plan. The calls of the
  loop are then those of the plan, in schedule order, and the loop returns nil exactly when
  no element had an error and every call succeeded.
\<close>

definition follow :: "goenv \<Rightarrow> ('a \<Rightarrow> err + api_call option) \<Rightarrow> 'a goroutine" where
  "follow E p x h =
     (case p x of
        Inl e \<Rightarrow> (Some e, h)
      | Inr None \<Rightarrow> (None, h)
      | Inr (Some c) \<Rightarrow> perform E c h)"

lemma perform_follow: "perform E (c x) = follow E (\<lambda>x. Inr (Some (c x))) x"
  by (rule ext) (simp add: follow_def)

definition planned :: "('a \<Rightarrow> err + api_call option) \<Rightarrow> 'a \<Rightarrow> api_call list" where
  "planned p x = (case p x of Inr (Some c) \<Rightarrow> [c] | _ \<Rightarrow> [])"

lemma follow_step:
  obtains r h' where "follow E p x h = (r, h @ h')" "calls h' = planned p x"
    "r = None \<longleftrightarrow> (\<forall>e. p x \<noteq> Inl e) \<and> (\<forall>(c, q) \<in> set h'. q = None)"
    "\<forall>m. r = Some (GoPanic m) \<longrightarrow> p x = Inl (GoPanic m)"
proof (cases "p x")
  case (Inl e)
  then show ?thesis by (intro that [of "Some e" "[]"]) (auto simp: follow_def planned_def)
next
  case (Inr q)
  show ?thesis
  proof (cases q)
    case None
    with Inr show ?thesis by (intro that [of None "[]"]) (auto simp: follow_def planned_def)
  next
    case (Some c)
    let ?r = "map_option ApiError (api_reply E h c)"
    from Some Inr show ?thesis
      by (intro that [of ?r "[(c, ?r)]"]) (auto simp: follow_def planned_def perform_def Let_def)
  qed
qed

lemma run_goroutines_follow:
  assumes "\<And>x. x \<in> set xs \<Longrightarrow> f x = follow E p x" and "\<And>x m. x \<in> set xs \<Longrightarrow> p x \<noteq> Inl (GoPanic m)"
  shows "\<exists>rs h'. run_goroutines f xs h = (Inr rs, h @ h') \<and> calls h' = concat (map (planned p) xs) \<and>
    ((\<forall>r \<in> set rs. r = None) \<longleftrightarrow>
     (\<forall>x \<in> set xs. \<forall>e. p x \<noteq> Inl e) \<and> (\<forall>(c, q) \<in> set h'. q = None))"
  using assms
proof (induction xs arbitrary: h)
  case Nil
  then show ?case by simp
next
  case (Cons x xs)
  obtain r h1 where x: "follow E p x h = (r, h @ h1)" "calls h1 = planned p x"
    "r = None \<longleftrightarrow> (\<forall>e. p x \<noteq> Inl e) \<and> (\<forall>(c, q) \<in> set h1. q = None)"
    "\<forall>m. r = Some (GoPanic m) \<longrightarrow> p x = Inl (GoPanic m)"
    by (rule follow_step [of E p x h])
  have "\<exists>rs h2. run_goroutines f xs (h @ h1) = (Inr rs, (h @ h1) @ h2) \<and>
    calls h2 = concat (map (planned p) xs) \<and>
    ((\<forall>r \<in> set rs. r = None) \<longleftrightarrow>
     (\<forall>x \<in> set xs. \<forall>e. p x \<noteq> Inl e) \<and> (\<forall>(c, q) \<in> set h2. q = None))"
    by (rule Cons.IH) (use Cons.prems in simp_all)
  then obtain rs h2 where xs: "run_goroutines f xs (h @ h1) = (Inr rs, (h @ h1) @ h2)"
    "calls h2 = concat (map (planned p) xs)"
    "(\<forall>r \<in> set rs. r = None) \<longleftrightarrow>
     (\<forall>x \<in> set xs. \<forall>e. p x \<noteq> Inl e) \<and> (\<forall>(c, q) \<in> set h2. q = None)"
    by blast
  have fx: "f x h = (r, h @ h1)" using Cons.prems(1) x(1) by simp
  have "r \<noteq> Some (GoPanic m)" for m
    using x(4) Cons.prems(2) [of x m] by auto
  then have run: "run_goroutines f (x # xs) h = (Inr (r # rs), h @ h1 @ h2)"
    by (cases r) (simp_all add: fx xs(1) split: err.splits)
  have cs: "calls (h1 @ h2) = concat (map (planned p) (x # xs))" using x(2) xs(2) by simp
  have "(\<forall>q \<in> set (r # rs). q = None) \<longleftrightarrow> r = None \<and> (\<forall>r \<in> set rs. r = None)" by simp
  also have "\<dots> \<longleftrightarrow> ((\<forall>e. p x \<noteq> Inl e) \<and> (\<forall>(c, q) \<in> set h1. q = None)) \<and>
      ((\<forall>x \<in> set xs. \<forall>e. p x \<noteq> Inl e) \<and> (\<forall>(c, q) \<in> set h2. q = None))"
    by (simp only: x(3) xs(3))
  also have "\<dots> \<longleftrightarrow> (\<forall>x \<in> set (x # xs). \<forall>e. p x \<noteq> Inl e) \<and> (\<forall>(c, q) \<in> set (h1 @ h2). q = None)"
    by (simp add: ball_Un) blast
  finally show ?case using run cs by blast
qed

lemma go_all_follow:
  assumes "schedule_laws E" "multierror_laws E"
    and "\<And>x. x \<in> set xs \<Longrightarrow> f x = follow E p x" and "\<And>x m. x \<in> set xs \<Longrightarrow> p x \<noteq> Inl (GoPanic m)"
  obtains r h' where "go_all E l f xs h = (r, h @ h')"
    "calls h' = concat (map (planned p) (scheduled E l xs))"
    "r = Inr () \<longleftrightarrow> (\<forall>x \<in> set xs. \<forall>e. p x \<noteq> Inl e) \<and> (\<forall>(c, q) \<in> set h'. q = None)"
    "\<forall>m. r \<noteq> Inl (GoPanic m)"
proof -
  let ?ys = "scheduled E l xs"
  have set: "set ?ys = set xs" using assms(1) by (rule set_scheduled)
  have "\<exists>rs h'. run_goroutines f ?ys h = (Inr rs, h @ h') \<and>
    calls h' = concat (map (planned p) ?ys) \<and>
    ((\<forall>r \<in> set rs. r = None) \<longleftrightarrow>
     (\<forall>x \<in> set ?ys. \<forall>e. p x \<noteq> Inl e) \<and> (\<forall>(c, q) \<in> set h'. q = None))"
    by (rule run_goroutines_follow) (simp_all add: assms(3,4) set)
  then obtain rs h' where run: "run_goroutines f ?ys h = (Inr rs, h @ h')"
    "calls h' = concat (map (planned p) ?ys)"
    "(\<forall>r \<in> set rs. r = None) \<longleftrightarrow>
     (\<forall>x \<in> set ?ys. \<forall>e. p x \<noteq> Inl e) \<and> (\<forall>(c, q) \<in> set h'. q = None)"
    by blast
  let ?r = "case multierror E rs of None \<Rightarrow> Inr () | Some e \<Rightarrow> Inl e"
  show ?thesis
  proof (rule that [of ?r h'])
    show "go_all E l f xs h = (?r, h @ h')" by (simp add: go_all_def run(1) split: option.splits)
    show "?r = Inr () \<longleftrightarrow> (\<forall>x \<in> set xs. \<forall>e. p x \<noteq> Inl e) \<and> (\<forall>(c, q) \<in> set h'. q = None)"
    proof -
      have "multierror E rs = None \<longleftrightarrow> (\<forall>r \<in> set rs. r = None)"
        using assms(2) by (simp add: multierror_laws_def)
      moreover have "?r = Inr () \<longleftrightarrow> multierror E rs = None" by (simp split: option.splits)
      ultimately show ?thesis using run(3) by (simp add: set)
    qed
    show "\<forall>m. ?r \<noteq> Inl (GoPanic m)"
      using assms(2) by (force simp: multierror_laws_def split: option.splits)
  qed (rule run(2))
qed

text \<open>The form in which the components use it: the calls as a multiset, whatever the schedule.\<close>

lemma go_all_plan:
  assumes "schedule_laws E" "multierror_laws E"
    and "\<And>x. x \<in> set xs \<Longrightarrow> f x = follow E p x" and "\<And>x m. x \<in> set xs \<Longrightarrow> p x \<noteq> Inl (GoPanic m)"
  shows "\<exists>r h'. go_all E l f xs h = (r, h @ h') \<and> mset (calls h') = mset (concat (map (planned p) xs)) \<and>
    (r = Inr () \<longleftrightarrow> (\<forall>x \<in> set xs. \<forall>e. p x \<noteq> Inl e) \<and> (\<forall>(c, q) \<in> set h'. q = None))"
proof -
  obtain r h' where run: "go_all E l f xs h = (r, h @ h')"
    "calls h' = concat (map (planned p) (scheduled E l xs))"
    "r = Inr () \<longleftrightarrow> (\<forall>x \<in> set xs. \<forall>e. p x \<noteq> Inl e) \<and> (\<forall>(c, q) \<in> set h'. q = None)"
    by (rule go_all_follow [of E xs f p l h]) (use assms in auto)
  have "mset (calls h') = mset (concat (map (planned p) xs))"
    unfolding run(2) mset_concat sum_mset_sum_list [symmetric] mset_map mset_scheduled [OF assms(1)] ..
  with run show ?thesis by blast
qed

text \<open>All the calls added to a history satisfy a predicate.\<close>

definition emits :: "(api_call \<Rightarrow> bool) \<Rightarrow> history \<Rightarrow> history \<Rightarrow> bool" where
  "emits P h h' \<longleftrightarrow> (\<exists>h1. h' = h @ h1 \<and> (\<forall>c \<in> set (calls h1). P c))"

lemma emits_refl [simp]: "emits P h h"
  by (simp add: emits_def)

lemma emits_trans [trans]: "emits P h h1 \<Longrightarrow> emits P h1 h2 \<Longrightarrow> emits P h h2"
  unfolding emits_def by fastforce

lemma go_for_w_emits:
  assumes "\<And>x s h r h'. x \<in> set xs \<Longrightarrow> f x s h = (r, h') \<Longrightarrow> emits P h h'"
    and "go_for_w f xs s h = (r, h')"
  shows "emits P h h'"
proof -
  have "case r of Inl e \<Rightarrow> emits P h h' | Inr t \<Rightarrow> emits P h h'"
    by (rule go_for_w_inv [OF assms(2), where I = "\<lambda>_. emits P h"]) (auto intro: emits_trans assms(1))
  then show ?thesis by (cases r) auto
qed

text \<open>
  The pattern of the sequential loops: the calls for the elements are made one after the
  other, and the first one that fails ends the loop with its error.
\<close>

definition in_order :: "('a \<Rightarrow> api_call) \<Rightarrow> 'a list \<Rightarrow> err + unit \<Rightarrow> history \<Rightarrow> bool" where
  "in_order f xs r h \<longleftrightarrow>
     (case r of
        Inr u \<Rightarrow> h = map (\<lambda>x. (f x, None)) xs
      | Inl e \<Rightarrow> \<exists>ys x zs. xs = ys @ x # zs \<and> h = map (\<lambda>x. (f x, None)) ys @ [(f x, Some e)])"

lemma in_order_Nil [simp]: "in_order f [] (Inr ()) []"
  by (simp add: in_order_def)

lemma in_order_Cons:
  assumes "in_order f xs r h"
  shows "in_order f (x # xs) r ((f x, None) # h)"
proof (cases r)
  case (Inl e)
  with assms obtain ys y zs where "xs = ys @ y # zs" "h = map (\<lambda>x. (f x, None)) ys @ [(f y, Some e)]"
    by (auto simp: in_order_def)
  then have "x # xs = (x # ys) @ y # zs" "(f x, None) # h = map (\<lambda>x. (f x, None)) (x # ys) @ [(f y, Some e)]"
    by simp_all
  with Inl show ?thesis unfolding in_order_def by (simp only: sum.case) blast
qed (use assms in \<open>simp add: in_order_def\<close>)

lemma in_order_stop [simp]: "in_order f (x # xs) (Inl e) [(f x, Some e)]"
  unfolding in_order_def sum.case by (rule exI [of _ "[]"]) simp

lemma perform_w_in_order: "\<exists>r k. perform_w E c h = (r, h @ k) \<and> in_order id [c] r k"
  by (cases "api_reply E h c") (auto simp: perform_w_def perform_def Let_def in_order_def)

section \<open>An environment in which every law holds\<close>

text \<open>Used by the witnesses: maps and goroutines in order, an API server that accepts every call.\<close>

definition example_env :: goenv where
  "example_env = \<lparr>
     range_order = (\<lambda>l ks. ks), go_schedule = (\<lambda>l n. [0..<n]),
     go_interleave = (\<lambda>l n. [0..<n] @ [0..<n]),
     to_uint32 = ip4_word, from_uint32 = IPv4,
     delta_ip = (\<lambda>x d. IPv4 (ip4_word x + word_of_int d)),
     network_size = (\<lambda>c. case c of Net4 b n \<Rightarrow> word_of_int (2 ^ (32 - n)) | Net6 b n \<Rightarrow> 0),
     u32_list = remdups, str_list = remdups,
     str_difference = (\<lambda>xs ys. filter (\<lambda>x. x \<notin> set ys) (remdups xs)),
     str_intersection = (\<lambda>xs ys. filter (\<lambda>x. x \<in> set ys) (remdups xs)),
     str_is_equal = (\<lambda>xs ys. set xs = set ys),
     multierror = (\<lambda>rs. case List.map_filter id rs of [] \<Rightarrow> None | es \<Rightarrow> Some (MultiError es)),
     selector_of = (\<lambda>s. Inr (\<lambda>ls. \<forall>(k, v) \<in> set (matchLabels s). map_of ls k = Some v)),
     has_finalizer = (\<lambda>x f. f \<in> set (ei_finalizers x)),
     add_finalizer = (\<lambda>x f. x\<lparr>ei_finalizers := ei_finalizers x @ [f]\<rparr>),
     remove_finalizer = (\<lambda>x f. x\<lparr>ei_finalizers := filter (\<lambda>g. g \<noteq> f) (ei_finalizers x)\<rparr>),
     is_being_deleted = (\<lambda>x. ei_deletionTimestamp x \<noteq> None),
     api_reply = (\<lambda>h c. None),
     list_nodes = (\<lambda>h. Inr []), list_hostsubnets = (\<lambda>h. Inr []), list_namespaces = (\<lambda>h. Inr []),
     list_netnamespaces = (\<lambda>h. Inr []), list_egressipams = (\<lambda>h. Inr []),
     get_egressipam = (\<lambda>n h. Inl (NotFound n)), get_namespace = (\<lambda>n h. Inl (NotFound n)),
     get_netnamespace = (\<lambda>n h. Inl (NotFound n)),
     get_operator_namespace = Inr ''egressip-ipam-operator'',
     get_infrastructure = (\<lambda>h. Inr (OtherPlatform ''None'')),
     get_credentials_request = (\<lambda>ns n h. Inl (NotFound n)),
     set_controller_reference = (\<lambda>owner r. r\<lparr>cr_OwnerReferences := [owner]\<rparr>), direct_client = None,
     secret_String = (\<lambda>d. concat (map (\<lambda>(k, v). k @ ''='' @ v) d)),
     get_secret = (\<lambda>ns n h. Inl (NotFound n))\<rparr>"

lemma map_filter_id_Nil: "List.map_filter id rs = [] \<longleftrightarrow> (\<forall>r \<in> set rs. r = None)"
  by (induction rs) (auto simp: List.map_filter_simps split: option.splits)

lemma example_env_laws [simp]:
  "range_laws example_env" "schedule_laws example_env" "ipmath_laws example_env" "size_law example_env"
  "u32set_laws example_env" "strset_laws example_env" "multierror_laws example_env"
  "finalizer_laws example_env"
proof -
  show "multierror_laws example_env"
    by (simp add: multierror_laws_def example_env_def map_filter_id_Nil [symmetric] split: list.splits)
qed (auto simp: example_env_def range_laws_def schedule_laws_def ipmath_laws_def size_law_def
    u32set_laws_def strset_laws_def finalizer_laws_def)

end
