(* ===== verification/Examples.thy ===== *)
theory Examples
  imports Externals
begin

text \<open>
  A small cluster for the witnesses of the other theories; \<open>example_env\<close> of \<open>Externals\<close> is
  its environment.
\<close>

section \<open>A context for the witnesses\<close>

text \<open>
  Two CIDRs, a node of each, one namespace that holds addresses and two that hold none.
\<close>

definition example_ns :: "string \<Rightarrow> string option \<Rightarrow> namespace" where
  "example_ns name ips = \<lparr>ns_name = name, ns_annotations = Some ((NamespaceAnnotation, ''ipam'') #
     (case ips of None \<Rightarrow> [] | Some v \<Rightarrow> [(NamespaceAssociationAnnotation, v)]))\<rparr>"

definition example_node :: "string \<Rightarrow> string \<Rightarrow> bool \<Rightarrow> node" where
  "example_node name zone ready = \<lparr>node_name = name, node_labels = [(''zone'', zone)], node_annotations = None,
     node_providerID = '''', node_conditions = [(''Ready'', if ready then ''True'' else ''False'')]\<rparr>"

definition example_hs :: "string \<Rightarrow> string \<Rightarrow> string list \<Rightarrow> hostsubnet" where
  "example_hs name host ips = \<lparr>hs_name = name, hs_hostIP = host, hs_egressIPs = Some ips, hs_egressCIDRs = None\<rparr>"

definition example_egressipam :: EgressIPAM where
  "example_egressipam = \<lparr>ei_name = ''ipam'', ei_annotations = None, ei_finalizers = [],
     ei_deletionTimestamp = None,
     CIDRAssignments = [\<lparr>CIDR = ''10.0.0.0/29'', LabelValue = ''a'', ReservedIPs = [''10.0.0.3'']\<rparr>,
       \<lparr>CIDR = ''10.0.1.0/29'', LabelValue = ''b'', ReservedIPs = []\<rparr>],
     TopologyLabel = ''zone'', NodeSelector = \<lparr>matchLabels = [], matchExpressions = []\<rparr>\<rparr>"

definition example_rc :: rcontext where
  "example_rc =
    (let nodes = [(''n1'', example_node ''n1'' ''a'' True), (''n2'', example_node ''n2'' ''b'' True)];
         subnets = [(''n1'', example_hs ''n1'' ''10.0.0.1'' [''10.0.0.2'']),
           (''n2'', example_hs ''n2'' ''10.0.1.1'' [])];
         ns1 = example_ns ''ns1'' (Some ''10.0.0.2,10.0.1.2'');
         ns2 = example_ns ''ns2'' None; ns3 = example_ns ''ns3'' None in
     \<lparr>rc_Infrastructure = OtherPlatform ''None'', rc_CloudCredentialsSecret = [],
      rc_EgressIPAM = example_egressipam,
      rc_CIDRs = [''10.0.0.0/29'', ''10.0.1.0/29''],
      rc_NetCIDRByCIDR = [(''10.0.0.0/29'', Net4 0x0A000000 29), (''10.0.1.0/29'', Net4 0x0A000100 29)],
      rc_CIDRsByLabel = [(''a'', ''10.0.0.0/29''), (''b'', ''10.0.1.0/29'')],
      rc_ReservedIPsByCIDR = [(''10.0.0.0/29'', [IPv4 0x0A000003]), (''10.0.1.0/29'', [])],
      rc_AllNodes = nodes, rc_AllHostSubnets = subnets, rc_SelectedNodes = nodes,
      rc_SelectedNodesByCIDR = [(''10.0.0.0/29'', [''n1'']), (''10.0.1.0/29'', [''n2''])],
      rc_SelectedHostSubnets = subnets,
      rc_SelectedHostSubnetsByCIDR = [(''10.0.0.0/29'', [''n1'']), (''10.0.1.0/29'', [''n2''])],
      rc_ReferringNamespaces = [(''ns1'', ns1), (''ns2'', ns2), (''ns3'', ns3)],
      rc_InitiallyAssignedNamespaces = [ns1], rc_UnAssignedNamespaces = [ns2, ns3],
      rc_NetNamespaces = [(''ns1'', \<lparr>nn_name = ''ns1'', nn_egressIPs = None\<rparr>),
        (''ns2'', \<lparr>nn_name = ''ns2'', nn_egressIPs = None\<rparr>), (''ns3'', \<lparr>nn_name = ''ns3'', nn_egressIPs = None\<rparr>)],
      rc_InitiallyAssignedIPsByNode = [(''n1'', [''10.0.0.2'']), (''n2'', [])],
      rc_UsedIPsByCIDR = [], rc_FinallyAssignedNamespaces = [], rc_FinallyAssignedIPsByNode = []\<rparr>)"

end
