(* ===== verification/Namespaces.thy ===== *)
theory Namespaces
  imports Examples
begin

text \<open>
  \<open>controllers/egressipam/namespace.go\<close>: which namespaces refer to an EgressIPAM and which of
  them hold addresses, the addresses they hold by CIDR, the removal of these addresses, and
  the watch handler of namespaces. A handler returns the names of the EgressIPAMs it adds to
  the queue.
\<close>

section \<open>Watch handler\<close>

definition enqueue_annotation :: "annotations \<Rightarrow> string list" where
  "enqueue_annotation a =
     (case getAnnotation a NamespaceAnnotation of Some name \<Rightarrow> [name] | None \<Rightarrow> [])"

definition Namespace_Create :: "namespace \<Rightarrow> string list" where
  "Namespace_Create obj = enqueue_annotation (ns_annotations obj)"

definition Namespace_Update :: "namespace \<Rightarrow> namespace \<Rightarrow> string list" where
  "Namespace_Update old new =
     enqueue_annotation (ns_annotations old) @ enqueue_annotation (ns_annotations new)"

definition Namespace_Delete :: "namespace \<Rightarrow> string list" where
  "Namespace_Delete obj = enqueue_annotation (ns_annotations obj)"

section \<open>The namespaces of an EgressIPAM\<close>

definition sort_namespace ::
  "string \<Rightarrow> namespace \<Rightarrow> (string, namespace) gomap \<times> namespace list \<times> namespace list
     \<Rightarrow> (string, namespace) gomap \<times> namespace list \<times> namespace list" where
  "sort_namespace name n = (\<lambda>(referring, unassigned, assigned).
     if ns_egressipam n = Some name then
       (if ns_ips n \<noteq> None
        then (gm_put (ns_name n) n referring, unassigned, assigned @ [n])
        else (gm_put (ns_name n) n referring, unassigned @ [n], assigned))
     else (referring, unassigned, assigned))"

definition getReferringNamespaces ::
  "goenv \<Rightarrow> rcontext \<Rightarrow> history
     \<Rightarrow> err + (string, namespace) gomap \<times> namespace list \<times> namespace list" where
  "getReferringNamespaces E rc h =
     (case list_namespaces E h of
        Inl e \<Rightarrow> Inl e
      | Inr items \<Rightarrow> Inr (fold (sort_namespace (ei_name (rc_EgressIPAM rc))) items ([], [], [])))"

lemma fold_sort_namespace:
  "fold (sort_namespace name) items (ref, un, asg) =
     (fold (\<lambda>n. gm_put (ns_name n) n) (filter (\<lambda>n. ns_egressipam n = Some name) items) ref,
      un @ filter (\<lambda>n. ns_egressipam n = Some name \<and> ns_ips n = None) items,
      asg @ filter (\<lambda>n. ns_egressipam n = Some name \<and> ns_ips n \<noteq> None) items)"
  by (induction items arbitrary: ref un asg) (simp_all add: sort_namespace_def)

lemma fold_put_by_name_other:
  "k \<notin> f ` set xs \<Longrightarrow> map_of (fold (\<lambda>x. gm_put (f x) x) xs m) k = map_of m k"
  by (induction xs arbitrary: m) auto

lemma fold_put_by_name_Some:
  "distinct (map f xs) \<Longrightarrow> x \<in> set xs \<Longrightarrow> map_of (fold (\<lambda>x. gm_put (f x) x) xs m) (f x) = Some x"
  by (induction xs arbitrary: m) (auto simp: fold_put_by_name_other)

lemma keys_fold_put_by_name:
  "fst ` set (fold (\<lambda>x. gm_put (f x) x) xs m) = f ` set xs \<union> fst ` set m"
  by (induction xs arbitrary: m) auto

lemma distinct_fold_put_by_name:
  "distinct (gm_keys m) \<Longrightarrow> distinct (gm_keys (fold (\<lambda>x. gm_put (f x) x) xs m))"
  by (induction xs arbitrary: m) auto

section \<open>Assigned addresses by CIDR\<close>

text \<open>One namespace: its i-th address is checked against, and recorded under, the i-th CIDR.\<close>

definition sort_assigned ::
  "rcontext \<Rightarrow> namespace \<Rightarrow> string list \<Rightarrow> nat \<times> string \<Rightarrow> (string, ip list) gomap
     \<Rightarrow> err + (string, ip list) gomap" where
  "sort_assigned rc n ipstrings = (\<lambda>(i, cidr) m.
     if length ipstrings \<le> i then Inl (GoPanic ''index out of range'')
     else
       let IP = ParseIP (ipstrings ! i) in
       if IP = NilIP then
         Inl (ErrNew (''unable to parse IP: '' @ ipstrings ! i @ '' in namespace: '' @ ns_name n))
       else
         (case map_of (rc_NetCIDRByCIDR rc) cidr of
            None \<Rightarrow> Inl (GoPanic ''nil pointer dereference'')
          | Some net \<Rightarrow>
              if \<not> net_contains net IP then
                Inl (ErrNew (''IP: '' @ IP_String IP @ '' does not belong to CIDR: '' @ cidr @
                  '' for namespace'' @ ns_name n))
              else Inr (gm_put cidr (gm_get [] m cidr @ [IP]) m)))"

definition empty_by_cidr :: "string list \<Rightarrow> (string, 'a list) gomap" where
  "empty_by_cidr cidrs = fold (\<lambda>cidr m. gm_put cidr [] m) cidrs []"

definition sortIPsByCIDR :: "rcontext \<Rightarrow> err + (string, ip list) gomap" where
  "sortIPsByCIDR rc =
     go_for (\<lambda>n m.
       (case ns_ips n of
          None \<Rightarrow> Inr m
        | Some value \<Rightarrow>
            go_for (sort_assigned rc n (split_on (CHR '','') value)) (enumerate 0 (rc_CIDRs rc)) m))
       (rc_InitiallyAssignedNamespaces rc) (empty_by_cidr (rc_CIDRs rc))"

section \<open>Removing the assigned addresses\<close>

definition without_ips :: "namespace \<Rightarrow> namespace" where
  "without_ips n = n\<lparr>ns_annotations := deleteAnnotation (ns_annotations n) NamespaceAssociationAnnotation\<rparr>"

definition removeNamespaceAssignedIPs :: "goenv \<Rightarrow> rcontext \<Rightarrow> (history, unit) action" where
  "removeNamespaceAssignedIPs E rc =
     go_all E 123 (\<lambda>n. perform E (UpdateNamespace (without_ips n))) (rc_InitiallyAssignedNamespaces rc)"

definition getNamespaceMapKeys :: "goenv \<Rightarrow> (string, namespace) gomap \<Rightarrow> string list" where
  "getNamespaceMapKeys E m = range_order E 145 (gm_keys m)"

definition getNamespaceNames :: "namespace list \<Rightarrow> string list" where
  "getNamespaceNames ns = map ns_name ns"

section \<open>What the operations guarantee\<close>

lemma keys_fold_put:
  "fst ` set (fold (\<lambda>k m. gm_put k (f k) m) ks m) = set ks \<union> fst ` set m"
  by (induction ks arbitrary: m) auto

lemma gm_get_fold_put:
  "gm_get z (fold (\<lambda>k. gm_put k (f k)) ks m) k = (if k \<in> set ks then f k else gm_get z m k)"
  by (induction ks arbitrary: m) (auto simp: gm_get_put)

lemma distinct_fold_put:
  "distinct (gm_keys m) \<Longrightarrow> distinct (gm_keys (fold (\<lambda>k m. gm_put k (f k) m) ks m))"
  by (induction ks arbitrary: m) auto

lemma empty_by_cidr_get [simp]: "gm_get [] (empty_by_cidr ks) k = []"
  by (simp add: empty_by_cidr_def gm_get_fold_put)

lemma empty_by_cidr_keys [simp]: "fst ` set (empty_by_cidr ks) = set ks"
  by (simp add: empty_by_cidr_def keys_fold_put)

lemma empty_by_cidr_distinct [simp]: "distinct (gm_keys (empty_by_cidr ks))"
  by (simp add: empty_by_cidr_def distinct_fold_put)

lemma sort_assigned_Inr:
  assumes "sort_assigned rc n ips (i, cidr) m = Inr m'"
  obtains net where "i < length ips" "ParseIP (ips ! i) \<noteq> NilIP"
    "map_of (rc_NetCIDRByCIDR rc) cidr = Some net" "net_contains net (ParseIP (ips ! i))"
    "m' = gm_put cidr (gm_get [] m cidr @ [ParseIP (ips ! i)]) m"
  using assms
  by (auto simp: sort_assigned_def Let_def split: if_splits option.splits)

text \<open>
  The invariant of both loops: every recorded address is an address of the network of its
  CIDR and was read from the annotation of an initially assigned namespace, at the place of
  that CIDR; the CIDRs of the context are the keys.
\<close>

definition sorted_ip_ok :: "rcontext \<Rightarrow> string \<Rightarrow> ip \<Rightarrow> bool" where
  "sorted_ip_ok rc cidr a \<longleftrightarrow>
     (\<exists>net. map_of (rc_NetCIDRByCIDR rc) cidr = Some net \<and> net_contains net a) \<and>
     (\<exists>n \<in> set (rc_InitiallyAssignedNamespaces rc). \<exists>v i.
        ns_ips n = Some v \<and> i < length (rc_CIDRs rc) \<and> rc_CIDRs rc ! i = cidr \<and>
        i < length (split_on (CHR '','') v) \<and> a = ParseIP (split_on (CHR '','') v ! i))"

definition sorted_ips_ok :: "rcontext \<Rightarrow> (string, ip list) gomap \<Rightarrow> bool" where
  "sorted_ips_ok rc m \<longleftrightarrow>
     distinct (gm_keys m) \<and> fst ` set m = set (rc_CIDRs rc) \<and>
     (\<forall>cidr. \<forall>a \<in> set (gm_get [] m cidr). sorted_ip_ok rc cidr a)"

lemma sorted_ips_ok_put:
  assumes "sorted_ips_ok rc m" "cidr \<in> set (rc_CIDRs rc)" "sorted_ip_ok rc cidr a"
  shows "sorted_ips_ok rc (gm_put cidr (gm_get [] m cidr @ [a]) m)"
  using assms by (auto simp: sorted_ips_ok_def gm_get_put)

lemma enumerate_mem: "(i, x) \<in> set (enumerate 0 xs) \<longleftrightarrow> i < length xs \<and> xs ! i = x"
  by (auto simp: in_set_enumerate_eq)

lemma sortIPsByCIDR_ok:
  assumes "sortIPsByCIDR rc = Inr m"
  shows "sorted_ips_ok rc m"
proof (rule go_for_inv [OF assms [unfolded sortIPsByCIDR_def]])
  show "sorted_ips_ok rc (empty_by_cidr (rc_CIDRs rc))" by (simp add: sorted_ips_ok_def)
next
  fix n m m'
  assume n: "n \<in> set (rc_InitiallyAssignedNamespaces rc)" and ok: "sorted_ips_ok rc m"
    and body: "(case ns_ips n of None \<Rightarrow> Inr m
        | Some value \<Rightarrow> go_for (sort_assigned rc n (split_on (CHR '','') value))
            (enumerate 0 (rc_CIDRs rc)) m) = Inr m'"
  show "sorted_ips_ok rc m'"
  proof (cases "ns_ips n")
    case None
    with body ok show ?thesis by simp
  next
    case (Some v)
    with body have loop: "go_for (sort_assigned rc n (split_on (CHR '','') v))
      (enumerate 0 (rc_CIDRs rc)) m = Inr m'" by simp
    show ?thesis
    proof (rule go_for_inv [where I = "sorted_ips_ok rc", OF loop ok])
      fix x s s'
      assume x: "x \<in> set (enumerate 0 (rc_CIDRs rc))" and s: "sorted_ips_ok rc s"
        and step: "sort_assigned rc n (split_on (CHR '','') v) x s = Inr s'"
      obtain i cidr where x_eq: "x = (i, cidr)" by (cases x)
      with x have i: "i < length (rc_CIDRs rc)" "rc_CIDRs rc ! i = cidr" by (simp_all add: enumerate_mem)
      from step x_eq obtain net where net: "i < length (split_on (CHR '','') v)"
        "map_of (rc_NetCIDRByCIDR rc) cidr = Some net"
        "net_contains net (ParseIP (split_on (CHR '','') v ! i))"
        "s' = gm_put cidr (gm_get [] s cidr @ [ParseIP (split_on (CHR '','') v ! i)]) s"
        by (auto elim: sort_assigned_Inr)
      have "cidr \<in> set (rc_CIDRs rc)" using i by auto
      moreover have "sorted_ip_ok rc cidr (ParseIP (split_on (CHR '','') v ! i))"
        using net i n Some unfolding sorted_ip_ok_def by blast
      ultimately show "sorted_ips_ok rc s'" using s net(4) by (simp add: sorted_ips_ok_put)
    qed
  qed
qed

text \<open>Nothing is lost: each address of each assigned namespace is in the list of its CIDR.\<close>

lemma sort_assigned_mono:
  "sort_assigned rc n ips x m = Inr m' \<Longrightarrow> set (gm_get [] m cidr) \<subseteq> set (gm_get [] m' cidr)"
  by (cases x) (auto elim!: sort_assigned_Inr simp: gm_get_put split: if_splits)

lemma sort_assigned_loop:
  assumes "go_for (sort_assigned rc n ips) (enumerate 0 cidrs) m = Inr m'"
  shows "set (gm_get [] m c) \<subseteq> set (gm_get [] m' c)"
    and "i < length cidrs \<Longrightarrow> i < length ips \<and> ParseIP (ips ! i) \<in> set (gm_get [] m' (cidrs ! i))"
proof -
  have "(\<forall>c. set (gm_get [] m c) \<subseteq> set (gm_get [] m' c)) \<and>
    (\<forall>(i, cidr) \<in> set (enumerate 0 cidrs). i < length ips \<and> ParseIP (ips ! i) \<in> set (gm_get [] m' cidr))"
  proof (rule go_for_inv_prefix [OF assms, where I = "\<lambda>ys s.
      (\<forall>c. set (gm_get [] m c) \<subseteq> set (gm_get [] s c)) \<and>
      (\<forall>(i, cidr) \<in> set ys. i < length ips \<and> ParseIP (ips ! i) \<in> set (gm_get [] s cidr))"])
    fix ys x zs s s'
    assume s: "(\<forall>c. set (gm_get [] m c) \<subseteq> set (gm_get [] s c)) \<and>
        (\<forall>(i, cidr) \<in> set ys. i < length ips \<and> ParseIP (ips ! i) \<in> set (gm_get [] s cidr))"
      and step: "sort_assigned rc n ips x s = Inr s'"
    have mono: "set (gm_get [] s c) \<subseteq> set (gm_get [] s' c)" for c
      using sort_assigned_mono [OF step] .
    obtain i cidr where x: "x = (i, cidr)" by (cases x)
    have "i < length ips \<and> ParseIP (ips ! i) \<in> set (gm_get [] s' cidr)"
      using step x by (auto elim!: sort_assigned_Inr simp: gm_get_put)
    with s mono x show "(\<forall>c. set (gm_get [] m c) \<subseteq> set (gm_get [] s' c)) \<and>
        (\<forall>(i, cidr) \<in> set (ys @ [x]). i < length ips \<and> ParseIP (ips ! i) \<in> set (gm_get [] s' cidr))"
      by fastforce
  qed simp
  then show "set (gm_get [] m c) \<subseteq> set (gm_get [] m' c)"
    and "i < length cidrs \<Longrightarrow> i < length ips \<and> ParseIP (ips ! i) \<in> set (gm_get [] m' (cidrs ! i))"
    by (auto simp: enumerate_mem)
qed

lemma sortIPsByCIDR_complete:
  assumes "sortIPsByCIDR rc = Inr m" and "n \<in> set (rc_InitiallyAssignedNamespaces rc)"
    and "ns_ips n = Some v" and "i < length (rc_CIDRs rc)"
  shows "i < length (split_on (CHR '','') v)"
    and "ParseIP (split_on (CHR '','') v ! i) \<in> set (gm_get [] m (rc_CIDRs rc ! i))"
proof -
  let ?P = "\<lambda>ys s. \<forall>n \<in> set ys. \<forall>v. ns_ips n = Some v \<longrightarrow> (\<forall>i < length (rc_CIDRs rc).
    i < length (split_on (CHR '','') v) \<and>
    ParseIP (split_on (CHR '','') v ! i) \<in> set (gm_get [] s (rc_CIDRs rc ! i)))"
  have "?P (rc_InitiallyAssignedNamespaces rc) m"
  proof (rule go_for_inv_prefix [OF assms(1) [unfolded sortIPsByCIDR_def], where I = ?P])
    fix ys n zs s s'
    assume s: "?P ys s" and step: "(case ns_ips n of None \<Rightarrow> Inr s
        | Some value \<Rightarrow> go_for (sort_assigned rc n (split_on (CHR '','') value))
            (enumerate 0 (rc_CIDRs rc)) s) = Inr s'"
    show "?P (ys @ [n]) s'"
    proof (cases "ns_ips n")
      case None
      with s step show ?thesis by auto
    next
      case (Some v)
      with step have loop: "go_for (sort_assigned rc n (split_on (CHR '','') v))
        (enumerate 0 (rc_CIDRs rc)) s = Inr s'" by simp
      note facts = sort_assigned_loop [OF loop]
      have "?P ys s'" using s facts(1) by blast
      moreover have "?P [n] s'" using facts(2) Some by simp
      ultimately show ?thesis by simp
    qed
  qed simp
  with assms(2-4) show "i < length (split_on (CHR '','') v)"
    and "ParseIP (split_on (CHR '','') v ! i) \<in> set (gm_get [] m (rc_CIDRs rc ! i))"
    by blast+
qed

text \<open>
  How it ends is decided by the annotations alone. The first \<open>k\<close> addresses of an annotation are
  in place when they are there and each lies in the network of its CIDR.
\<close>

definition in_place :: "rcontext \<Rightarrow> string list \<Rightarrow> nat \<Rightarrow> bool" where
  "in_place rc ips k \<longleftrightarrow> k \<le> length ips \<and>
     (\<forall>i < k. \<exists>net. map_of (rc_NetCIDRByCIDR rc) (rc_CIDRs rc ! i) = Some net \<and> net_contains net (ParseIP (ips ! i)))"

definition place_error :: "rcontext \<Rightarrow> namespace \<Rightarrow> string list \<Rightarrow> nat \<times> string \<Rightarrow> err option" where
  "place_error rc n ips x = (case sort_assigned rc n ips x [] of Inl e \<Rightarrow> Some e | Inr m \<Rightarrow> None)"

definition annotation_error :: "rcontext \<Rightarrow> namespace \<Rightarrow> err option" where
  "annotation_error rc n =
     (case ns_ips n of
        None \<Rightarrow> None
      | Some v \<Rightarrow>
          (case go_for (sort_assigned rc n (split_on (CHR '','') v)) (enumerate 0 (rc_CIDRs rc)) [] of
             Inl e \<Rightarrow> Some e | Inr m \<Rightarrow> None))"

lemma place_error_sort:
  "case place_error rc n ips x of None \<Rightarrow> \<exists>m'. sort_assigned rc n ips x m = Inr m' | Some e \<Rightarrow> sort_assigned rc n ips x m = Inl e"
  by (cases x) (simp add: place_error_def sort_assigned_def Let_def del: net_contains.simps split: option.splits)

lemma place_error_None:
  "place_error rc n ips (i, c) = None \<longleftrightarrow>
     i < length ips \<and> (\<exists>net. map_of (rc_NetCIDRByCIDR rc) c = Some net \<and> net_contains net (ParseIP (ips ! i)))"
proof (cases "ParseIP (ips ! i) = NilIP")
  case True
  then have "\<not> (\<exists>net. map_of (rc_NetCIDRByCIDR rc) c = Some net \<and> net_contains net (ParseIP (ips ! i)))" by simp
  with True show ?thesis by (simp add: place_error_def sort_assigned_def)
next
  case False
  then show ?thesis by (auto simp: place_error_def sort_assigned_def Let_def simp del: net_contains.simps split: option.splits)
qed

lemma place_error_panic:
  assumes "map_of (rc_NetCIDRByCIDR rc) c \<noteq> None"
  shows "place_error rc n ips (i, c) = Some (GoPanic m) \<longleftrightarrow> length ips \<le> i \<and> m = ''index out of range''"
  using assms by (auto simp: place_error_def sort_assigned_def Let_def simp del: net_contains.simps split: option.splits)

lemma annotation_error_sort:
  "case annotation_error rc n of
     None \<Rightarrow> \<exists>m'. (case ns_ips n of None \<Rightarrow> Inr m
        | Some value \<Rightarrow> go_for (sort_assigned rc n (split_on (CHR '','') value)) (enumerate 0 (rc_CIDRs rc)) m) = Inr m'
   | Some e \<Rightarrow> (case ns_ips n of None \<Rightarrow> Inr m
        | Some value \<Rightarrow> go_for (sort_assigned rc n (split_on (CHR '','') value)) (enumerate 0 (rc_CIDRs rc)) m) = Inl e"
proof (cases "ns_ips n")
  case (Some v)
  note L = go_for_stateless [where f = "sort_assigned rc n (split_on (CHR '','') v)" and xs = "enumerate 0 (rc_CIDRs rc)"
      and err = "place_error rc n (split_on (CHR '','') v)", OF place_error_sort]
  show ?thesis
  proof (cases "go_for (sort_assigned rc n (split_on (CHR '','') v)) (enumerate 0 (rc_CIDRs rc)) []")
    case (Inl e)
    with L(1) have "go_for (sort_assigned rc n (split_on (CHR '','') v)) (enumerate 0 (rc_CIDRs rc)) m = Inl e" by metis
    with Inl Some show ?thesis by (simp add: annotation_error_def)
  next
    case (Inr m')
    with L(2) have "\<exists>m'. go_for (sort_assigned rc n (split_on (CHR '','') v)) (enumerate 0 (rc_CIDRs rc)) m = Inr m'" by metis
    with Inr Some show ?thesis by (simp add: annotation_error_def)
  qed
qed (simp add: annotation_error_def)

lemma all_less_and: "(\<forall>i < k. i < n \<and> P i) \<longleftrightarrow> k \<le> n \<and> (\<forall>i < k. P i)" for k n :: nat
proof -
  have "(\<forall>i < k. i < n) \<longleftrightarrow> k \<le> n" by (metis less_irrefl linorder_not_le order_less_le_trans)
  then show ?thesis by blast
qed

lemma annotation_error_None:
  assumes "ns_ips n = Some v"
  shows "annotation_error rc n = None \<longleftrightarrow> in_place rc (split_on (CHR '','') v) (length (rc_CIDRs rc))"
proof -
  let ?ips = "split_on (CHR '','') v"
  note L = go_for_stateless(2) [where f = "sort_assigned rc n ?ips" and xs = "enumerate 0 (rc_CIDRs rc)" and s = "[]"
      and err = "place_error rc n ?ips", OF place_error_sort]
  have "annotation_error rc n = None \<longleftrightarrow> (\<forall>x \<in> set (enumerate 0 (rc_CIDRs rc)). place_error rc n ?ips x = None)"
    unfolding L [symmetric] by (auto simp: annotation_error_def assms split: sum.splits)
  also have "\<dots> \<longleftrightarrow> (\<forall>i < length (rc_CIDRs rc). place_error rc n ?ips (i, rc_CIDRs rc ! i) = None)"
    by (auto simp: enumerate_mem)
  also have "\<dots> \<longleftrightarrow> in_place rc ?ips (length (rc_CIDRs rc))"
    unfolding place_error_None in_place_def all_less_and ..
  finally show ?thesis .
qed

lemma enumerate_split:
  "enumerate 0 xs = ys @ x # zs \<longleftrightarrow> (\<exists>k < length xs. ys = enumerate 0 (take k xs) \<and> x = (k, xs ! k) \<and>
     zs = enumerate (Suc k) (drop (Suc k) xs))"
proof
  assume e: "enumerate 0 xs = ys @ x # zs"
  let ?k = "length ys"
  have k: "?k < length xs" using arg_cong [OF e, of length] by simp
  have "enumerate 0 xs = enumerate 0 (take ?k xs) @ (?k, xs ! ?k) # enumerate (Suc ?k) (drop (Suc ?k) xs)"
    using k enumerate_append_eq [of 0 "take ?k xs" "drop ?k xs"]
    by (simp add: Cons_nth_drop_Suc [symmetric] id_take_nth_drop [symmetric])
  with e k show "\<exists>k < length xs. ys = enumerate 0 (take k xs) \<and> x = (k, xs ! k) \<and> zs = enumerate (Suc k) (drop (Suc k) xs)"
    by (intro exI [of _ ?k]) (simp add: append_eq_append_conv)
next
  assume "\<exists>k < length xs. ys = enumerate 0 (take k xs) \<and> x = (k, xs ! k) \<and> zs = enumerate (Suc k) (drop (Suc k) xs)"
  then obtain k where "k < length xs" "ys = enumerate 0 (take k xs)" "x = (k, xs ! k)" "zs = enumerate (Suc k) (drop (Suc k) xs)" by blast
  then show "enumerate 0 xs = ys @ x # zs"
    using enumerate_append_eq [of 0 "take k xs" "drop k xs"]
    by (simp add: Cons_nth_drop_Suc [symmetric] id_take_nth_drop [symmetric])
qed

lemma annotation_error_panic:
  assumes "ns_ips n = Some v" "\<forall>c \<in> set (rc_CIDRs rc). map_of (rc_NetCIDRByCIDR rc) c \<noteq> None"
  shows "annotation_error rc n = Some (GoPanic m) \<longleftrightarrow> m = ''index out of range'' \<and>
    length (split_on (CHR '','') v) < length (rc_CIDRs rc) \<and> in_place rc (split_on (CHR '','') v) (length (split_on (CHR '','') v))"
proof -
  let ?ips = "split_on (CHR '','') v"
  note L = go_for_stateless(1) [where f = "sort_assigned rc n ?ips" and xs = "enumerate 0 (rc_CIDRs rc)" and s = "[]"
      and err = "place_error rc n ?ips", OF place_error_sort]
  have "annotation_error rc n = Some (GoPanic m) \<longleftrightarrow> (\<exists>ys x zs. enumerate 0 (rc_CIDRs rc) = ys @ x # zs \<and>
      (\<forall>y \<in> set ys. place_error rc n ?ips y = None) \<and> place_error rc n ?ips x = Some (GoPanic m))"
    unfolding L [symmetric] by (auto simp: annotation_error_def assms(1) split: sum.splits)
  also have "\<dots> \<longleftrightarrow> (\<exists>k < length (rc_CIDRs rc). (\<forall>y \<in> set (enumerate 0 (take k (rc_CIDRs rc))). place_error rc n ?ips y = None) \<and>
      place_error rc n ?ips (k, rc_CIDRs rc ! k) = Some (GoPanic m))" unfolding enumerate_split by blast
  also have "\<dots> \<longleftrightarrow> (\<exists>k < length (rc_CIDRs rc). (\<forall>i < k. place_error rc n ?ips (i, rc_CIDRs rc ! i) = None) \<and>
      length ?ips \<le> k \<and> m = ''index out of range'')"
    using assms(2) by (auto simp: enumerate_mem place_error_panic)
  also have "\<dots> \<longleftrightarrow> m = ''index out of range'' \<and> length ?ips < length (rc_CIDRs rc) \<and> in_place rc ?ips (length ?ips)"
    unfolding place_error_None in_place_def all_less_and by (auto dest: le_antisym)
  finally show ?thesis .
qed

lemma removeNamespaceAssignedIPs_run:
  assumes "schedule_laws E" "multierror_laws E"
  shows "\<exists>r h'. removeNamespaceAssignedIPs E rc h = (r, h @ h') \<and>
    mset (calls h') = mset (map (\<lambda>n. UpdateNamespace (without_ips n)) (rc_InitiallyAssignedNamespaces rc)) \<and>
    (r = Inr () \<longleftrightarrow> (\<forall>(c, q) \<in> set h'. q = None))"
proof -
  let ?p = "\<lambda>n. Inr (Some (UpdateNamespace (without_ips n)))"
  have "concat (map (planned ?p) ns) = map (\<lambda>n. UpdateNamespace (without_ips n)) ns" for ns
    by (induction ns) (simp_all add: planned_def)
  then show ?thesis
    using perform_follow [of E "\<lambda>n. UpdateNamespace (without_ips n)"] go_all_plan [OF assms, where f = "\<lambda>n. perform E (UpdateNamespace (without_ips n))" and p = ?p
        and xs = "rc_InitiallyAssignedNamespaces rc" and l = 123 and h = h]
    by (simp add: removeNamespaceAssignedIPs_def)
qed

lemma without_ips_annotations:
  "ns_ips (without_ips n) = None" "ns_egressipam (without_ips n) = ns_egressipam n" "ns_name (without_ips n) = ns_name n"
  by (simp_all add: without_ips_def ns_ips_def ns_egressipam_def getAnnotation_delete)

section \<open>Properties\<close>

text \<open>
  \<open>getReferringNamespaces\<close> on a list of namespaces (whose names are distinct, as the API
  server guarantees): the referring namespaces are those that name the EgressIPAM, by name;
  they are split, in the order of the list, into those that hold addresses and those that
  do not, and no namespace is in both or missing.
\<close>

lemma getReferringNamespaces_partition:
  assumes "list_namespaces E h = Inr items" "distinct (map ns_name items)"
  shows "\<exists>referring unassigned assigned.
    getReferringNamespaces E rc h = Inr (referring, unassigned, assigned) \<and>
    (\<forall>k n. map_of referring k = Some n \<longleftrightarrow>
       n \<in> set items \<and> ns_name n = k \<and> ns_egressipam n = Some (ei_name (rc_EgressIPAM rc))) \<and>
    unassigned = filter (\<lambda>n. ns_egressipam n = Some (ei_name (rc_EgressIPAM rc)) \<and> ns_ips n = None) items \<and>
    assigned = filter (\<lambda>n. ns_egressipam n = Some (ei_name (rc_EgressIPAM rc)) \<and> ns_ips n \<noteq> None) items"
proof -
  let ?sel = "filter (\<lambda>n. ns_egressipam n = Some (ei_name (rc_EgressIPAM rc))) items"
  let ?ref = "fold (\<lambda>n. gm_put (ns_name n) n) ?sel []"
  have d: "distinct (map ns_name ?sel)" using assms(2) by (simp add: distinct_map_filter)
  have ref: "map_of ?ref k = Some n \<longleftrightarrow>
      n \<in> set items \<and> ns_name n = k \<and> ns_egressipam n = Some (ei_name (rc_EgressIPAM rc))" for k n
  proof (cases "k \<in> ns_name ` set ?sel")
    case True
    then obtain n' where n': "n' \<in> set ?sel" "k = ns_name n'" by auto
    then have "map_of ?ref k = Some n'" using fold_put_by_name_Some [OF d] by blast
    then show ?thesis using n' assms(2) by (auto simp: distinct_map inj_on_def)
  next
    case False
    then have "map_of ?ref k = None" using fold_put_by_name_other [OF False, of "[]"] by simp
    with False show ?thesis by auto
  qed
  then show ?thesis by (simp add: getReferringNamespaces_def assms(1) fold_sort_namespace)
qed

text \<open>
  C34. \<open>sortIPsByCIDR\<close> loses and invents nothing: when it returns, the list of a CIDR holds
  exactly the addresses that the assigned namespaces have at the place of that CIDR in their
  annotation, and each of them lies in the network of the CIDR.
\<close>

theorem sortIPsByCIDR_exact:
  assumes "sortIPsByCIDR rc = Inr m" "\<forall>n \<in> set (rc_InitiallyAssignedNamespaces rc). ns_ips n \<noteq> None"
  shows "fst ` set m = set (rc_CIDRs rc) \<and>
    (\<forall>c. set (gm_get [] m c) = {a. \<exists>n \<in> set (rc_InitiallyAssignedNamespaces rc). \<exists>i < length (rc_CIDRs rc).
       rc_CIDRs rc ! i = c \<and> a = ParseIP (split_on (CHR '','') (the (ns_ips n)) ! i)}) \<and>
    (\<forall>c. \<forall>a \<in> set (gm_get [] m c). \<exists>net. map_of (rc_NetCIDRByCIDR rc) c = Some net \<and> net_contains net a)"
proof -
  note ok = sortIPsByCIDR_ok [OF assms(1), unfolded sorted_ips_ok_def sorted_ip_ok_def]
  have "a \<in> set (gm_get [] m c) \<longleftrightarrow> (\<exists>n \<in> set (rc_InitiallyAssignedNamespaces rc). \<exists>i < length (rc_CIDRs rc).
       rc_CIDRs rc ! i = c \<and> a = ParseIP (split_on (CHR '','') (the (ns_ips n)) ! i))" for a c
  proof
    assume "a \<in> set (gm_get [] m c)"
    with ok obtain n v i where "n \<in> set (rc_InitiallyAssignedNamespaces rc)" "ns_ips n = Some v"
      "i < length (rc_CIDRs rc)" "rc_CIDRs rc ! i = c" "a = ParseIP (split_on (CHR '','') v ! i)" by blast
    then show "\<exists>n \<in> set (rc_InitiallyAssignedNamespaces rc). \<exists>i < length (rc_CIDRs rc).
       rc_CIDRs rc ! i = c \<and> a = ParseIP (split_on (CHR '','') (the (ns_ips n)) ! i)" by force
  next
    assume "\<exists>n \<in> set (rc_InitiallyAssignedNamespaces rc). \<exists>i < length (rc_CIDRs rc).
       rc_CIDRs rc ! i = c \<and> a = ParseIP (split_on (CHR '','') (the (ns_ips n)) ! i)"
    then obtain n i where n: "n \<in> set (rc_InitiallyAssignedNamespaces rc)" "i < length (rc_CIDRs rc)" "rc_CIDRs rc ! i = c"
      "a = ParseIP (split_on (CHR '','') (the (ns_ips n)) ! i)" by blast
    from n(1) assms(2) obtain v where v: "ns_ips n = Some v" by blast
    show "a \<in> set (gm_get [] m c)" using sortIPsByCIDR_complete(2) [OF assms(1) n(1) v n(2)] n(3,4) v by simp
  qed
  with ok show ?thesis by blast
qed

text \<open>
  C35. The comment of \<open>sortIPsByCIDR\<close> expects one address per CIDR in every annotation, and
  nothing checks it beforehand. For a context with a network for every CIDR: it returns exactly
  when every annotation has an address for every CIDR, in its network (further addresses are
  ignored); and it panics, with an index out of range, exactly when the first namespace whose
  annotation is not of that kind has addresses that all lie in the networks of the first CIDRs
  but fewer of them than there are CIDRs. In all other cases (an address that does not parse,
  the empty annotation included, or that lies outside its CIDR comes first) it returns an error.
\<close>

theorem sortIPsByCIDR_outcomes:
  assumes "\<forall>c \<in> set (rc_CIDRs rc). map_of (rc_NetCIDRByCIDR rc) c \<noteq> None"
    and "\<forall>n \<in> set (rc_InitiallyAssignedNamespaces rc). ns_ips n \<noteq> None"
  shows "((\<exists>m. sortIPsByCIDR rc = Inr m) \<longleftrightarrow> (\<forall>n \<in> set (rc_InitiallyAssignedNamespaces rc).
      in_place rc (split_on (CHR '','') (the (ns_ips n))) (length (rc_CIDRs rc)))) \<and>
    (sortIPsByCIDR rc = Inl (GoPanic m) \<longleftrightarrow> m = ''index out of range'' \<and>
      (\<exists>ns n ns'. rc_InitiallyAssignedNamespaces rc = ns @ n # ns' \<and>
        (\<forall>n' \<in> set ns. in_place rc (split_on (CHR '','') (the (ns_ips n'))) (length (rc_CIDRs rc))) \<and>
        length (split_on (CHR '','') (the (ns_ips n))) < length (rc_CIDRs rc) \<and>
        in_place rc (split_on (CHR '','') (the (ns_ips n))) (length (split_on (CHR '','') (the (ns_ips n))))))"
proof
  note L = go_for_stateless [where xs = "rc_InitiallyAssignedNamespaces rc" and err = "annotation_error rc" and s = "empty_by_cidr (rc_CIDRs rc)",
      OF annotation_error_sort]
  have none: "annotation_error rc n = None \<longleftrightarrow> in_place rc (split_on (CHR '','') (the (ns_ips n))) (length (rc_CIDRs rc))"
    if "n \<in> set (rc_InitiallyAssignedNamespaces rc)" for n
    using assms(2) that annotation_error_None [of n _ rc] by fastforce
  have panic: "annotation_error rc n = Some (GoPanic m) \<longleftrightarrow> m = ''index out of range'' \<and>
      length (split_on (CHR '','') (the (ns_ips n))) < length (rc_CIDRs rc) \<and>
      in_place rc (split_on (CHR '','') (the (ns_ips n))) (length (split_on (CHR '','') (the (ns_ips n))))"
    if "n \<in> set (rc_InitiallyAssignedNamespaces rc)" for n
    using assms(2) that annotation_error_panic [OF _ assms(1), of n] by fastforce
  show "(\<exists>m. sortIPsByCIDR rc = Inr m) \<longleftrightarrow> (\<forall>n \<in> set (rc_InitiallyAssignedNamespaces rc).
      in_place rc (split_on (CHR '','') (the (ns_ips n))) (length (rc_CIDRs rc)))"
    unfolding sortIPsByCIDR_def L(2) by (rule ball_cong [OF refl none])
  show "sortIPsByCIDR rc = Inl (GoPanic m) \<longleftrightarrow> m = ''index out of range'' \<and>
      (\<exists>ns n ns'. rc_InitiallyAssignedNamespaces rc = ns @ n # ns' \<and>
        (\<forall>n' \<in> set ns. in_place rc (split_on (CHR '','') (the (ns_ips n'))) (length (rc_CIDRs rc))) \<and>
        length (split_on (CHR '','') (the (ns_ips n))) < length (rc_CIDRs rc) \<and>
        in_place rc (split_on (CHR '','') (the (ns_ips n))) (length (split_on (CHR '','') (the (ns_ips n)))))" (is "_ \<longleftrightarrow> ?panic")
    unfolding sortIPsByCIDR_def L(1)
  proof (intro iffI; elim conjE exE)
    fix ns n ns' assume split: "rc_InitiallyAssignedNamespaces rc = ns @ n # ns'"
      and err: "\<forall>n' \<in> set ns. annotation_error rc n' = None" "annotation_error rc n = Some (GoPanic m)"
    from split have mem: "n \<in> set (rc_InitiallyAssignedNamespaces rc)" "set ns \<subseteq> set (rc_InitiallyAssignedNamespaces rc)" by auto
    have "\<forall>n' \<in> set ns. in_place rc (split_on (CHR '','') (the (ns_ips n'))) (length (rc_CIDRs rc))"
      using none mem(2) err(1) by blast
    with split err(2) [unfolded panic [OF mem(1)]] show "?panic" by blast
  next
    fix ns n ns' assume split: "rc_InitiallyAssignedNamespaces rc = ns @ n # ns'" and m: "m = ''index out of range''"
      and "\<forall>n' \<in> set ns. in_place rc (split_on (CHR '','') (the (ns_ips n'))) (length (rc_CIDRs rc))"
        "length (split_on (CHR '','') (the (ns_ips n))) < length (rc_CIDRs rc)"
        "in_place rc (split_on (CHR '','') (the (ns_ips n))) (length (split_on (CHR '','') (the (ns_ips n))))"
    moreover from split have "n \<in> set (rc_InitiallyAssignedNamespaces rc)" "set ns \<subseteq> set (rc_InitiallyAssignedNamespaces rc)" by auto
    ultimately show "\<exists>ns n ns'. rc_InitiallyAssignedNamespaces rc = ns @ n # ns' \<and>
        (\<forall>n' \<in> set ns. annotation_error rc n' = None) \<and> annotation_error rc n = Some (GoPanic m)"
      using none panic by (intro exI [of _ ns] exI [of _ n] exI [of _ ns'] conjI) blast+
  qed
qed

section \<open>Witnesses\<close>

theorem sortIPsByCIDR_exact_witness:
  "\<exists>m. sortIPsByCIDR example_rc = Inr m \<and> fst ` set m = {''10.0.0.0/29'', ''10.0.1.0/29''} \<and>
     IPv4 0x0A000102 \<in> set (gm_get [] m ''10.0.1.0/29'')"
proof -
  let ?m = "[(''10.0.0.0/29'', [IPv4 0x0A000002]), (''10.0.1.0/29'', [IPv4 0x0A000102])]"
  have m: "sortIPsByCIDR example_rc = Inr ?m" "\<forall>n \<in> set (rc_InitiallyAssignedNamespaces example_rc). ns_ips n \<noteq> None"
    "set (rc_CIDRs example_rc) = {''10.0.0.0/29'', ''10.0.1.0/29''}" "IPv4 0x0A000102 \<in> set (gm_get [] ?m ''10.0.1.0/29'')"
    by code_simp+
  have "fst ` set ?m = set (rc_CIDRs example_rc)" using sortIPsByCIDR_exact [OF m(1,2)] by (rule conjunct1)
  with m show ?thesis by (intro exI [of _ ?m] conjI) (simp_all only:)
qed

theorem sortIPsByCIDR_outcomes_witness:
  "sortIPsByCIDR (example_rc\<lparr>rc_InitiallyAssignedNamespaces := [example_ns ''ns1'' (Some ''10.0.0.2'')]\<rparr>) =
     Inl (GoPanic ''index out of range'') \<and>
   (\<nexists>m. sortIPsByCIDR (example_rc\<lparr>rc_InitiallyAssignedNamespaces := [example_ns ''ns1'' (Some '''')]\<rparr>) = Inl (GoPanic m))"
proof -
  let ?rc = "\<lambda>v. example_rc\<lparr>rc_InitiallyAssignedNamespaces := [example_ns ''ns1'' (Some v)]\<rparr>"
  have ips: "split_on (CHR '','') ''10.0.0.2'' = [''10.0.0.2'']" "split_on (CHR '','') '''' = ['''']" by code_simp+
  have all: "\<forall>c \<in> set (rc_CIDRs example_rc). map_of (rc_NetCIDRByCIDR example_rc) c \<noteq> None" by code_simp
  have nets: "\<forall>c \<in> set (rc_CIDRs (?rc v)). map_of (rc_NetCIDRByCIDR (?rc v)) c \<noteq> None" for v
    using all by simp
  have some: "\<forall>n \<in> set (rc_InitiallyAssignedNamespaces (?rc v)). ns_ips n \<noteq> None" "ns_ips (example_ns ''ns1'' (Some v)) = Some v" for v
    by (simp_all add: example_ns_def ns_ips_def getAnnotation_def NamespaceAnnotation_def NamespaceAssociationAnnotation_def)
  have "map_of (rc_NetCIDRByCIDR example_rc) (rc_CIDRs example_rc ! 0) = Some (Net4 0x0A000000 29) \<and>
      net_contains (Net4 0x0A000000 29) (ParseIP ''10.0.0.2'')" "length (rc_CIDRs example_rc) = 2" "ParseIP '''' = NilIP" by code_simp+
  then have "in_place (?rc ''10.0.0.2'') [''10.0.0.2''] 1" "\<not> in_place (?rc '''') [''''] 1" "1 < length (rc_CIDRs (?rc v))" for v
    by (simp_all add: in_place_def del: net_contains.simps)
  then show ?thesis
    using sortIPsByCIDR_outcomes [OF nets some(1), of "''10.0.0.2''" "''index out of range''"]
      sortIPsByCIDR_outcomes [OF nets some(1), of "''''"]
    by (auto simp: some(2) ips Cons_eq_append_conv)
qed

end
