(* ===== verification/Nodes.thy ===== *)
theory Nodes
  imports Namespaces
begin

text \<open>
  \<open>controllers/egressipam/node.go\<close>: which EgressIPAM a node belongs to and the watch handler
  of nodes, the selected nodes, the addresses the ready nodes carry, and the host addresses
  of the nodes by CIDR.
\<close>

section \<open>Conditions, labels and the watch handler\<close>

fun isCondition :: "(string \<times> string) list \<Rightarrow> string \<Rightarrow> string \<Rightarrow> bool" where
  "isCondition [] conditionType conditionStatus = False"
| "isCondition (c # cs) conditionType conditionStatus =
     (if conditionType = fst c \<and> conditionStatus = snd c then True
      else isCondition cs conditionType conditionStatus)"

definition is_ready :: "node \<Rightarrow> bool" where
  "is_ready n = isCondition (node_conditions n) ''Ready'' ''True''"

lemma isCondition_iff: "isCondition cs t s \<longleftrightarrow> (t, s) \<in> set cs"
  by (induction cs) auto

fun first_assignment :: "string \<Rightarrow> CIDRAssignment list \<Rightarrow> bool \<times> string" where
  "first_assignment value [] = (False, '''')"
| "first_assignment value (a # as) =
     (if value = LabelValue a then (True, CIDR a) else first_assignment value as)"

definition matchesNode :: "EgressIPAM \<Rightarrow> node \<Rightarrow> bool \<times> string" where
  "matchesNode x n =
     (case map_of (node_labels n) (TopologyLabel x) of
        None \<Rightarrow> (False, '''')
      | Some value \<Rightarrow> first_assignment value (CIDRAssignments x))"

definition getAllEgressIPAM :: "goenv \<Rightarrow> history \<Rightarrow> err + EgressIPAM list" where
  "getAllEgressIPAM E h = list_egressipams E h"

definition enqueue_matching ::
  "goenv \<Rightarrow> (EgressIPAM \<Rightarrow> bool \<times> string) \<Rightarrow> history \<Rightarrow> string list" where
  "enqueue_matching E matches h =
     (case getAllEgressIPAM E h of
        Inl e \<Rightarrow> []
      | Inr xs \<Rightarrow> map ei_name (filter (\<lambda>x. fst (matches x)) xs))"

definition Node_Create :: "goenv \<Rightarrow> kobject \<Rightarrow> history \<Rightarrow> string list" where
  "Node_Create E obj h =
     (case obj of KNode n \<Rightarrow> enqueue_matching E (\<lambda>x. matchesNode x n) h | _ \<Rightarrow> [])"

definition Node_Update :: "goenv \<Rightarrow> kobject \<Rightarrow> kobject \<Rightarrow> history \<Rightarrow> string list" where
  "Node_Update E old new h =
     (case new of KNode n \<Rightarrow> enqueue_matching E (\<lambda>x. matchesNode x n) h | _ \<Rightarrow> [])"

section \<open>Selecting nodes\<close>

definition getAllNodes :: "goenv \<Rightarrow> history \<Rightarrow> err + (string, node) gomap" where
  "getAllNodes E h =
     (case list_nodes E h of
        Inl e \<Rightarrow> Inl e
      | Inr items \<Rightarrow> Inr (fold (\<lambda>n. gm_put (node_name n) n) items []))"

definition getSelectedNodes :: "goenv \<Rightarrow> rcontext \<Rightarrow> err + (string, node) gomap" where
  "getSelectedNodes E rc =
     (case selector_of E (NodeSelector (rc_EgressIPAM rc)) of
        Inl e \<Rightarrow> Inl e
      | Inr matches \<Rightarrow> Inr (filter (\<lambda>(nodename, n). matches (node_labels n)) (rc_AllNodes rc)))"

definition getAssignedIPsByNode :: "rcontext \<Rightarrow> (string, string list) gomap" where
  "getAssignedIPsByNode rc =
     gm_filter_map (\<lambda>name hs.
       (case map_of (rc_AllNodes rc) name of
          Some n \<Rightarrow> if is_ready n then Some (slice_elems (hs_egressIPs hs)) else None
        | None \<Rightarrow> None)) (rc_SelectedHostSubnets rc)"

definition getNodeNames :: "(string, node) gomap \<Rightarrow> string list" where
  "getNodeNames nodes = map (\<lambda>(k, n). node_name n) nodes"

section \<open>Host addresses by CIDR\<close>

definition record_host_ip ::
  "rcontext \<Rightarrow> ip \<Rightarrow> string \<Rightarrow> (string, ip list) gomap \<Rightarrow> err + (string, ip list) gomap" where
  "record_host_ip rc a cidr m =
     (case map_of (rc_NetCIDRByCIDR rc) cidr of
        None \<Rightarrow> Inl (GoPanic ''nil pointer dereference'')
      | Some net \<Rightarrow>
          Inr (if net_contains net a then gm_put cidr (gm_get [] m cidr @ [a]) m else m))"

definition getNodesIPsByCIDR :: "goenv \<Rightarrow> rcontext \<Rightarrow> err + (string, ip list) gomap" where
  "getNodesIPsByCIDR E rc =
     go_for (\<lambda>nodename m.
       (case map_of (rc_AllHostSubnets rc) nodename of
          None \<Rightarrow> Inl (ErrNew (''unable to find hostsubnet for node:'' @ nodename))
        | Some hs \<Rightarrow> go_for (record_host_ip rc (ParseIP (hs_hostIP hs))) (rc_CIDRs rc) m))
       (range_order E 139 (gm_keys (rc_AllNodes rc))) []"

section \<open>What the operations guarantee\<close>

lemma first_assignment_fst: "fst (first_assignment v as) \<longleftrightarrow> v \<in> LabelValue ` set as"
  by (induction as) auto

lemma matchesNode_iff:
  "fst (matchesNode x n) \<longleftrightarrow>
     (\<exists>v. map_of (node_labels n) (TopologyLabel x) = Some v \<and> v \<in> LabelValue ` set (CIDRAssignments x))"
  by (simp add: matchesNode_def first_assignment_fst split: option.splits)

lemma set_enqueue_matching:
  "getAllEgressIPAM E h = Inr xs \<Longrightarrow>
   set (enqueue_matching E f h) = ei_name ` {x \<in> set xs. fst (f x)}"
  by (auto simp: enqueue_matching_def)

lemma getAssignedIPsByNode_get:
  assumes "distinct (gm_keys (rc_SelectedHostSubnets rc))"
  shows "map_of (getAssignedIPsByNode rc) name =
     (case (map_of (rc_SelectedHostSubnets rc) name, map_of (rc_AllNodes rc) name) of
        (Some hs, Some n) \<Rightarrow> if is_ready n then Some (slice_elems (hs_egressIPs hs)) else None
      | _ \<Rightarrow> None)"
  using assms by (auto simp: getAssignedIPsByNode_def map_of_gm_filter_map split: option.splits)

text \<open>Every host address that lies in the network of a CIDR is listed under it, and no other.\<close>

lemma record_host_ip_Inr:
  assumes "record_host_ip rc a c0 m = Inr m'"
  shows "set (gm_get [] m c) \<subseteq> set (gm_get [] m' c)"
    and "b \<in> set (gm_get [] m' c) \<Longrightarrow> b \<in> set (gm_get [] m c) \<or>
      b = a \<and> (\<exists>net. map_of (rc_NetCIDRByCIDR rc) c = Some net \<and> net_contains net a)"
    and "map_of (rc_NetCIDRByCIDR rc) c0 = Some net \<Longrightarrow> net_contains net a \<Longrightarrow> a \<in> set (gm_get [] m' c0)"
  using assms by (auto simp: record_host_ip_def gm_get_put split: option.splits if_splits)

lemma record_host_ip_loop:
  assumes "go_for (record_host_ip rc a) cidrs m = Inr m'"
  shows "(\<forall>c. set (gm_get [] m c) \<subseteq> set (gm_get [] m' c)) \<and>
    (\<forall>c. \<forall>b \<in> set (gm_get [] m' c). b \<in> set (gm_get [] m c) \<or>
      b = a \<and> (\<exists>net. map_of (rc_NetCIDRByCIDR rc) c = Some net \<and> net_contains net a)) \<and>
    (\<forall>c \<in> set cidrs. \<forall>net. map_of (rc_NetCIDRByCIDR rc) c = Some net \<longrightarrow> net_contains net a \<longrightarrow>
      a \<in> set (gm_get [] m' c))"
  using assms
proof (induction cidrs arbitrary: m)
  case Nil
  then show ?case by simp
next
  case (Cons c0 cidrs)
  then obtain s where step: "record_host_ip rc a c0 m = Inr s"
    and rest: "go_for (record_host_ip rc a) cidrs s = Inr m'"
    by (auto split: sum.splits)
  note ih = Cons.IH [OF rest]
  note st = record_host_ip_Inr [OF step]
  have "set (gm_get [] m c) \<subseteq> set (gm_get [] m' c)" for c using st(1) ih by blast
  moreover have "b \<in> set (gm_get [] m c) \<or>
      b = a \<and> (\<exists>net. map_of (rc_NetCIDRByCIDR rc) c = Some net \<and> net_contains net a)"
    if "b \<in> set (gm_get [] m' c)" for b c
    using st(2) ih that by blast
  moreover have "a \<in> set (gm_get [] m' c)"
    if "c \<in> set (c0 # cidrs)" "map_of (rc_NetCIDRByCIDR rc) c = Some net" "net_contains net a" for c net
    using st(3) ih that by (cases "c = c0") auto
  ultimately show ?case by blast
qed

definition host_ip_of :: "rcontext \<Rightarrow> string \<Rightarrow> ip" where
  "host_ip_of rc nodename =
     (case map_of (rc_AllHostSubnets rc) nodename of None \<Rightarrow> NilIP | Some hs \<Rightarrow> ParseIP (hs_hostIP hs))"

lemma getNodesIPsByCIDR_loop:
  assumes "getNodesIPsByCIDR E rc = Inr m"
  shows "\<And>c a. a \<in> set (gm_get [] m c) \<Longrightarrow>
      \<exists>net. map_of (rc_NetCIDRByCIDR rc) c = Some net \<and> net_contains net a"
    and "\<And>c name net. name \<in> set (range_order E 139 (gm_keys (rc_AllNodes rc))) \<Longrightarrow> c \<in> set (rc_CIDRs rc) \<Longrightarrow>
      map_of (rc_NetCIDRByCIDR rc) c = Some net \<Longrightarrow> net_contains net (host_ip_of rc name) \<Longrightarrow>
      host_ip_of rc name \<in> set (gm_get [] m c)"
proof -
  let ?sound = "\<lambda>s. \<forall>c. \<forall>a \<in> set (gm_get [] s c).
    \<exists>net. map_of (rc_NetCIDRByCIDR rc) c = Some net \<and> net_contains net a"
  let ?compl = "\<lambda>ys s. \<forall>name \<in> set ys. \<forall>c \<in> set (rc_CIDRs rc). \<forall>net.
    map_of (rc_NetCIDRByCIDR rc) c = Some net \<longrightarrow> net_contains net (host_ip_of rc name) \<longrightarrow>
    host_ip_of rc name \<in> set (gm_get [] s c)"
  have "?sound m \<and> ?compl (range_order E 139 (gm_keys (rc_AllNodes rc))) m"
  proof (rule go_for_inv_prefix [OF assms [unfolded getNodesIPsByCIDR_def],
        where I = "\<lambda>ys s. ?sound s \<and> ?compl ys s"])
    fix ys name zs s s'
    assume s: "?sound s \<and> ?compl ys s"
      and step: "(case map_of (rc_AllHostSubnets rc) name of
          None \<Rightarrow> Inl (ErrNew (''unable to find hostsubnet for node:'' @ name))
        | Some hs \<Rightarrow> go_for (record_host_ip rc (ParseIP (hs_hostIP hs))) (rc_CIDRs rc) s) = Inr s'"
    then have loop: "go_for (record_host_ip rc (host_ip_of rc name)) (rc_CIDRs rc) s = Inr s'"
      by (simp add: host_ip_of_def split: option.splits)
    note facts = record_host_ip_loop [OF loop]
    have "?sound s'" using facts s by blast
    moreover have "?compl ys s'" using facts s by blast
    moreover have "?compl [name] s'" using facts by simp
    ultimately show "?sound s' \<and> ?compl (ys @ [name]) s'" by simp
  qed simp
  then show "\<And>c a. a \<in> set (gm_get [] m c) \<Longrightarrow>
      \<exists>net. map_of (rc_NetCIDRByCIDR rc) c = Some net \<and> net_contains net a"
    and "\<And>c name net. name \<in> set (range_order E 139 (gm_keys (rc_AllNodes rc))) \<Longrightarrow> c \<in> set (rc_CIDRs rc) \<Longrightarrow>
      map_of (rc_NetCIDRByCIDR rc) c = Some net \<Longrightarrow> net_contains net (host_ip_of rc name) \<Longrightarrow>
      host_ip_of rc name \<in> set (gm_get [] m c)"
    by blast+
qed

end
