(* ===== verification/BareMetal.thy ===== *)
theory BareMetal
  imports Nodes
begin

text \<open>
  The contract of the interface \<open>reconcilecontext.Infra\<close> on which the reconciler relies, and
  the platform of \<open>controllers/egressipam/baremetal/baremetal.go\<close>, which meets it.
\<close>

section \<open>The contract of a platform\<close>

definition in_cidr :: "string \<Rightarrow> ip \<Rightarrow> bool" where
  "in_cidr c a \<longleftrightarrow> (case ParseCIDR c of Inl e \<Rightarrow> False | Inr (base, net) \<Rightarrow> net_contains net a)"

definition used_ips_ok :: "string list \<Rightarrow> (string, ip list) gomap \<Rightarrow> bool" where
  "used_ips_ok cidrs used \<longleftrightarrow> (\<forall>c \<in> set cidrs. \<forall>a \<in> set (gm_get [] used c). in_cidr c a)"

text \<open>The networks of the context are those of its CIDRs.\<close>

definition nets_ok :: "rcontext \<Rightarrow> bool" where
  "nets_ok rc \<longleftrightarrow> (\<forall>c \<in> set (rc_CIDRs rc). \<exists>base net.
     ParseCIDR c = Inr (base, net) \<and> map_of (rc_NetCIDRByCIDR rc) c = Some net)"

text \<open>
  \<open>assured\<close> says for which CIDRs a platform promises what its operations return (every platform
  restricts the networks it supports); which calls it makes is promised for all.
\<close>

locale infra_contract =
  fixes assured :: "string list \<Rightarrow> bool" and infra :: infra
  assumes used_ips: "assured (rc_CIDRs rc) \<Longrightarrow> nets_ok rc \<Longrightarrow> GetUsedIPsByCIDR infra rc h = (Inr used, h1) \<Longrightarrow> used_ips_ok (rc_CIDRs rc) used"
    and used_ips_reads: "GetUsedIPsByCIDR infra rc h = (r, h1) \<Longrightarrow> h1 = h"
    and secondary_cloud: "ReconcileInstanceSecondaryIPs infra rc h = (r1, h1) \<Longrightarrow> emits is_cloud_call h h1"
    and secondary_ok: "assured (rc_CIDRs rc) \<Longrightarrow> ReconcileInstanceSecondaryIPs infra rc h = (Inr u, h @ h1) \<Longrightarrow> \<forall>(c, q) \<in> set h1. q = None"
    and remove_ok: "assured (rc_CIDRs rc) \<Longrightarrow> RemoveAllAssignedIPs infra rc h = (Inr u, h @ h1) \<Longrightarrow> \<forall>(c, q) \<in> set h1. q = None"
    and remove_cloud: "RemoveAllAssignedIPs infra rc h = (r1, h1) \<Longrightarrow> emits is_cloud_call h h1"
    and capacity_reads: "GetIPCapacity infra n h = (r2, h1) \<Longrightarrow> h1 = h"

section \<open>Bare metal\<close>

definition GetSelectedInstances_BM :: "rcontext \<Rightarrow> err + (string, unit) gomap" where
  "GetSelectedInstances_BM rc = Inr []"

definition GetUsedIPsByCIDR_BM :: "rcontext \<Rightarrow> (history, (string, ip list) gomap) action" where
  "GetUsedIPsByCIDR_BM rc h = (Inr (fold (\<lambda>cidr. gm_put cidr []) (rc_CIDRs rc) []), h)"

definition ReconcileInstanceSecondaryIPs_BM :: "rcontext \<Rightarrow> (history, unit) action" where
  "ReconcileInstanceSecondaryIPs_BM rc h = (Inr (), h)"

definition RemoveAllAssignedIPs_BM :: "rcontext \<Rightarrow> (history, unit) action" where
  "RemoveAllAssignedIPs_BM rc h = (Inr (), h)"

definition GetIPCapacity_BM :: "node \<Rightarrow> (history, 32 word) action" where
  "GetIPCapacity_BM n h = (Inr 4294967295, h)"

definition BareMetalInfra :: infra where
  "BareMetalInfra = \<lparr>GetUsedIPsByCIDR = GetUsedIPsByCIDR_BM,
     ReconcileInstanceSecondaryIPs = ReconcileInstanceSecondaryIPs_BM,
     RemoveAllAssignedIPs = RemoveAllAssignedIPs_BM, GetIPCapacity = GetIPCapacity_BM\<rparr>"

lemma BareMetal_used [simp]:
  "GetUsedIPsByCIDR BareMetalInfra rc h = (Inr (fold (\<lambda>cidr. gm_put cidr []) (rc_CIDRs rc) []), h)"
  by (simp add: BareMetalInfra_def GetUsedIPsByCIDR_BM_def)

interpretation bare_metal: infra_contract "\<lambda>cidrs. True" BareMetalInfra
  by unfold_locales
    (auto simp: BareMetalInfra_def GetUsedIPsByCIDR_BM_def ReconcileInstanceSecondaryIPs_BM_def
      RemoveAllAssignedIPs_BM_def GetIPCapacity_BM_def used_ips_ok_def gm_get_fold_put)

end
