(* ===== verification/Allocation.thy ===== *)
theory Allocation
  imports BareMetal
begin

text \<open>
  \<open>controllers/egressipam/ipam.go\<close>, lines 18 to 174: how an address of every CIDR is chosen
  for each namespace that has none. The addresses in use (held by namespaces, the base and
  broadcast address, reserved ones, the nodes' and the cloud's) are collected by CIDR,
  freed of duplicates and sorted; the next address of a CIDR is then the first offset from
  the network address at which the sorted list has another address.
\<close>

section \<open>Operations\<close>

definition sortIPs :: "goenv \<Rightarrow> ip list \<Rightarrow> ip list" where
  "sortIPs E ips = map (from_uint32 E) (sort (u32_list E (map (to_uint32 E) ips)))"

definition removeDuplicates :: "goenv \<Rightarrow> (string, ip list) gomap \<Rightarrow> (string, ip list) gomap" where
  "removeDuplicates E m =
     fold (\<lambda>cidr. gm_put cidr (map ParseIP (str_list E (map IP_String (gm_get [] m cidr)))))
       (range_order E 102 (gm_keys m)) []"

definition getNextAvailableIP :: "goenv \<Rightarrow> string \<Rightarrow> ip list \<Rightarrow> err + ip \<times> ip list" where
  "getNextAvailableIP E cidrs assignedIPs =
     (case ParseCIDR cidrs of
        Inl e \<Rightarrow> Inl e
      | Inr (_, cidr) \<Rightarrow>
          if word_of_int (int (length assignedIPs)) = network_size E cidr then
            Inl (ErrNew (''no more available IPs in this CIDR: '' @ net_String cidr))
          else
            (case find (\<lambda>i. assignedIPs ! i \<noteq> delta_ip E (net_IP cidr) (int i)) [0..<length assignedIPs] of
               None \<Rightarrow> Inl (ErrNew ''we should never get here'')
             | Some i \<Rightarrow>
                 let assignedIP = delta_ip E (net_IP cidr) (int i)
                 in Inr (assignedIP, take i assignedIPs @ assignedIP # drop i assignedIPs)))"

definition getNextAvailableIPs ::
  "goenv \<Rightarrow> (string, ip list) gomap \<Rightarrow> err + (string, ip) gomap \<times> (string, ip list) gomap" where
  "getNextAvailableIPs E IPsByCIDR =
     go_for (\<lambda>cidr (assignedIPs, m).
       (case getNextAvailableIP E cidr (gm_get [] m cidr) of
          Inl e \<Rightarrow> Inl e
        | Inr (assignedIP, newIPs) \<Rightarrow> Inr (gm_put cidr assignedIP assignedIPs, gm_put cidr newIPs m)))
       (range_order E 122 (gm_keys IPsByCIDR)) ([], IPsByCIDR)"

text \<open>
  The loops of \<open>assignIPsToNamespaces\<close>: lines 27 to 35 (the base and the broadcast address;
  \<open>base.To4()\<close> is nil for an IPv6 base, and reading four bytes of it panics), and the three
  loops that append the addresses of another map.
\<close>

definition addNetworkIPs :: "goenv \<Rightarrow> string \<Rightarrow> ip list \<Rightarrow> err + ip list" where
  "addNetworkIPs E cidr ips =
     (case ParseCIDR cidr of
        Inl e \<Rightarrow> Inl e
      | Inr (base, cidrt) \<Rightarrow>
          (case base of
             IPv4 w \<Rightarrow> Inr (ips @ [base, from_uint32 E (NOT (mask_be32 cidrt) OR w)])
           | _ \<Rightarrow> Inl (GoPanic ''index out of range'')))"

definition appendIPs ::
  "goenv \<Rightarrow> nat \<Rightarrow> (string, ip list) gomap \<Rightarrow> (string, ip list) gomap \<Rightarrow> (string, ip list) gomap" where
  "appendIPs E line extra m =
     fold (\<lambda>cidr m. gm_put cidr (gm_get [] m cidr @ gm_get [] extra cidr) m)
       (range_order E line (gm_keys m)) m"

definition sortAll :: "goenv \<Rightarrow> (string, ip list) gomap \<Rightarrow> (string, ip list) gomap" where
  "sortAll E m =
     fold (\<lambda>cidr m. gm_put cidr (sortIPs E (gm_get [] m cidr)) m) (range_order E 72 (gm_keys m)) m"

text \<open>Lines 20 to 54: what is known before the platform is asked.\<close>

definition knownIPsByCIDR :: "goenv \<Rightarrow> rcontext \<Rightarrow> err + (string, ip list) gomap" where
  "knownIPsByCIDR E rc =
     bind_err (sortIPsByCIDR rc) (\<lambda>m.
     bind_err (range_update [] (addNetworkIPs E) (range_order E 27 (gm_keys m)) m) (\<lambda>m.
     bind_err (getNodesIPsByCIDR E rc) (\<lambda>nodesIPs.
     Inr (appendIPs E 51 nodesIPs (appendIPs E 40 (rc_ReservedIPsByCIDR rc) m)))))"

text \<open>One unassigned namespace, lines 78 to 95.\<close>

definition assignNamespace ::
  "goenv \<Rightarrow> rcontext \<Rightarrow> namespace \<Rightarrow> (string, ip list) gomap \<times> namespace list
     \<Rightarrow> (history, (string, ip list) gomap \<times> namespace list) action" where
  "assignNamespace E rc n = (\<lambda>(m, newly) h.
     (case getNextAvailableIPs E m of
        Inl e \<Rightarrow> (Inl e, h)
      | Inr (newIPs, m') \<Rightarrow>
          let ipstrings = map (\<lambda>cidr. IP_String (gm_get NilIP newIPs cidr)) (rc_CIDRs rc) in
          (case setAnnotation (ns_annotations n) NamespaceAssociationAnnotation
              (join_with (CHR '','') ipstrings) of
             Inl e \<Rightarrow> (Inl e, h)
           | Inr annotations \<Rightarrow>
               let n' = n\<lparr>ns_annotations := annotations\<rparr> in
               (case perform E (UpdateNamespace n') h of
                  (Some e, h') \<Rightarrow> (Inl e, h')
                | (None, h') \<Rightarrow> (Inr (m', newly @ [n']), h')))))"

definition assignIPsToNamespaces ::
  "goenv \<Rightarrow> infra \<Rightarrow> rcontext \<Rightarrow> (history, namespace list) action" where
  "assignIPsToNamespaces E infra rc h =
     (case knownIPsByCIDR E rc of
        Inl e \<Rightarrow> (Inl e, h)
      | Inr m \<Rightarrow>
          (case GetUsedIPsByCIDR infra rc h of
             (Inl e, h1) \<Rightarrow> (Inl e, h1)
           | (Inr infraIPs, h1) \<Rightarrow>
               let m' = sortAll E (removeDuplicates E (appendIPs E 62 infraIPs m)) in
               (case go_for_w (assignNamespace E rc) (rc_UnAssignedNamespaces rc) (m', []) h1 of
                  (Inl e, h2) \<Rightarrow> (Inl e, h2)
                | (Inr (_, newly), h2) \<Rightarrow> (Inr newly, h2))))"

section \<open>Sorting and removing duplicates\<close>

lemma sorted_wrt_less_map:
  assumes "sorted ws" "distinct ws"
  shows "sorted_wrt (<) (map IPv4 ws)"
  using assms by (simp add: sorted_wrt_map strict_sorted_iff)

lemma sortIPs_sorted:
  assumes "ipmath_laws E" "u32set_laws E" "\<forall>a \<in> set ips. is_IPv4 a"
  shows "sorted_wrt (<) (sortIPs E ips)" "set (sortIPs E ips) = set ips"
proof -
  have from_eq: "from_uint32 E = IPv4" using ipmath_lawsD(2) [OF assms(1)] by auto
  have "map (to_uint32 E) ips = map ip4_word ips"
    using assms(3) ipmath_lawsD(1) [OF assms(1)] by (fastforce elim: is_IPv4.elims)
  then have eq: "sortIPs E ips = map IPv4 (sort (u32_list E (map ip4_word ips)))"
    by (simp only: sortIPs_def from_eq)
  show "sorted_wrt (<) (sortIPs E ips)"
    unfolding eq by (rule sorted_wrt_less_map) (simp_all add: u32set_lawsD [OF assms(2)])
  have "IPv4 (ip4_word a) = a" if "a \<in> set ips" for a
    using assms(3) that by (cases a) auto
  then have "IPv4 ` ip4_word ` set ips = set ips" by (force simp: image_iff)
  then show "set (sortIPs E ips) = set ips" unfolding eq by (simp add: u32set_lawsD [OF assms(2)])
qed

lemma gm_get_removeDuplicates:
  assumes "range_laws E" "strset_laws E" "distinct (gm_keys m)" "\<forall>a \<in> set (gm_get [] m c). is_IPv4 a"
  shows "set (gm_get [] (removeDuplicates E m) c) = set (gm_get [] m c)"
proof -
  let ?f = "\<lambda>cidr. map ParseIP (str_list E (map IP_String (gm_get [] m cidr)))"
  have "ParseIP (IP_String a) = a" if "a \<in> set (gm_get [] m c)" for a
    using assms(4) that by (cases a) (auto simp del: IP_String.simps)
  then have "set (?f c) = set (gm_get [] m c)"
    by (force simp: strset_lawsD [OF assms(2)] image_iff)
  moreover have "c \<notin> set (gm_keys m) \<Longrightarrow> gm_get [] m c = []" by (rule gm_get_notin)
  ultimately show ?thesis
    unfolding removeDuplicates_def gm_get_fold_put using range_lawsD(2) [OF assms(1,3)] by auto
qed

lemma removeDuplicates_keys:
  assumes "range_laws E" "distinct (gm_keys m)"
  shows "fst ` set (removeDuplicates E m) = fst ` set m" "distinct (gm_keys (removeDuplicates E m))"
  using range_lawsD [OF assms]
  by (simp_all add: removeDuplicates_def keys_fold_put distinct_fold_put)

text \<open>Loops that rewrite every entry of a map from its own value.\<close>

lemma fold_rewrite:
  assumes "distinct ks"
  shows "gm_get z (fold (\<lambda>k m. gm_put k (f k (gm_get z m k)) m) ks m) c =
    (if c \<in> set ks then f c (gm_get z m c) else gm_get z m c)"
  using assms by (induction ks arbitrary: m) (auto simp: gm_get_put)

lemma fold_rewrite_keys:
  "set ks \<subseteq> fst ` set m \<Longrightarrow> gm_keys (fold (\<lambda>k m. gm_put k (f k m) m) ks m) = gm_keys m"
proof (induction ks arbitrary: m)
  case (Cons k ks)
  then have "gm_keys (gm_put k (f k m) m) = gm_keys m" by (simp add: gm_keys_put_in)
  then show ?case using Cons by (metis (no_types, lifting) fold_simps(2) insert_subset list.simps(15)
        set_map)
qed simp

lemma appendIPs_get:
  assumes "range_laws E" "distinct (gm_keys m)"
  shows "gm_get [] (appendIPs E l extra m) c =
    (if c \<in> fst ` set m then gm_get [] m c @ gm_get [] extra c else gm_get [] m c)"
    and "gm_keys (appendIPs E l extra m) = gm_keys m"
  using range_lawsD [OF assms]
  by (simp_all add: appendIPs_def fold_rewrite_keys
      fold_rewrite [where f = "\<lambda>k v. v @ gm_get [] extra k"])

lemma sortAll_get:
  assumes "range_laws E" "distinct (gm_keys m)"
  shows "c \<in> fst ` set m \<Longrightarrow> gm_get [] (sortAll E m) c = sortIPs E (gm_get [] m c)"
    and "gm_keys (sortAll E m) = gm_keys m"
  using range_lawsD [OF assms]
  by (simp_all add: sortAll_def fold_rewrite_keys fold_rewrite [where f = "\<lambda>k. sortIPs E"])

section \<open>The next available address\<close>

text \<open>
  What the list of the addresses in use of an IPv4 network is between two allocations:
  strictly increasing, within the network, holding the broadcast address.
\<close>

definition broadcast :: "ipnet \<Rightarrow> ip" where
  "broadcast net = (case net of Net4 b n \<Rightarrow> IPv4 (NOT (mask4 n) OR b) | Net6 b n \<Rightarrow> NilIP)"

definition alloc_ok :: "ipnet \<Rightarrow> ip list \<Rightarrow> bool" where
  "alloc_ok net xs \<longleftrightarrow> net_ok net \<and> sorted_wrt (<) xs \<and> (\<forall>a \<in> set xs. net_contains net a) \<and>
     broadcast net \<in> set xs"

lemma alloc_ok_Net4:
  assumes "alloc_ok net xs"
  obtains b n where "net = Net4 b n" "b AND mask4 n = b" "n \<le> 32" "\<forall>a \<in> set xs. \<exists>w. a = IPv4 w"
  using assms net_contains_IPv4 unfolding alloc_ok_def net_ok_def by (fastforce split: ipnet.splits)

definition addr_nat :: "ip \<Rightarrow> nat" where
  "addr_nat a = unat (ip4_word a)"

lemma sorted_addr_nat:
  assumes "sorted_wrt (<) xs" "\<forall>a \<in> set xs. \<exists>w. a = IPv4 w"
  shows "sorted_wrt (<) (map addr_nat xs)"
  unfolding sorted_wrt_map
proof (rule sorted_wrt_mono_rel [OF _ assms(1)])
  fix x y assume "x \<in> set xs" "y \<in> set xs" "x < y"
  moreover from this assms(2) obtain v w where "x = IPv4 v" "y = IPv4 w" by blast
  ultimately show "addr_nat x < addr_nat y" by (simp add: addr_nat_def word_less_nat_alt)
qed

lemma addr_offset:
  fixes b :: "32 word"
  assumes "unat b + i < 2 ^ 32"
  shows "unat (b + word_of_int (int i)) = unat b + i"
  using assms by (simp add: unat_word_ariths unat_of_nat)

text \<open>
  The search: a success returns the least address from the network address on that is not
  in use, and the list with it inserted in its place.
\<close>

lemma gap_found:
  assumes laws: "ipmath_laws E" and inv: "alloc_ok net xs"
    and gap: "find (\<lambda>i. xs ! i \<noteq> delta_ip E (net_IP net) (int i)) [0..<length xs] = Some i"
  shows "let a = delta_ip E (net_IP net) (int i); ys = take i xs @ a # drop i xs in
    a \<notin> set xs \<and> net_contains net a \<and> (\<forall>c. net_contains net c \<longrightarrow> c < a \<longrightarrow> c \<in> set xs) \<and>
    alloc_ok net ys \<and> set ys = insert a (set xs)"
proof -
  from inv obtain b n where net: "net = Net4 b n" "b AND mask4 n = b" "n \<le> 32"
    and v4: "\<forall>a \<in> set xs. \<exists>w. a = IPv4 w" by (rule alloc_ok_Net4)
  from gap have i: "i < length xs" "xs ! i \<noteq> delta_ip E (IPv4 b) (int i)"
    and before: "\<And>j. j < i \<Longrightarrow> xs ! j = delta_ip E (IPv4 b) (int j)"
    by (auto simp: find_Some_iff net(1))
  let ?ns = "map addr_nat xs"
  have srt: "sorted_wrt (<) xs" and cont: "\<And>a. a \<in> set xs \<Longrightarrow> net_contains net a"
    using inv by (auto simp: alloc_ok_def)
  have ns: "sorted_wrt (<) ?ns" using srt v4 by (rule sorted_addr_nat)
  have range: "unat b \<le> addr_nat a \<and> addr_nat a < unat b + 2 ^ (32 - n)" if "a \<in> set xs" for a
    using cont [OF that] v4 that net4_interval [OF net(2)] by (auto simp: net(1) addr_nat_def)
  then have lo: "\<forall>x \<in> set ?ns. unat b \<le> x" by auto
  have off: "unat b + j \<le> addr_nat (xs ! j)" if "j < length xs" for j
    using sorted_offset_prefix [OF ns lo, of j] that by simp
  have word: "unat (b + word_of_int (int j)) = unat b + j" if "j < length xs" for j
  proof (rule addr_offset)
    have "addr_nat (xs ! j) < 2 ^ 32" using unsigned_less [of "ip4_word (xs ! j)"] by (simp add: addr_nat_def)
    with off [OF that] show "unat b + j < 2 ^ 32" by simp
  qed
  let ?a = "IPv4 (b + word_of_int (int i))"
  have a: "delta_ip E (net_IP net) (int i) = ?a" by (simp add: net(1) ipmath_lawsD [OF laws])
  have nth: "\<exists>w. xs ! j = IPv4 w" if "j < length xs" for j using v4 that by auto
  have eq_iff: "xs ! j = IPv4 (b + word_of_int (int j)) \<longleftrightarrow> addr_nat (xs ! j) = unat b + j"
    if "j < length xs" for j
    using nth [OF that] word [OF that] by (auto simp: addr_nat_def word_unat_eq_iff)
  have ns_i: "?ns ! i \<noteq> unat b + i" and ns_before: "\<And>j. j < i \<Longrightarrow> ?ns ! j = unat b + j"
    using i before eq_iff by (auto simp: ipmath_lawsD [OF laws])
  note gapfacts = least_gap [OF ns lo _ ns_i ns_before]
  have fresh: "?a \<notin> set xs"
    using gapfacts(1) i(1) word [OF i(1)] by (force simp: addr_nat_def image_iff)
  have gt: "unat b + i < addr_nat (xs ! i)" using off [OF i(1)] ns_i i(1) by simp
  have inside: "net_contains net ?a"
    using gt range [of "xs ! i"] i(1) net4_interval [OF net(2)] word [OF i(1)] by (simp add: net(1))
  have least: "c \<in> set xs" if c: "net_contains net c" "c < ?a" for c
  proof -
    obtain w where w: "c = IPv4 w" using c(1) net_contains_IPv4 net(1) by blast
    then have "unat b \<le> unat w" "unat w < unat b + i"
      using c net4_interval [OF net(2)] word [OF i(1)] by (auto simp: net(1) word_less_nat_alt)
    then have "unat w \<in> set ?ns" using gapfacts(2) i(1) by simp
    then obtain a' where a': "a' \<in> set xs" "addr_nat a' = unat w" by auto
    then obtain w' where w': "a' = IPv4 w'" using v4 by blast
    with a' have "w' = w" by (simp add: addr_nat_def word_unat_eq_iff)
    with a' w w' show ?thesis by simp
  qed
  let ?ys = "take i xs @ ?a # drop i xs"
  have set_ys: "set ?ys = insert ?a (set xs)"
    by (metis Un_insert_right append_take_drop_id list.simps(15) set_append)
  have "sorted_wrt (<) ?ys"
  proof (rule sorted_insert_at [OF srt])
    show "xs ! j < ?a" if "j < i" for j
      using before [OF that] word [of j] word [OF i(1)] that i(1)
      by (simp add: ipmath_lawsD [OF laws] word_less_nat_alt)
    show "?a < xs ! i" if "i < length xs"
      using nth [OF i(1)] gt word [OF i(1)] by (auto simp: addr_nat_def word_less_nat_alt)
  qed (use i(1) in simp)
  then have "alloc_ok net ?ys" using inv inside set_ys by (auto simp: alloc_ok_def)
  with fresh inside least set_ys show ?thesis by (simp add: a Let_def)
qed

text \<open>The search fails only when every address of the network is in use.\<close>

lemma gap_not_found:
  assumes laws: "ipmath_laws E" and inv: "alloc_ok net xs"
    and gap: "find (\<lambda>i. xs ! i \<noteq> delta_ip E (net_IP net) (int i)) [0..<length xs] = None"
    and c: "net_contains net c"
  shows "c \<in> set xs"
proof -
  from inv obtain b n where net: "net = Net4 b n" "b AND mask4 n = b" "n \<le> 32"
    and v4: "\<forall>a \<in> set xs. \<exists>w. a = IPv4 w" by (rule alloc_ok_Net4)
  have all: "xs ! j = IPv4 (b + word_of_int (int j))" if "j < length xs" for j
    using gap that by (auto simp: find_None_iff net(1) ipmath_lawsD [OF laws])
  obtain w where w: "c = IPv4 w" using c net_contains_IPv4 net(1) by blast
  have w_range: "unat b \<le> unat w" "unat w < unat b + 2 ^ (32 - n)"
    using c w net4_interval [OF net(2)] by (auto simp: net(1))
  have top: "unat b + (2 ^ (32 - n) - 1) < 2 ^ 32"
    using net4_top [OF net(2,3)] by (simp add: less_eq_Suc_le)
  obtain k where k: "k < length xs" "xs ! k = broadcast net"
    using inv by (auto simp: alloc_ok_def in_set_conv_nth)
  have "w AND mask4 n = b"
    using c w net(2) by (simp add: net(1))
  then have "w AND (NOT (mask4 n) OR b) = w"
    by (metis (no_types, lifting) and.assoc and.commute and.idem bit.conj_disj_distrib
        word_bw_comms(2) word_oa_dist2 bit.disj_cancel_right and.right_neutral or.commute)
  then have "w \<le> NOT (mask4 n) OR b" by (metis word_and_le1)
  moreover have b_k: "b + word_of_int (int k) = NOT (mask4 n) OR b"
    using all [OF k(1)] k(2) by (simp add: broadcast_def net(1))
  moreover have k_off: "unat (b + word_of_int (int k)) \<le> unat b + k"
  proof -
    have "unat (b + word_of_int (int k)) \<le> unat b + unat (word_of_nat k :: 32 word)"
      by (simp add: unat_word_ariths)
    moreover have "unat (word_of_nat k :: 32 word) \<le> k" by (simp add: unat_of_nat)
    ultimately show ?thesis by simp
  qed
  ultimately have le: "unat w - unat b \<le> k" by (auto simp: word_le_nat_alt)
  then have "xs ! (unat w - unat b) = IPv4 (b + word_of_int (int (unat w - unat b)))"
    using all k(1) by simp
  moreover have "unat (b + word_of_int (int (unat w - unat b))) = unat w"
    using addr_offset [of b "unat w - unat b"] w_range(1) unsigned_less [of w] by simp
  ultimately have "xs ! (unat w - unat b) = c" by (simp add: w word_unat_eq_iff)
  moreover have "unat w - unat b < length xs" using le k(1) by simp
  ultimately show ?thesis by (metis nth_mem)
qed


text \<open>\<open>NetworkSize\<close> equals the length of the list exactly when the network is exhausted.\<close>

lemma alloc_ok_addresses:
  assumes inv: "alloc_ok (Net4 b n) xs"
  shows "length xs = card (addr_nat ` set xs)" "addr_nat ` set xs \<subseteq> {unat b..<unat b + 2 ^ (32 - n)}"
    "inj_on addr_nat (set xs)"
proof -
  have v4: "\<forall>a \<in> set xs. \<exists>w. a = IPv4 w" and al: "b AND mask4 n = b"
    using alloc_ok_Net4 [OF inv] by auto
  show inj: "inj_on addr_nat (set xs)"
  proof (rule inj_onI)
    fix x y assume "x \<in> set xs" "y \<in> set xs" and eq: "addr_nat x = addr_nat y"
    then obtain v w where "x = IPv4 v" "y = IPv4 w" using v4 by blast
    with eq show "x = y" by (simp add: addr_nat_def word_unat_eq_iff)
  qed
  have "distinct xs" using inv by (simp add: alloc_ok_def strict_sorted_iff)
  then show "length xs = card (addr_nat ` set xs)"
    by (simp only: card_image [OF inj] distinct_card)
  have "unat b \<le> addr_nat a \<and> addr_nat a < unat b + 2 ^ (32 - n)" if a: "a \<in> set xs" for a
  proof -
    obtain w where w: "a = IPv4 w" using v4 a by blast
    have "net_contains (Net4 b n) (IPv4 w)" using inv a w by (auto simp only: alloc_ok_def)
    then show ?thesis using w by (simp only: net4_interval [OF al] addr_nat_def ip4_word.simps)
  qed
  then show "addr_nat ` set xs \<subseteq> {unat b..<unat b + 2 ^ (32 - n)}"
    by (intro image_subsetI) (simp only: atLeastLessThan_iff)
qed

lemma full_iff:
  assumes inv: "alloc_ok (Net4 b n) xs"
  shows "length xs = 2 ^ (32 - n) \<longleftrightarrow> (\<forall>a. net_contains (Net4 b n) a \<longrightarrow> a \<in> set xs)"
proof -
  let ?I = "{unat b..<unat b + 2 ^ (32 - n)}"
  note facts = alloc_ok_addresses [OF inv]
  have v4: "\<forall>a \<in> set xs. \<exists>w. a = IPv4 w" and al: "b AND mask4 n = b" "n \<le> 32"
    using alloc_ok_Net4 [OF inv] by auto
  have "length xs = 2 ^ (32 - n) \<longleftrightarrow> addr_nat ` set xs = ?I"
  proof -
    have "card (addr_nat ` set xs) = 2 ^ (32 - n) \<longleftrightarrow> addr_nat ` set xs = ?I"
      using card_subset_eq [OF _ facts(2)] by force
    then show ?thesis unfolding facts(1) .
  qed
  also have "\<dots> \<longleftrightarrow> (\<forall>a. net_contains (Net4 b n) a \<longrightarrow> a \<in> set xs)"
  proof
    assume img: "addr_nat ` set xs = ?I"
    show "\<forall>a. net_contains (Net4 b n) a \<longrightarrow> a \<in> set xs"
    proof (intro allI impI)
      fix a assume a: "net_contains (Net4 b n) a"
      then obtain w where w: "a = IPv4 w" using net_contains_IPv4 by blast
      have "unat w \<in> ?I" using a w net4_interval [OF al(1)] by simp
      then obtain a' where a': "a' \<in> set xs" "addr_nat a' = unat w" unfolding img [symmetric] by auto
      then obtain w' where w': "a' = IPv4 w'" using v4 by blast
      with a' have "w' = w" by (simp add: addr_nat_def word_unat_eq_iff)
      with a' w w' show "a \<in> set xs" by simp
    qed
  next
    assume all: "\<forall>a. net_contains (Net4 b n) a \<longrightarrow> a \<in> set xs"
    have "x \<in> addr_nat ` set xs" if x: "x \<in> ?I" for x
    proof -
      have eq: "unat (word_of_nat x :: 32 word) = x"
        using x net4_top [OF al] by (simp add: unat_of_nat)
      then have "IPv4 (word_of_nat x) \<in> set xs" using all x net4_interval [OF al(1)] by simp
      then show ?thesis using eq by (force simp: addr_nat_def)
    qed
    with facts(2) show "addr_nat ` set xs = ?I" by blast
  qed
  finally show ?thesis .
qed

lemma word32_of_nat_eq_iff: "(word_of_nat i :: 32 word) = word_of_nat j \<longleftrightarrow> i mod 2 ^ 32 = j mod 2 ^ 32"
  by (simp add: word_unat_eq_iff unat_of_nat)

lemma size_check:
  assumes "size_law E" and inv: "alloc_ok (Net4 b n) xs"
  shows "word_of_int (int (length xs)) = network_size E (Net4 b n) \<longleftrightarrow> length xs = 2 ^ (32 - n)"
proof -
  let ?k = "32 - n" and ?l = "length xs"
  have n: "n \<le> 32" using inv by (simp add: alloc_ok_def net_ok_def)
  have "?l \<le> 2 ^ ?k"
    using alloc_ok_addresses [OF inv] card_mono [of "{unat b..<unat b + 2 ^ ?k}" "addr_nat ` set xs"] by simp
  moreover have "0 < ?l" using inv by (auto simp: alloc_ok_def)
  moreover have pow: "(2::nat) ^ ?k \<le> 2 ^ 32" by (rule power_increasing) simp_all
  ultimately have "?l mod 2 ^ 32 = 2 ^ ?k mod 2 ^ 32 \<longleftrightarrow> ?l = 2 ^ ?k"
    by (cases "?l = 2 ^ 32"; cases "(2::nat) ^ ?k = 2 ^ 32") auto
  moreover have "word_of_int (int ?l) = (word_of_int (2 ^ ?k) :: 32 word) \<longleftrightarrow> ?l mod 2 ^ 32 = 2 ^ ?k mod 2 ^ 32"
    using word32_of_nat_eq_iff [of ?l "2 ^ ?k"] by simp
  ultimately show ?thesis using assms(1) n by (simp add: size_law_def)
qed


lemma getNextAvailableIP_Inr:
  assumes laws: "ipmath_laws E" and cidr: "ParseCIDR c = Inr (base, net)" and inv: "alloc_ok net xs"
    and res: "getNextAvailableIP E c xs = Inr (a, ys)"
  shows "a \<notin> set xs \<and> net_contains net a \<and> (\<forall>d. net_contains net d \<longrightarrow> d < a \<longrightarrow> d \<in> set xs) \<and>
    alloc_ok net ys \<and> set ys = insert a (set xs)"
proof -
  from res cidr obtain i where
    "find (\<lambda>i. xs ! i \<noteq> delta_ip E (net_IP net) (int i)) [0..<length xs] = Some i"
    and "a = delta_ip E (net_IP net) (int i)" "ys = take i xs @ a # drop i xs"
    by (auto simp: getNextAvailableIP_def Let_def split: if_splits option.splits)
  with gap_found [OF laws inv] show ?thesis by (simp add: Let_def)
qed

lemma getNextAvailableIP_Inl:
  assumes laws: "ipmath_laws E" "size_law E" and cidr: "ParseCIDR c = Inr (base, net)"
    and inv: "alloc_ok net xs"
  shows "getNextAvailableIP E c xs = Inl e \<longleftrightarrow>
    e = ErrNew (''no more available IPs in this CIDR: '' @ net_String net) \<and>
    (\<forall>a. net_contains net a \<longrightarrow> a \<in> set xs)"
proof -
  from inv obtain b n where net: "net = Net4 b n" by (rule alloc_ok_Net4)
  let ?full = "\<forall>a. net_contains net a \<longrightarrow> a \<in> set xs"
  let ?find = "find (\<lambda>i. xs ! i \<noteq> delta_ip E (net_IP net) (int i)) [0..<length xs]"
  have size: "word_of_int (int (length xs)) = network_size E net \<longleftrightarrow> ?full"
    using size_check [OF laws(2)] full_iff inv unfolding net by blast
  show ?thesis
  proof (cases ?full)
    case True
    with size cidr show ?thesis by (auto simp: getNextAvailableIP_def)
  next
    case False
    then have "?find \<noteq> None" using gap_not_found [OF laws(1) inv] by blast
    with False size cidr show ?thesis by (auto simp: getNextAvailableIP_def Let_def)
  qed
qed

section \<open>The allocator\<close>

text \<open>
  What the assignment of namespaces needs of the allocation, by key: a draw gives for every
  key an item that was not in use and lies in the range of the key, and marks it, and only
  it, as in use.
\<close>

inductive draws :: "('s \<Rightarrow> err + 'p \<times> 's) \<Rightarrow> 's \<Rightarrow> 'p list \<Rightarrow> 's \<Rightarrow> bool" for draw where
  draws_none: "draws draw s [] s"
| draws_some: "draw s = Inr (p, s1) \<Longrightarrow> draws draw s1 ps s2 \<Longrightarrow> draws draw s (p # ps) s2"

inductive_cases draws_ConsE: "draws draw s (p # ps) t"
inductive_simps draws_Nil_iff [simp]: "draws draw s [] t"

locale allocator =
  fixes draw :: "'s \<Rightarrow> err + 'p \<times> 's" and pick :: "'p \<Rightarrow> 'k \<Rightarrow> 'a" and used :: "'s \<Rightarrow> 'k \<Rightarrow> 'a set"
    and keys :: "'s \<Rightarrow> 'k set" and within :: "'k \<Rightarrow> 'a \<Rightarrow> bool" and inv :: "'s \<Rightarrow> bool"
  assumes draw_inv: "inv s \<Longrightarrow> draw s = Inr (p, s1) \<Longrightarrow> inv s1 \<and> keys s1 = keys s"
    and draw_fresh: "inv s \<Longrightarrow> draw s = Inr (p, s1) \<Longrightarrow> k \<in> keys s \<Longrightarrow> pick p k \<notin> used s k \<and> within k (pick p k)"
    and draw_used: "inv s \<Longrightarrow> draw s = Inr (p, s1) \<Longrightarrow> k \<in> keys s \<Longrightarrow> used s1 k = insert (pick p k) (used s k)"
begin

lemma draws_distinct:
  assumes "draws draw s ps t" "inv s" "k \<in> keys s"
  shows "distinct (map (\<lambda>p. pick p k) ps)"
    and "\<forall>p \<in> set ps. pick p k \<notin> used s k \<and> within k (pick p k)"
    and "used t k = (\<lambda>p. pick p k) ` set ps \<union> used s k"
    and "inv t \<and> keys t = keys s"
proof -
  have "distinct (map (\<lambda>p. pick p k) ps) \<and> (\<forall>p \<in> set ps. pick p k \<notin> used s k \<and> within k (pick p k)) \<and>
      used t k = (\<lambda>p. pick p k) ` set ps \<union> used s k \<and> inv t \<and> keys t = keys s"
    using assms
  proof (induction rule: draws.induct)
    case (draws_some s p s1 ps s2)
    note step = draw_inv [OF draws_some.prems(1) draws_some.hyps(1)]
      draw_fresh [OF draws_some.prems(1) draws_some.hyps(1) draws_some.prems(2)]
      draw_used [OF draws_some.prems(1) draws_some.hyps(1) draws_some.prems(2)]
    have "distinct (map (\<lambda>p. pick p k) ps) \<and> (\<forall>p \<in> set ps. pick p k \<notin> used s1 k \<and> within k (pick p k)) \<and>
      used s2 k = (\<lambda>p. pick p k) ` set ps \<union> used s1 k \<and> inv s2 \<and> keys s2 = keys s1"
      by (rule draws_some.IH) (use step(1) draws_some.prems(2) in simp_all)
    with step show ?case by auto
  qed simp
  then show "distinct (map (\<lambda>p. pick p k) ps)"
    and "\<forall>p \<in> set ps. pick p k \<notin> used s k \<and> within k (pick p k)"
    and "used t k = (\<lambda>p. pick p k) ` set ps \<union> used s k"
    and "inv t \<and> keys t = keys s" by auto
qed

end

definition alloc_inv :: "(string, ip list) gomap \<Rightarrow> bool" where
  "alloc_inv m \<longleftrightarrow> distinct (gm_keys m) \<and>
     (\<forall>c \<in> set (gm_keys m). \<exists>base net. ParseCIDR c = Inr (base, net) \<and> alloc_ok net (gm_get [] m c))"

lemma getNextAvailableIPs_get:
  assumes "range_laws E" "distinct (gm_keys m)" and res: "getNextAvailableIPs E m = Inr (p, m')"
  shows "gm_keys m' = gm_keys m"
    and "c \<in> fst ` set m \<Longrightarrow>
      getNextAvailableIP E c (gm_get [] m c) = Inr (gm_get NilIP p c, gm_get [] m' c)"
proof -
  let ?ks = "range_order E 122 (gm_keys m)"
  note ks = range_lawsD [OF assms(1,2), of 122]
  let ?P = "\<lambda>ys (p, s). gm_keys s = gm_keys m \<and> (\<forall>c. if c \<in> set ys
    then getNextAvailableIP E c (gm_get [] m c) = Inr (gm_get NilIP p c, gm_get [] s c)
    else gm_get [] s c = gm_get [] m c)"
  have "?P ?ks (p, m')"
  proof (rule go_for_inv_prefix [OF res [unfolded getNextAvailableIPs_def], where I = ?P])
    fix ys c zs s s'
    assume split: "?ks = ys @ c # zs" and I: "?P ys s"
      and step: "(case s of (assignedIPs, m) \<Rightarrow>
         case getNextAvailableIP E c (gm_get [] m c) of Inl e \<Rightarrow> Inl e
         | Inr (assignedIP, newIPs) \<Rightarrow> Inr (gm_put c assignedIP assignedIPs, gm_put c newIPs m)) = Inr s'"
    have c: "c \<notin> set ys" "c \<in> fst ` set m" using ks split by auto
    obtain p0 s0 where s: "s = (p0, s0)" by (cases s)
    have at_c: "gm_get [] s0 c = gm_get [] m c" "gm_keys s0 = gm_keys m" using I c(1) s by auto
    with step s obtain a xs where got: "getNextAvailableIP E c (gm_get [] m c) = Inr (a, xs)"
      "s' = (gm_put c a p0, gm_put c xs s0)"
      by (auto split: sum.splits)
    have "gm_keys (gm_put c xs s0) = gm_keys m"
      using c(2) at_c(2) by (metis gm_keys_put_in set_map)
    with I got c(1) s show "?P (ys @ [c]) s'" by (auto simp: gm_get_put)
  qed simp
  then show "gm_keys m' = gm_keys m"
    and "c \<in> fst ` set m \<Longrightarrow>
      getNextAvailableIP E c (gm_get [] m c) = Inr (gm_get NilIP p c, gm_get [] m' c)"
    using ks by auto
qed

lemma getNextAvailableIPs_step:
  assumes laws: "range_laws E" "ipmath_laws E" and inv: "alloc_inv m"
    and res: "getNextAvailableIPs E m = Inr (p, m')"
  shows "alloc_inv m'" "gm_keys m' = gm_keys m"
    and "c \<in> fst ` set m \<Longrightarrow> gm_get NilIP p c \<notin> set (gm_get [] m c) \<and> in_cidr c (gm_get NilIP p c) \<and>
      set (gm_get [] m' c) = insert (gm_get NilIP p c) (set (gm_get [] m c))"
proof -
  have dist: "distinct (gm_keys m)" using inv by (simp add: alloc_inv_def)
  note get = getNextAvailableIPs_get [OF laws(1) dist res]
  show keys: "gm_keys m' = gm_keys m" by (rule get(1))
  have facts: "\<exists>base net. ParseCIDR c = Inr (base, net) \<and> alloc_ok net (gm_get [] m' c) \<and>
      gm_get NilIP p c \<notin> set (gm_get [] m c) \<and> net_contains net (gm_get NilIP p c) \<and>
      set (gm_get [] m' c) = insert (gm_get NilIP p c) (set (gm_get [] m c))"
    if c: "c \<in> fst ` set m" for c
  proof -
    obtain base net where "ParseCIDR c = Inr (base, net)" "alloc_ok net (gm_get [] m c)"
      using inv c by (auto simp: alloc_inv_def)
    with getNextAvailableIP_Inr [OF laws(2) _ _ get(2) [OF c]] show ?thesis by blast
  qed
  show "alloc_inv m'" unfolding alloc_inv_def keys using facts dist by (metis set_map)
  show "gm_get NilIP p c \<notin> set (gm_get [] m c) \<and> in_cidr c (gm_get NilIP p c) \<and>
      set (gm_get [] m' c) = insert (gm_get NilIP p c) (set (gm_get [] m c))" if "c \<in> fst ` set m"
    using facts [OF that] by (auto simp: in_cidr_def)
qed

text \<open>The operator's allocation is an allocator. Outside the laws of its packages it draws nothing.\<close>

interpretation ipam: allocator
  "getNextAvailableIPs E" "gm_get NilIP" "\<lambda>m c. set (gm_get [] m c)" "\<lambda>m. set (gm_keys m)" in_cidr
  "\<lambda>m. range_laws E \<and> ipmath_laws E \<and> alloc_inv m" for E
proof (unfold_locales, goal_cases)
  case (1 s p s1)
  then show ?case using getNextAvailableIPs_step(1,2) by (metis (no_types, lifting))
next
  case (2 s p s1 k)
  then show ?case using getNextAvailableIPs_step(3) [of E s p s1 k] by simp
next
  case (3 s p s1 k)
  then show ?case using getNextAvailableIPs_step(3) [of E s p s1 k] by simp
qed

section \<open>The addresses in use before the first draw\<close>

text \<open>
  What \<open>loadReconcileContext\<close> and \<open>IsValid\<close> establish of the CIDRs of an IPv4 EgressIPAM
  (theory \<open>Controller\<close>).
\<close>

definition cidrs_ok :: "rcontext \<Rightarrow> bool" where
  "cidrs_ok rc \<longleftrightarrow> distinct (gm_keys (rc_AllNodes rc)) \<and>
     (\<forall>c \<in> set (rc_CIDRs rc).
       (case ParseCIDR c of
          Inr (IPv4 w, Net4 b n) \<Rightarrow>
            map_of (rc_NetCIDRByCIDR rc) c = Some (Net4 b n) \<and>
            (\<forall>a \<in> set (gm_get [] (rc_ReservedIPsByCIDR rc) c). net_contains (Net4 b n) a)
        | _ \<Rightarrow> False))"

lemma cidrs_okE:
  assumes "cidrs_ok rc" "c \<in> set (rc_CIDRs rc)"
  obtains w b n where "ParseCIDR c = Inr (IPv4 w, Net4 b n)" "map_of (rc_NetCIDRByCIDR rc) c = Some (Net4 b n)"
    "\<forall>a \<in> set (gm_get [] (rc_ReservedIPsByCIDR rc) c). net_contains (Net4 b n) a"
proof -
  have "case ParseCIDR c of
          Inr (IPv4 w, Net4 b n) \<Rightarrow>
            map_of (rc_NetCIDRByCIDR rc) c = Some (Net4 b n) \<and>
            (\<forall>a \<in> set (gm_get [] (rc_ReservedIPsByCIDR rc) c). net_contains (Net4 b n) a)
        | _ \<Rightarrow> False"
    using assms unfolding cidrs_ok_def by blast
  then show ?thesis using that
    by (simp split: sum.splits prod.splits ip.splits ipnet.splits del: net_contains.simps)
qed

text \<open>The address of a namespace for the i-th CIDR.\<close>

definition ns_addr :: "namespace \<Rightarrow> nat \<Rightarrow> ip" where
  "ns_addr n i =
     (case ns_ips n of
        None \<Rightarrow> NilIP
      | Some v \<Rightarrow>
          let ipstrings = split_on (CHR '','') v
          in if i < length ipstrings then ParseIP (ipstrings ! i) else NilIP)"

text \<open>
  The addresses that are taken for the i-th CIDR when the operator starts to assign: those
  of the namespaces that have addresses, the address and the broadcast address of the CIDR,
  the reserved ones, the host addresses of the nodes, and those the platform reports.
\<close>

definition taken :: "rcontext \<Rightarrow> (string, ip list) gomap \<Rightarrow> nat \<Rightarrow> ip \<Rightarrow> bool" where
  "taken rc infraIPs i a \<longleftrightarrow>
     (let c = rc_CIDRs rc ! i in
       (\<exists>n \<in> set (rc_InitiallyAssignedNamespaces rc). ns_ips n \<noteq> None \<and> a = ns_addr n i) \<or>
       (case ParseCIDR c of Inl e \<Rightarrow> False | Inr (base, net) \<Rightarrow> a = base \<or> a = broadcast net) \<or>
       a \<in> set (gm_get [] (rc_ReservedIPsByCIDR rc) c) \<or>
       a \<in> host_ip_of rc ` set (gm_keys (rc_AllNodes rc)) \<or>
       a \<in> set (gm_get [] infraIPs c))"

lemma broadcast_contained:
  assumes "net_ok (Net4 b n)"
  shows "net_contains (Net4 b n) (broadcast (Net4 b n))"
proof -
  have "b AND mask4 n = b" using assms by (simp add: net_ok_def)
  then show ?thesis by (simp add: broadcast_def bit.conj_disj_distrib2)
qed

lemma broadcast_base: "NOT (mask4 n) OR w = NOT (mask4 n) OR (w AND mask4 n)"
  by (rule bit_eqI) (auto simp: bit_simps)

lemma addNetworkIPs_Inr:
  assumes laws: "ipmath_laws E" and c: "ParseCIDR c = Inr (IPv4 w, Net4 b n)"
    and res: "addNetworkIPs E c ips = Inr ips'"
  shows "ips' = ips @ [IPv4 w, broadcast (Net4 b n)]"
    and "net_contains (Net4 b n) (IPv4 w)" "net_contains (Net4 b n) (broadcast (Net4 b n))"
proof -
  note ok = ParseCIDR_net_ok [OF c]
  show "ips' = ips @ [IPv4 w, broadcast (Net4 b n)]"
    using res broadcast_base [of n w] ok(2)
    by (simp add: addNetworkIPs_def c ipmath_lawsD [OF laws] broadcast_def)
  show "net_contains (Net4 b n) (IPv4 w)" by (rule ok(4))
  show "net_contains (Net4 b n) (broadcast (Net4 b n))" by (rule broadcast_contained [OF ok(3)])
qed

text \<open>What the maps hold after lines 20 to 54, and after the platform's addresses joined them.\<close>

definition known_ok :: "rcontext \<Rightarrow> (string, ip list) gomap \<Rightarrow> bool" where
  "known_ok rc m \<longleftrightarrow> distinct (gm_keys m) \<and> fst ` set m = set (rc_CIDRs rc) \<and>
     (\<forall>i < length (rc_CIDRs rc). let c = rc_CIDRs rc ! i in
        (\<forall>a \<in> set (gm_get [] m c). in_cidr c a) \<and>
        (\<forall>a. in_cidr c a \<longrightarrow> taken rc [] i a \<longrightarrow> a \<in> set (gm_get [] m c)) \<and>
        (\<exists>base net. ParseCIDR c = Inr (base, net) \<and> net_ok net \<and> broadcast net \<in> set (gm_get [] m c)))"

text \<open>Every list is the concatenation of what the four sources have for the CIDR.\<close>

lemma knownIPsByCIDR_entry:
  assumes laws: "range_laws E" "ipmath_laws E" and ok: "cidrs_ok rc" and res: "knownIPsByCIDR E rc = Inr m"
  obtains m0 nodesIPs where "sortIPsByCIDR rc = Inr m0" "getNodesIPsByCIDR E rc = Inr nodesIPs"
    "distinct (gm_keys m)" "fst ` set m = set (rc_CIDRs rc)"
    "\<And>c w b n. c \<in> set (rc_CIDRs rc) \<Longrightarrow> ParseCIDR c = Inr (IPv4 w, Net4 b n) \<Longrightarrow>
       gm_get [] m c = gm_get [] m0 c @ [IPv4 w, broadcast (Net4 b n)] @
         gm_get [] (rc_ReservedIPsByCIDR rc) c @ gm_get [] nodesIPs c \<and>
       net_contains (Net4 b n) (IPv4 w) \<and> net_contains (Net4 b n) (broadcast (Net4 b n))"
proof -
  from res obtain m0 m1 nodesIPs where sort: "sortIPsByCIDR rc = Inr m0"
    and net: "range_update [] (addNetworkIPs E) (range_order E 27 (gm_keys m0)) m0 = Inr m1"
    and nodes: "getNodesIPsByCIDR E rc = Inr nodesIPs"
    and m: "m = appendIPs E 51 nodesIPs (appendIPs E 40 (rc_ReservedIPsByCIDR rc) m1)"
    by (auto simp: knownIPsByCIDR_def)
  have m0: "distinct (gm_keys m0)" "fst ` set m0 = set (rc_CIDRs rc)"
    using sortIPsByCIDR_ok [OF sort] by (simp_all add: sorted_ips_ok_def)
  note ks = range_lawsD [OF laws(1) m0(1), of 27]
  have "gm_keys m1 = gm_keys m0" by (rule range_update_keys [OF net]) (simp add: ks)
  then have keys: "gm_keys m1 = gm_keys m0" "gm_keys m = gm_keys m0" "distinct (gm_keys m1)"
    using m0(1) by (simp_all add: m appendIPs_get [OF laws(1)])
  have entry: "gm_get [] m c = gm_get [] m1 c @ gm_get [] (rc_ReservedIPsByCIDR rc) c @ gm_get [] nodesIPs c"
    if "c \<in> set (rc_CIDRs rc)" for c
  proof -
    have "set (gm_keys m1) = set (rc_CIDRs rc)" using m0(2) keys(1) by simp
    then have c: "c \<in> fst ` set m1" using that by simp
    moreover have "fst ` set (appendIPs E 40 (rc_ReservedIPsByCIDR rc) m1) = fst ` set m1"
      using appendIPs_get(2) [OF laws(1) keys(3)] by (metis set_map)
    ultimately show ?thesis
      using keys(3) appendIPs_get(2) [OF laws(1) keys(3)] by (simp add: m appendIPs_get(1) [OF laws(1)])
  qed
  show ?thesis
  proof (rule that [OF sort nodes])
    show "distinct (gm_keys m)" using m0(1) keys(2) by simp
    show "fst ` set m = set (rc_CIDRs rc)" using m0(2) keys(2) by (metis set_map)
    fix c w b n assume c: "c \<in> set (rc_CIDRs rc)" and p: "ParseCIDR c = Inr (IPv4 w, Net4 b n)"
    have "addNetworkIPs E c (gm_get [] m0 c) = Inr (gm_get [] m1 c)"
      by (rule range_update_get(1) [OF net]) (use c m0 ks in simp_all)
    note base = addNetworkIPs_Inr [OF laws(2) p this]
    show "gm_get [] m c = gm_get [] m0 c @ [IPv4 w, broadcast (Net4 b n)] @
         gm_get [] (rc_ReservedIPsByCIDR rc) c @ gm_get [] nodesIPs c \<and>
       net_contains (Net4 b n) (IPv4 w) \<and> net_contains (Net4 b n) (broadcast (Net4 b n))"
      using base(2,3) unfolding entry [OF c] base(1) by simp
  qed
qed

lemma knownIPsByCIDR_ok:
  assumes laws: "range_laws E" "ipmath_laws E" and ok: "cidrs_ok rc" and res: "knownIPsByCIDR E rc = Inr m"
  shows "known_ok rc m"
proof -
  obtain m0 nodesIPs where sort: "sortIPsByCIDR rc = Inr m0" and nodes: "getNodesIPsByCIDR E rc = Inr nodesIPs"
    and m: "distinct (gm_keys m)" "fst ` set m = set (rc_CIDRs rc)"
    and entry: "\<And>c w b n. c \<in> set (rc_CIDRs rc) \<Longrightarrow> ParseCIDR c = Inr (IPv4 w, Net4 b n) \<Longrightarrow>
       gm_get [] m c = gm_get [] m0 c @ [IPv4 w, broadcast (Net4 b n)] @
         gm_get [] (rc_ReservedIPsByCIDR rc) c @ gm_get [] nodesIPs c \<and>
       net_contains (Net4 b n) (IPv4 w) \<and> net_contains (Net4 b n) (broadcast (Net4 b n))"
    by (rule knownIPsByCIDR_entry [OF assms]) blast
  have m0: "\<And>c a. a \<in> set (gm_get [] m0 c) \<Longrightarrow> sorted_ip_ok rc c a"
    using sortIPsByCIDR_ok [OF sort] by (simp add: sorted_ips_ok_def)
  have "let c = rc_CIDRs rc ! i in
        (\<forall>a \<in> set (gm_get [] m c). in_cidr c a) \<and>
        (\<forall>a. in_cidr c a \<longrightarrow> taken rc [] i a \<longrightarrow> a \<in> set (gm_get [] m c)) \<and>
        (\<exists>base net. ParseCIDR c = Inr (base, net) \<and> net_ok net \<and> broadcast net \<in> set (gm_get [] m c))"
    if i: "i < length (rc_CIDRs rc)" for i
  proof -
    let ?c = "rc_CIDRs rc ! i"
    have c: "?c \<in> set (rc_CIDRs rc)" using i by simp
    obtain w b n where p: "ParseCIDR ?c = Inr (IPv4 w, Net4 b n)"
      "map_of (rc_NetCIDRByCIDR rc) ?c = Some (Net4 b n)"
      "\<forall>a \<in> set (gm_get [] (rc_ReservedIPsByCIDR rc) ?c). net_contains (Net4 b n) a"
      using cidrs_okE [OF ok c] .
    note e = entry [OF c p(1)]
    note nodes_in = getNodesIPsByCIDR_loop(1) [OF nodes, of _ ?c]
    have set: "set (gm_get [] m ?c) = set (gm_get [] m0 ?c) \<union> {IPv4 w, broadcast (Net4 b n)} \<union>
        set (gm_get [] (rc_ReservedIPsByCIDR rc) ?c) \<union> set (gm_get [] nodesIPs ?c)"
      using e by auto
    have cidr: "in_cidr ?c a \<longleftrightarrow> net_contains (Net4 b n) a" for a by (simp add: in_cidr_def p(1))
    have "in_cidr ?c a" if "a \<in> set (gm_get [] m ?c)" for a
      using that e p(2,3) nodes_in m0 unfolding set cidr
      by (fastforce simp: sorted_ip_ok_def)
    moreover have "a \<in> set (gm_get [] m ?c)" if a: "in_cidr ?c a" "taken rc [] i a" for a
    proof -
      have "a \<in> set (gm_get [] m0 ?c)" if n: "n \<in> set (rc_InitiallyAssignedNamespaces rc)"
        "ns_ips n \<noteq> None" "a = ns_addr n i" for n
        using sortIPsByCIDR_complete [OF sort n(1) _ i] n(2,3) by (auto simp: ns_addr_def Let_def)
      moreover have "a \<in> set (gm_get [] nodesIPs ?c)"
        if name: "name \<in> fst ` set (rc_AllNodes rc)" "a = host_ip_of rc name" for name
      proof -
        have "distinct (gm_keys (rc_AllNodes rc))" using ok by (simp add: cidrs_ok_def)
        then have "name \<in> set (range_order E 139 (gm_keys (rc_AllNodes rc)))"
          using range_lawsD(2) [OF laws(1)] name(1) by simp
        then show ?thesis
          using getNodesIPsByCIDR_loop(2) [OF nodes _ c p(2)] a(1) name(2) unfolding cidr by blast
      qed
      ultimately show ?thesis using a(2) unfolding set by (auto simp: taken_def p(1))
    qed
    ultimately show ?thesis using p(1) ParseCIDR_net_ok(3) [OF p(1)] set by (auto simp: Let_def)
  qed
  with m show ?thesis unfolding known_ok_def by simp
qed


lemma in_cidr_IPv4:
  assumes "ParseCIDR c = Inr (base, net)" "net_ok net" "in_cidr c a"
  shows "is_IPv4 a"
  using assms net_contains_IPv4 by (cases net) (fastforce simp: in_cidr_def net_ok_def)+

lemma taken_split: "taken rc infraIPs i a \<longleftrightarrow> taken rc [] i a \<or> a \<in> set (gm_get [] infraIPs (rc_CIDRs rc ! i))"
  by (auto simp: taken_def Let_def)

lemma known_ok_entry:
  assumes "known_ok rc m" "c \<in> set (rc_CIDRs rc)"
  shows "\<exists>base net. ParseCIDR c = Inr (base, net) \<and> net_ok net \<and> broadcast net \<in> set (gm_get [] m c) \<and>
    (\<forall>a \<in> set (gm_get [] m c). in_cidr c a)"
  using assms by (auto simp: known_ok_def Let_def in_set_conv_nth)

lemma usedIPsByCIDR_ok:
  fixes E m infraIPs
  defines "m' \<equiv> sortAll E (removeDuplicates E (appendIPs E 62 infraIPs m))"
  assumes laws: "range_laws E" "ipmath_laws E" "u32set_laws E" "strset_laws E"
    and m: "known_ok rc m" and infra: "used_ips_ok (rc_CIDRs rc) infraIPs"
  shows "alloc_inv m'" "fst ` set m' = set (rc_CIDRs rc)"
    and "i < length (rc_CIDRs rc) \<Longrightarrow> in_cidr (rc_CIDRs rc ! i) a \<Longrightarrow> taken rc infraIPs i a \<Longrightarrow>
      a \<in> set (gm_get [] m' (rc_CIDRs rc ! i))"
    and "c \<in> set (rc_CIDRs rc) \<Longrightarrow> set (gm_get [] m' c) = set (gm_get [] m c) \<union> set (gm_get [] infraIPs c)"
proof -
  let ?m1 = "appendIPs E 62 infraIPs m" let ?m2 = "removeDuplicates E ?m1"
  have k: "distinct (gm_keys m)" "fst ` set m = set (rc_CIDRs rc)" using m by (simp_all add: known_ok_def)
  have k1: "gm_keys ?m1 = gm_keys m" by (rule appendIPs_get(2) [OF laws(1) k(1)])
  then have d1: "distinct (gm_keys ?m1)" and f1: "fst ` set ?m1 = set (rc_CIDRs rc)"
    using k by (simp_all add: set_map [symmetric] del: set_map)
  note k2 = removeDuplicates_keys [OF laws(1) d1]
  have k3: "gm_keys m' = gm_keys ?m2" unfolding m'_def by (rule sortAll_get(2) [OF laws(1) k2(2)])
  show keys: "fst ` set m' = set (rc_CIDRs rc)" using k3 k2(1) f1 by (metis set_map)
  have entry: "sorted_wrt (<) (gm_get [] m' c) \<and>
      set (gm_get [] m' c) = set (gm_get [] m c) \<union> set (gm_get [] infraIPs c) \<and>
      (\<forall>a \<in> set (gm_get [] m' c). in_cidr c a)"
    if c: "c \<in> set (rc_CIDRs rc)" for c
  proof -
    let ?u = "set (gm_get [] m c) \<union> set (gm_get [] infraIPs c)"
    from known_ok_entry [OF m c] obtain base net where net: "ParseCIDR c = Inr (base, net)" "net_ok net"
      and known: "\<forall>a \<in> set (gm_get [] m c). in_cidr c a" by blast
    have in_u: "\<forall>a \<in> ?u. in_cidr c a" using known infra c by (auto simp: used_ips_ok_def)
    then have v4: "\<forall>a \<in> ?u. is_IPv4 a" using in_cidr_IPv4 [OF net] by blast
    have u1: "set (gm_get [] ?m1 c) = ?u" using c k(2) by (simp add: appendIPs_get(1) [OF laws(1) k(1)])
    then have u2: "set (gm_get [] ?m2 c) = ?u"
      using gm_get_removeDuplicates [OF laws(1,4) d1] v4 by blast
    have eq: "gm_get [] m' c = sortIPs E (gm_get [] ?m2 c)"
      unfolding m'_def by (rule sortAll_get(1) [OF laws(1) k2(2)]) (simp only: k2(1) f1 c)
    have "\<forall>a \<in> set (gm_get [] ?m2 c). is_IPv4 a" unfolding u2 by (rule v4)
    note srt = sortIPs_sorted [OF laws(2,3) this]
    show ?thesis unfolding eq srt(2) u2 using srt(1) in_u by blast
  qed
  show "alloc_inv m'"
    unfolding alloc_inv_def
  proof (intro conjI ballI)
    show "distinct (gm_keys m')" unfolding k3 by (rule k2(2))
    fix c assume "c \<in> set (gm_keys m')"
    then have c: "c \<in> set (rc_CIDRs rc)" using keys by simp
    from known_ok_entry [OF m c] entry [OF c]
    show "\<exists>base net. ParseCIDR c = Inr (base, net) \<and> alloc_ok net (gm_get [] m' c)"
      by (auto simp: alloc_ok_def in_cidr_def)
  qed
  show "a \<in> set (gm_get [] m' (rc_CIDRs rc ! i))"
    if i: "i < length (rc_CIDRs rc)" "in_cidr (rc_CIDRs rc ! i) a" and a: "taken rc infraIPs i a"
  proof -
    from a have "taken rc [] i a \<or> a \<in> set (gm_get [] infraIPs (rc_CIDRs rc ! i))"
      by (simp only: taken_split [of rc infraIPs])
    moreover have "taken rc [] i a \<Longrightarrow> a \<in> set (gm_get [] m (rc_CIDRs rc ! i))"
      using m i unfolding known_ok_def Let_def by blast
    ultimately show ?thesis using entry [of "rc_CIDRs rc ! i"] i(1) by auto
  qed
  show "set (gm_get [] m' c) = set (gm_get [] m c) \<union> set (gm_get [] infraIPs c)" if "c \<in> set (rc_CIDRs rc)"
    using entry [OF that] by blast
qed

section \<open>Assigning addresses to the unassigned namespaces\<close>

definition annotated :: "rcontext \<Rightarrow> namespace \<Rightarrow> (string, ip) gomap \<Rightarrow> namespace \<Rightarrow> bool" where
  "annotated rc n p n' \<longleftrightarrow> (\<exists>annotations.
     setAnnotation (ns_annotations n) NamespaceAssociationAnnotation
       (join_with (CHR '','') (map (\<lambda>cidr. IP_String (gm_get NilIP p cidr)) (rc_CIDRs rc))) = Inr annotations \<and>
     n' = n\<lparr>ns_annotations := annotations\<rparr>)"

lemma assignNamespace_Inr:
  assumes "assignNamespace E rc n (m, newly) h = (Inr (m', newly'), h')"
  obtains p n' where "getNextAvailableIPs E m = Inr (p, m')" "annotated rc n p n'" "newly' = newly @ [n']"
    "h' = h @ [(UpdateNamespace n', None)]"
  using assms
  by (auto simp: assignNamespace_def annotated_def Let_def perform_def split: sum.splits option.splits)

lemma assignNamespace_loop:
  assumes "go_for_w (assignNamespace E rc) ns (m, newly) h = (Inr (m', newly'), h')"
  shows "\<exists>ps ns'. draws (getNextAvailableIPs E) m ps m' \<and> newly' = newly @ ns' \<and>
    length ps = length ns \<and> length ns' = length ns \<and>
    (\<forall>i < length ns. annotated rc (ns ! i) (ps ! i) (ns' ! i)) \<and>
    h' = h @ map (\<lambda>n. (UpdateNamespace n, None)) ns'"
  using assms
proof (induction ns arbitrary: m newly h)
  case Nil
  then show ?case by (intro exI [of _ "[]"]) auto
next
  case (Cons n ns)
  from Cons.prems obtain m1 newly1 h1 where
    step: "assignNamespace E rc n (m, newly) h = (Inr (m1, newly1), h1)"
    and rest: "go_for_w (assignNamespace E rc) ns (m1, newly1) h1 = (Inr (m', newly'), h')"
    by (auto split: prod.splits sum.splits)
  from step obtain p n' where p: "getNextAvailableIPs E m = Inr (p, m1)" "annotated rc n p n'"
    "newly1 = newly @ [n']" "h1 = h @ [(UpdateNamespace n', None)]"
    by (rule assignNamespace_Inr)
  from Cons.IH [OF rest] obtain ps ns' where ih: "draws (getNextAvailableIPs E) m1 ps m'"
    "newly' = newly1 @ ns'" "length ps = length ns" "length ns' = length ns"
    "\<forall>i < length ns. annotated rc (ns ! i) (ps ! i) (ns' ! i)"
    "h' = h1 @ map (\<lambda>n. (UpdateNamespace n, None)) ns'" by blast
  have "annotated rc ((n # ns) ! i) ((p # ps) ! i) ((n' # ns') ! i)" if "i < length (n # ns)" for i
    using that ih(5) p(2) by (cases i) auto
  with ih p show ?case
    by (intro exI [of _ "p # ps"] exI [of _ "n' # ns'"]) (auto intro: draws_some)
qed

lemma annotated_facts:
  assumes "annotated rc n p n'" "i < length (rc_CIDRs rc)" "\<forall>c \<in> set (rc_CIDRs rc). is_IPv4 (gm_get NilIP p c)"
  shows "ns_addr n' i = gm_get NilIP p (rc_CIDRs rc ! i)"
    and "ns_name n' = ns_name n" and "ns_egressipam n' = ns_egressipam n"
proof -
  let ?strs = "map (\<lambda>cidr. IP_String (gm_get NilIP p cidr)) (rc_CIDRs rc)"
  from assms(1) obtain ann where ann: "setAnnotation (ns_annotations n) NamespaceAssociationAnnotation
      (join_with (CHR '','') ?strs) = Inr ann" and n': "n' = n\<lparr>ns_annotations := ann\<rparr>"
    by (auto simp: annotated_def)
  show "ns_name n' = ns_name n" "ns_egressipam n' = ns_egressipam n"
    by (simp_all add: n' ns_egressipam_def getAnnotation_set [OF ann])
  have ips: "ns_ips n' = Some (join_with (CHR '','') ?strs)"
    by (simp add: n' ns_ips_def getAnnotation_set [OF ann])
  have "split_on (CHR '','') (join_with (CHR '','') ?strs) = ?strs"
  proof (rule split_join)
    show "?strs \<noteq> []" using assms(2) by auto
    show "\<forall>f \<in> set ?strs. CHR '','' \<notin> set f"
      using assms(3) comma_not_in_String by (fastforce elim: is_IPv4.elims)
  qed
  moreover have "ParseIP (IP_String (gm_get NilIP p (rc_CIDRs rc ! i))) = gm_get NilIP p (rc_CIDRs rc ! i)"
    using assms(2) assms(3) [rule_format, OF nth_mem, of i] by (cases "gm_get NilIP p (rc_CIDRs rc ! i)") (simp_all del: IP_String.simps)
  ultimately show "ns_addr n' i = gm_get NilIP p (rc_CIDRs rc ! i)"
    using assms(2) by (simp add: ns_addr_def ips)
qed


lemma draws_annotated:
  assumes laws: "range_laws E" "ipmath_laws E" and inv: "alloc_inv m" and keys: "fst ` set m = set (rc_CIDRs rc)"
    and draws: "draws (getNextAvailableIPs E) m ps m'" and len: "length ps = length ns" "length ns' = length ns"
    and ann: "\<forall>j < length ns. annotated rc (ns ! j) (ps ! j) (ns' ! j)"
    and i: "i < length (rc_CIDRs rc)"
  shows "map (\<lambda>n. ns_addr n i) ns' = map (\<lambda>p. gm_get NilIP p (rc_CIDRs rc ! i)) ps"
    and "map ns_name ns' = map ns_name ns"
proof -
  have ipam: "range_laws E \<and> ipmath_laws E \<and> alloc_inv m" using laws inv by simp
  have v4: "is_IPv4 (gm_get NilIP p c)" if p: "p \<in> set ps" "c \<in> set (rc_CIDRs rc)" for p c
  proof -
    obtain base net where "ParseCIDR c = Inr (base, net)" "net_ok net"
      using inv keys p(2) by (auto simp: alloc_inv_def alloc_ok_def)
    moreover have "in_cidr c (gm_get NilIP p c)"
      using ipam.draws_distinct(2) [OF draws ipam, of c] keys p by auto
    ultimately show ?thesis by (rule in_cidr_IPv4)
  qed
  have "ns_addr (ns' ! j) i = gm_get NilIP (ps ! j) (rc_CIDRs rc ! i) \<and> ns_name (ns' ! j) = ns_name (ns ! j)"
    if "j < length ns" for j
    using annotated_facts [OF ann [rule_format, OF that] i] v4 [of "ps ! j"] that len by simp
  then show "map (\<lambda>n. ns_addr n i) ns' = map (\<lambda>p. gm_get NilIP p (rc_CIDRs rc ! i)) ps"
    and "map ns_name ns' = map ns_name ns"
    using len by (auto intro: nth_equalityI)
qed

lemma assignIPsToNamespaces_Inr:
  assumes "range_laws E" "ipmath_laws E" "u32set_laws E" "strset_laws E" and "cidrs_ok rc"
    and "GetUsedIPsByCIDR infra rc h = (Inr infraIPs, h1)" and "used_ips_ok (rc_CIDRs rc) infraIPs"
    and "assignIPsToNamespaces E infra rc h = (Inr newly, h2)" and "i < length (rc_CIDRs rc)"
  shows "map ns_name newly = map ns_name (rc_UnAssignedNamespaces rc) \<and>
    h2 = h1 @ map (\<lambda>n. (UpdateNamespace n, None)) newly \<and>
    distinct (map (\<lambda>n. ns_addr n i) newly) \<and>
    (\<forall>n \<in> set newly. in_cidr (rc_CIDRs rc ! i) (ns_addr n i) \<and> \<not> taken rc infraIPs i (ns_addr n i))"
proof -
  let ?c = "rc_CIDRs rc ! i" and ?uns = "rc_UnAssignedNamespaces rc"
  from assms(6,8) obtain m mf where known: "knownIPsByCIDR E rc = Inr m"
    and loop: "go_for_w (assignNamespace E rc) ?uns
      (sortAll E (removeDuplicates E (appendIPs E 62 infraIPs m)), []) h1 = (Inr (mf, newly), h2)"
    by (auto simp: assignIPsToNamespaces_def Let_def split: sum.splits prod.splits)
  note used = usedIPsByCIDR_ok [OF assms(1-4) knownIPsByCIDR_ok [OF assms(1,2,5) known] assms(7)]
  from assignNamespace_loop [OF loop] obtain ps where
    draws: "draws (getNextAvailableIPs E) (sortAll E (removeDuplicates E (appendIPs E 62 infraIPs m))) ps mf"
    and len: "length ps = length ?uns" "length newly = length ?uns"
    and ann: "\<forall>j < length ?uns. annotated rc (?uns ! j) (ps ! j) (newly ! j)"
    and h2: "h2 = h1 @ map (\<lambda>n. (UpdateNamespace n, None)) newly" by auto
  note addr = draws_annotated [OF assms(1,2) used(1,2) draws len ann assms(9)]
  have inv: "range_laws E \<and> ipmath_laws E \<and>
      alloc_inv (sortAll E (removeDuplicates E (appendIPs E 62 infraIPs m)))"
    using assms(1,2) used(1) by simp
  have "?c \<in> set (gm_keys (sortAll E (removeDuplicates E (appendIPs E 62 infraIPs m))))"
    using used(2) assms(9) by simp
  note facts = ipam.draws_distinct(1,2) [OF draws inv this]
  have "distinct (map (\<lambda>n. ns_addr n i) newly)" unfolding addr(1) by (rule facts(1))
  moreover have "in_cidr ?c a \<and> \<not> taken rc infraIPs i a" if "a \<in> set (map (\<lambda>n. ns_addr n i) newly)" for a
    using that facts(2) used(3) [OF assms(9)] unfolding addr(1) by auto
  ultimately show ?thesis using addr(2) h2 by auto
qed


text \<open>
  C5. No address is given twice. When \<open>assignIPsToNamespaces\<close> returns, every namespace that
  had no addresses has been updated, once and in order, and for every CIDR of the EgressIPAM
  the addresses that were handed out are pairwise different, lie in the network of the CIDR
  and were not taken before: not held by another namespace, not the address or the broadcast
  address of the CIDR, not reserved, not a node's, not in use according to the platform.
\<close>

theorem assignIPsToNamespaces_no_double_assignment:
  assumes "range_laws E" "ipmath_laws E" "u32set_laws E" "strset_laws E" and "cidrs_ok rc"
    and "GetUsedIPsByCIDR infra rc h = (Inr infraIPs, h1)" and "used_ips_ok (rc_CIDRs rc) infraIPs"
    and "assignIPsToNamespaces E infra rc h = (Inr newly, h2)" and "i < length (rc_CIDRs rc)"
  shows "map ns_name newly = map ns_name (rc_UnAssignedNamespaces rc) \<and>
    h2 = h1 @ map (\<lambda>n. (UpdateNamespace n, None)) newly \<and>
    distinct (map (\<lambda>n. ns_addr n i) newly) \<and>
    (\<forall>n \<in> set newly. in_cidr (rc_CIDRs rc ! i) (ns_addr n i) \<and> \<not> taken rc infraIPs i (ns_addr n i))"
  using assms by (rule assignIPsToNamespaces_Inr)

text \<open>
  C9. The next available address. On a list of addresses in use that is strictly increasing,
  within the network and holds the broadcast address, \<open>getNextAvailableIP\<close> returns the least
  address of the network that is not in use, with the list it was inserted into, which is
  such a list again; it fails exactly when the network is exhausted, with the message that
  says so, never with "we should never get here". (The README speaks of a random address; the
  code has no random choice.)
\<close>

theorem getNextAvailableIP_correct:
  assumes "ipmath_laws E" "size_law E" "ParseCIDR c = Inr (base, net)" "alloc_ok net xs"
  shows "case getNextAvailableIP E c xs of
      Inl e \<Rightarrow> e = ErrNew (''no more available IPs in this CIDR: '' @ net_String net) \<and>
        (\<forall>a. net_contains net a \<longrightarrow> a \<in> set xs)
    | Inr (a, ys) \<Rightarrow> a \<notin> set xs \<and> net_contains net a \<and>
        (\<forall>d. net_contains net d \<longrightarrow> d < a \<longrightarrow> d \<in> set xs) \<and>
        alloc_ok net ys \<and> set ys = insert a (set xs)"
proof (cases "getNextAvailableIP E c xs")
  case (Inl e)
  with getNextAvailableIP_Inl [OF assms, of e] show ?thesis by simp
next
  case (Inr r)
  obtain a ys where "r = (a, ys)" by (cases r)
  with getNextAvailableIP_Inr [OF assms(1,3,4), of a ys] Inr show ?thesis by simp
qed

lemma getNextAvailableIPs_Inl:
  assumes "getNextAvailableIPs E m = Inl e" "range_laws E" "distinct (gm_keys m)"
  shows "\<exists>c \<in> fst ` set m. getNextAvailableIP E c (gm_get [] m c) = Inl e"
proof -
  have "\<exists>c \<in> set ks. getNextAvailableIP E c (gm_get [] m c) = Inl e"
    if "go_for (\<lambda>cidr (assignedIPs, m). case getNextAvailableIP E cidr (gm_get [] m cidr) of
          Inl e \<Rightarrow> Inl e
        | Inr (assignedIP, newIPs) \<Rightarrow> Inr (gm_put cidr assignedIP assignedIPs, gm_put cidr newIPs m))
        ks (p, m) = Inl e" "distinct ks" for ks p m
    using that
  proof (induction ks arbitrary: p m)
    case (Cons k ks)
    show ?case
    proof (cases "getNextAvailableIP E k (gm_get [] m k)")
      case (Inr r)
      then obtain a xs where r: "getNextAvailableIP E k (gm_get [] m k) = Inr (a, xs)" by (cases r) auto
      with Cons.IH [of "gm_put k a p" "gm_put k xs m"] Cons.prems
      obtain c where "c \<in> set ks" "getNextAvailableIP E c (gm_get [] (gm_put k xs m) c) = Inl e" by auto
      moreover from this Cons.prems(2) have "c \<noteq> k" by auto
      ultimately show ?thesis by (auto simp: gm_get_put)
    qed (use Cons.prems in auto)
  qed simp
  from this [OF assms(1) [unfolded getNextAvailableIPs_def]] range_lawsD [OF assms(2,3)]
  show ?thesis by auto
qed

lemma getNextAvailableIPs_free:
  assumes "range_laws E" "ipmath_laws E" "size_law E" "alloc_inv m"
  shows "(\<exists>p m'. getNextAvailableIPs E m = Inr (p, m')) \<longleftrightarrow>
    (\<forall>c \<in> set (gm_keys m). \<exists>a. in_cidr c a \<and> a \<notin> set (gm_get [] m c))"
proof
  assume "\<exists>p m'. getNextAvailableIPs E m = Inr (p, m')"
  then show "\<forall>c \<in> set (gm_keys m). \<exists>a. in_cidr c a \<and> a \<notin> set (gm_get [] m c)"
    using getNextAvailableIPs_step(3) [OF assms(1,2,4)] by fastforce
next
  assume free: "\<forall>c \<in> set (gm_keys m). \<exists>a. in_cidr c a \<and> a \<notin> set (gm_get [] m c)"
  show "\<exists>p m'. getNextAvailableIPs E m = Inr (p, m')"
  proof (cases "getNextAvailableIPs E m")
    case (Inl e)
    have "distinct (gm_keys m)" using assms(4) by (simp add: alloc_inv_def)
    from getNextAvailableIPs_Inl [OF Inl assms(1) this] obtain c where c: "c \<in> fst ` set m"
      "getNextAvailableIP E c (gm_get [] m c) = Inl e" by blast
    then obtain base net where net: "ParseCIDR c = Inr (base, net)" "alloc_ok net (gm_get [] m c)"
      using assms(4) by (auto simp: alloc_inv_def)
    have "\<forall>a. in_cidr c a \<longrightarrow> a \<in> set (gm_get [] m c)"
      using getNextAvailableIP_Inl [OF assms(2,3) net, of e] c(2) net(1) by (simp add: in_cidr_def)
    with c(1) free show ?thesis by fastforce
  qed auto
qed

text \<open>
  C21. Liveness of the allocation: a namespace gets its addresses exactly when every CIDR has
  an address that is not in use.
\<close>

theorem getNextAvailableIPs_succeeds_iff:
  assumes "range_laws E" "ipmath_laws E" "size_law E" "alloc_inv m"
  shows "(\<exists>p m'. getNextAvailableIPs E m = Inr (p, m')) \<longleftrightarrow>
    (\<forall>c \<in> set (gm_keys m). \<exists>a. in_cidr c a \<and> a \<notin> set (gm_get [] m c))"
  using assms by (rule getNextAvailableIPs_free)

text \<open>
  \<open>sortIPs\<close> keeps exactly the addresses of an IPv4 list; what it returns is strictly
  increasing, and depends on the set of addresses only, not on their order or on the order
  in which the sets of \<open>go-set\<close> list their elements.
\<close>

lemma sortIPs_canonical:
  assumes "ipmath_laws E" "u32set_laws E" "ipmath_laws E'" "u32set_laws E'"
    and "\<forall>a \<in> set ips. is_IPv4 a" and "set ips' = set ips"
  shows "sorted_wrt (<) (sortIPs E ips) \<and> set (sortIPs E ips) = set ips \<and> sortIPs E' ips' = sortIPs E ips"
proof -
  have v4': "\<forall>a \<in> set ips'. is_IPv4 a" using assms(5,6) by simp
  note s = sortIPs_sorted [OF assms(1,2,5)] and s' = sortIPs_sorted [OF assms(3,4) v4']
  have "sortIPs E' ips' = sortIPs E ips"
    by (rule sorted_distinct_set_unique) (use s s' assms(6) in \<open>simp_all add: strict_sorted_iff\<close>)
  with s show ?thesis by simp
qed


section \<open>Witnesses\<close>

lemma example_cidrs_ok: "cidrs_ok example_rc"
  by code_simp

lemma example_assignment:
  "assignIPsToNamespaces example_env BareMetalInfra example_rc [] =
     (let ns2 = example_ns ''ns2'' (Some ''10.0.0.4,10.0.1.3''); ns3 = example_ns ''ns3'' (Some ''10.0.0.5,10.0.1.4'')
      in (Inr [ns2, ns3], [(UpdateNamespace ns2, None), (UpdateNamespace ns3, None)]))"
  by code_simp


theorem assignIPsToNamespaces_no_double_assignment_witness:
  "case assignIPsToNamespaces example_env BareMetalInfra example_rc [] of
     (Inr newly, h2) \<Rightarrow> map ns_name newly = [''ns2'', ''ns3''] \<and>
       distinct (map (\<lambda>n. ns_addr n 1) newly) \<and>
       (\<forall>n \<in> set newly. in_cidr ''10.0.1.0/29'' (ns_addr n 1) \<and> \<not> taken example_rc [] 1 (ns_addr n 1))
   | _ \<Rightarrow> False"
proof -
  have "used_ips_ok (rc_CIDRs example_rc) (fold (\<lambda>cidr. gm_put cidr []) (rc_CIDRs example_rc) [])"
    by code_simp
  note at_example = assignIPsToNamespaces_no_double_assignment [OF example_env_laws(1,3,5,6) example_cidrs_ok
      BareMetal_used this example_assignment [unfolded Let_def], where i = 1]
  have rc: "rc_CIDRs example_rc ! 1 = ''10.0.1.0/29''" "1 < length (rc_CIDRs example_rc)"
    "map ns_name (rc_UnAssignedNamespaces example_rc) = [''ns2'', ''ns3'']"
    "gm_get [] (fold (\<lambda>cidr. gm_put cidr []) (rc_CIDRs example_rc) []) ''10.0.1.0/29'' = ([] :: ip list)"
    by code_simp+
  have infra: "taken example_rc (fold (\<lambda>cidr. gm_put cidr []) (rc_CIDRs example_rc) []) 1 a = taken example_rc [] 1 a"
    for a
    by (subst taken_split) (simp only: rc(1,4) list.set empty_iff simp_thms)
  show ?thesis
    using at_example [OF rc(2)]
    by (simp only: example_assignment Let_def rc(1,3) infra prod.case sum.case simp_thms) blast
qed

theorem getNextAvailableIP_correct_witness:
  "case getNextAvailableIP example_env ''10.0.0.0/30'' [IPv4 0x0A000000, IPv4 0x0A000002, IPv4 0x0A000003] of
     Inl e \<Rightarrow> False
   | Inr (a, ys) \<Rightarrow> a = IPv4 0x0A000001 \<and> alloc_ok (Net4 0x0A000000 30) ys"
proof -
  have facts: "ParseCIDR ''10.0.0.0/30'' = Inr (IPv4 0x0A000000, Net4 0x0A000000 30)"
    "alloc_ok (Net4 0x0A000000 30) [IPv4 0x0A000000, IPv4 0x0A000002, IPv4 0x0A000003]"
    "getNextAvailableIP example_env ''10.0.0.0/30'' [IPv4 0x0A000000, IPv4 0x0A000002, IPv4 0x0A000003] =
       Inr (IPv4 0x0A000001, [IPv4 0x0A000000, IPv4 0x0A000001, IPv4 0x0A000002, IPv4 0x0A000003])"
    by code_simp+
  show ?thesis
    using getNextAvailableIP_correct [OF example_env_laws(3,4) facts(1,2)]
    by (simp only: facts(3) sum.case prod.case simp_thms)
qed

theorem getNextAvailableIPs_succeeds_iff_witness:
  "\<not> (\<exists>p m'. getNextAvailableIPs example_env [(''10.0.0.0/31'', [IPv4 0x0A000000, IPv4 0x0A000001])] = Inr (p, m')) \<and>
   (\<exists>c \<in> {''10.0.0.0/31''}. \<forall>a. in_cidr c a \<longrightarrow> a \<in> {IPv4 0x0A000000, IPv4 0x0A000001})"
proof -
  let ?m = "[(''10.0.0.0/31'', [IPv4 0x0A000000, IPv4 0x0A000001])]"
  have "alloc_inv ?m"
  proof -
    have "ParseCIDR ''10.0.0.0/31'' = Inr (IPv4 0x0A000000, Net4 0x0A000000 31)"
      "alloc_ok (Net4 0x0A000000 31) (gm_get [] ?m ''10.0.0.0/31'')" by code_simp+
    then show ?thesis unfolding alloc_inv_def by (simp only: list.map list.set fst_conv distinct.simps) blast
  qed
  note at_example = getNextAvailableIPs_succeeds_iff [OF example_env_laws(1,3,4) this]
  have fail: "getNextAvailableIPs example_env ?m = Inl (ErrNew ''no more available IPs in this CIDR: 10.0.0.0/31'')"
    "gm_get [] ?m ''10.0.0.0/31'' = [IPv4 0x0A000000, IPv4 0x0A000001]"
    by code_simp+
  with at_example show ?thesis by auto
qed

end
