(* ===== verification/NodeAssignment.thy ===== *)
theory NodeAssignment
  imports Allocation
begin

text \<open>
  \<open>controllers/egressipam/ipam.go\<close>, lines 176 to 333: which node carries which egress
  address. Addresses that a ready node already carries stay there as long as a namespace
  holds them; every other address of a namespace goes to a ready node of its CIDR that
  carries the fewest addresses at that moment. The code finds such a node through buckets,
  one list of nodes per number of addresses; the abstract specification is \<open>placements\<close>,
  which speaks of loads only.
\<close>

section \<open>Operations\<close>

type_synonym ips_by = "(string, string list) gomap"
type_synonym buckets = "(int, string list) gomap"

text \<open>
  Lines 196 to 209 and 212 to 231 have the same shape: for each element a list of addresses,
  and for each CIDR those of them that lie in it are appended to the list of the CIDR.
\<close>

definition add_contained :: "string list \<Rightarrow> (string \<Rightarrow> string) \<Rightarrow> string \<Rightarrow> string list \<Rightarrow> err + string list" where
  "add_contained ips shown cidrstr assigned =
     (case ParseCIDR cidrstr of
        Inl e \<Rightarrow> Inl e
      | Inr (_, cidr) \<Rightarrow> Inr (assigned @ map shown (filter (\<lambda>ip. net_contains cidr (ParseIP ip)) ips)))"

definition collect_by_cidr ::
  "goenv \<Rightarrow> nat \<Rightarrow> ('a \<Rightarrow> err + string list) \<Rightarrow> (string \<Rightarrow> string) \<Rightarrow> string list \<Rightarrow> 'a list \<Rightarrow> err + ips_by" where
  "collect_by_cidr E line ipsof shown cidrs xs =
     go_for (\<lambda>x m. bind_err (ipsof x) (\<lambda>ips.
         range_update [] (add_contained ips shown) (range_order E line (gm_keys m)) m))
       xs (empty_by_cidr cidrs)"

definition nodeIPsByCIDR :: "goenv \<Rightarrow> rcontext \<Rightarrow> err + ips_by" where
  "nodeIPsByCIDR E rc =
     collect_by_cidr E 197 (\<lambda>node. Inr (gm_get [] (rc_InitiallyAssignedIPsByNode rc) node)) id (rc_CIDRs rc)
       (range_order E 196 (gm_keys (rc_InitiallyAssignedIPsByNode rc)))"

definition namespace_ips :: "namespace \<Rightarrow> err + string list" where
  "namespace_ips n =
     (case ns_ips n of
        None \<Rightarrow> Inl (ErrNew (''unable to find ips in namespace'' @ ns_name n))
      | Some ipsstr \<Rightarrow> Inr (split_on (CHR '','') ipsstr))"

definition namespaceIPsByCIDR :: "goenv \<Rightarrow> rcontext \<Rightarrow> err + ips_by" where
  "namespaceIPsByCIDR E rc =
     collect_by_cidr E 218 namespace_ips (\<lambda>ip. IP_String (ParseIP ip)) (rc_CIDRs rc)
       (rc_FinallyAssignedNamespaces rc)"

text \<open>Lines 234 to 243: the addresses still to be placed, and those that stay where they are.\<close>

definition toBeAssigned :: "goenv \<Rightarrow> string list \<Rightarrow> ips_by \<Rightarrow> ips_by \<Rightarrow> ips_by" where
  "toBeAssigned E cidrs nodeIPs nsIPs =
     fold (\<lambda>cidr. gm_put cidr (str_difference E (gm_get [] nsIPs cidr) (gm_get [] nodeIPs cidr)))
       (range_order E 234 (gm_keys nsIPs)) (empty_by_cidr cidrs)"

definition stillAssigned :: "goenv \<Rightarrow> ips_by \<Rightarrow> ips_by \<Rightarrow> ips_by" where
  "stillAssigned E nodeIPs nsIPs =
     fold (\<lambda>cidr m. gm_put cidr (str_intersection E (gm_get [] m cidr) (gm_get [] nsIPs cidr)) m)
       (range_order E 241 (gm_keys nsIPs)) nodeIPs"

text \<open>Lines 247 to 258: by node again.\<close>

definition keep_on_node :: "rcontext \<Rightarrow> string \<Rightarrow> string \<Rightarrow> ips_by \<Rightarrow> ips_by" where
  "keep_on_node rc assignedIP node m =
     fold (\<lambda>ip m. if assignedIP = ip then gm_put node (gm_get [] m node @ [assignedIP]) m else m)
       (gm_get [] (rc_InitiallyAssignedIPsByNode rc) node) m"

definition keptIPsByNode :: "goenv \<Rightarrow> rcontext \<Rightarrow> ips_by \<Rightarrow> ips_by" where
  "keptIPsByNode E rc still =
     fold (\<lambda>cidr. fold (\<lambda>assignedIP.
         fold (keep_on_node rc assignedIP) (range_order E 250 (gm_keys (rc_InitiallyAssignedIPsByNode rc))))
         (gm_get [] still cidr))
       (range_order E 248 (gm_keys still)) []"

text \<open>Lines 268 to 276: the ready nodes of every CIDR by the number of their addresses.\<close>

definition node_ready :: "rcontext \<Rightarrow> string \<Rightarrow> bool" where
  "node_ready rc node = (case map_of (rc_AllNodes rc) node of None \<Rightarrow> False | Some n \<Rightarrow> is_ready n)"

definition add_to_bucket :: "rcontext \<Rightarrow> ips_by \<Rightarrow> string \<Rightarrow> buckets \<Rightarrow> buckets" where
  "add_to_bucket rc new node b =
     (if node_ready rc node then
        let k = int (length (gm_get [] new node)) in gm_put k (gm_get [] b k @ [node]) b
      else b)"

definition nodesByNumber :: "goenv \<Rightarrow> rcontext \<Rightarrow> ips_by \<Rightarrow> (string, buckets) gomap" where
  "nodesByNumber E rc new =
     fold (\<lambda>cidr. gm_put cidr (fold (add_to_bucket rc new) (gm_get [] (rc_SelectedNodesByCIDR rc) cidr) []))
       (range_order E 269 (gm_keys (rc_SelectedNodesByCIDR rc))) []"

text \<open>
  The order of the \<open>range\<close> of line 323 does not matter: the numbers are sorted.
\<close>

definition getMinKey :: "buckets \<Rightarrow> int" where
  "getMinKey nodemap =
     (let numbers = map fst (filter (\<lambda>(n, nodes). 0 < length nodes) nodemap) in
      if length numbers = 0 then -1 else hd (sort numbers))"

text \<open>Lines 282 to 299, one address of a CIDR.\<close>

definition assign_to_least ::
  "string \<Rightarrow> string \<Rightarrow> ips_by \<times> (string, buckets) gomap \<Rightarrow> err + ips_by \<times> (string, buckets) gomap" where
  "assign_to_least cidr ip = (\<lambda>(new, byCIDR).
     let minIPsPerNode = getMinKey (gm_get [] byCIDR cidr) in
     if minIPsPerNode = -1 then Inl (ErrNew (''Unable to find nodes for CIDR'' @ cidr))
     else
       let node = hd (gm_get [] (gm_get [] byCIDR cidr) minIPsPerNode);
           new' = gm_put node (gm_get [] new node @ [ip]) new;
           b1 = gm_put minIPsPerNode (tl (gm_get [] (gm_get [] byCIDR cidr) minIPsPerNode)) (gm_get [] byCIDR cidr);
           b2 = gm_put (minIPsPerNode + 1) (gm_get [] b1 (minIPsPerNode + 1) @ [node]) b1
       in Inr (new', gm_put cidr b2 byCIDR))"

definition placeIPs ::
  "goenv \<Rightarrow> ips_by \<Rightarrow> ips_by \<times> (string, buckets) gomap \<Rightarrow> err + ips_by \<times> (string, buckets) gomap" where
  "placeIPs E toBe s =
     go_for (\<lambda>cidr. go_for (assign_to_least cidr) (gm_get [] toBe cidr)) (range_order E 281 (gm_keys toBe)) s"

text \<open>Lines 304 to 316: every node gets an entry.\<close>

definition add_idle :: "goenv \<Rightarrow> (string, buckets) gomap \<Rightarrow> ips_by \<Rightarrow> ips_by" where
  "add_idle E byCIDR new =
     fold (\<lambda>cidr. fold (\<lambda>node. gm_put node []) (gm_get [] (gm_get [] byCIDR cidr) 0))
       (range_order E 304 (gm_keys byCIDR)) new"

definition add_not_ready :: "goenv \<Rightarrow> rcontext \<Rightarrow> ips_by \<Rightarrow> ips_by" where
  "add_not_ready E rc new =
     fold (\<lambda>nodeName m. if is_ready (gm_get zero_node (rc_SelectedNodes rc) nodeName) then m
       else gm_put nodeName [] m) (range_order E 312 (gm_keys (rc_SelectedNodes rc))) new"

definition assignIPsToNodes :: "goenv \<Rightarrow> rcontext \<Rightarrow> err + ips_by" where
  "assignIPsToNodes E rc =
     bind_err (nodeIPsByCIDR E rc) (\<lambda>nodeIPs.
     bind_err (namespaceIPsByCIDR E rc) (\<lambda>nsIPs.
       let toBe = toBeAssigned E (rc_CIDRs rc) nodeIPs nsIPs;
           still = stillAssigned E nodeIPs nsIPs;
           new = keptIPsByNode E rc still
       in bind_err (placeIPs E toBe (new, nodesByNumber E rc new)) (\<lambda>(new', byCIDR).
          Inr (add_not_ready E rc (add_idle E byCIDR new')))))"

section \<open>The least bucket\<close>

lemma getMinKey_least:
  assumes "distinct (gm_keys b)" and "\<forall>k. gm_get [] b k \<noteq> [] \<longrightarrow> 0 \<le> k"
  shows "getMinKey b = -1 \<longleftrightarrow> (\<forall>k. gm_get [] b k = [])"
    and "getMinKey b \<noteq> -1 \<Longrightarrow> gm_get [] b (getMinKey b) \<noteq> [] \<and> (\<forall>k. gm_get [] b k \<noteq> [] \<longrightarrow> getMinKey b \<le> k)"
proof -
  let ?ns = "map fst (filter (\<lambda>(n, nodes). 0 < length nodes) b)"
  have mem: "k \<in> set ?ns \<longleftrightarrow> gm_get [] b k \<noteq> []" for k
  proof -
    have "gm_get [] b k \<noteq> [] \<longleftrightarrow> (\<exists>v. map_of b k = Some v \<and> v \<noteq> [])"
      by (auto simp: gm_get_def split: option.splits)
    also have "\<dots> \<longleftrightarrow> (\<exists>v. (k, v) \<in> set b \<and> v \<noteq> [])" using assms(1) by simp
    finally show ?thesis by force
  qed
  have least: "hd (sort ?ns) \<in> set ?ns \<and> (\<forall>k \<in> set ?ns. hd (sort ?ns) \<le> k)" if ne: "?ns \<noteq> []"
  proof -
    obtain x xs where s: "sort ?ns = x # xs" using ne by (metis list.exhaust length_0_conv length_sort)
    have "sorted (x # xs)" unfolding s [symmetric] by simp
    then have "\<forall>k \<in> set (x # xs). x \<le> k" by simp
    moreover have "set (x # xs) = set ?ns" unfolding s [symmetric] by simp
    ultimately show ?thesis unfolding s list.sel by (metis list.set_intros(1))
  qed
  have eq: "getMinKey b = (if ?ns = [] then -1 else hd (sort ?ns))" by (simp add: getMinKey_def Let_def)
  have ns: "?ns = [] \<longleftrightarrow> (\<forall>k. gm_get [] b k = [])"
  proof -
    have "?ns = [] \<longleftrightarrow> (\<forall>k. k \<notin> set ?ns)" by (metis list.set_intros(1) list.exhaust empty_iff list.set(1))
    then show ?thesis unfolding mem by blast
  qed
  show "getMinKey b = -1 \<longleftrightarrow> (\<forall>k. gm_get [] b k = [])"
  proof (cases "?ns = []")
    case False
    then have "0 \<le> hd (sort ?ns)" using least assms(2) mem by blast
    moreover have "getMinKey b = hd (sort ?ns)" using eq False by (simp only: if_False)
    ultimately have "getMinKey b \<noteq> -1" by linarith
    with False ns show ?thesis by blast
  qed (use eq ns in simp)
  show "getMinKey b \<noteq> -1 \<Longrightarrow> gm_get [] b (getMinKey b) \<noteq> [] \<and> (\<forall>k. gm_get [] b k \<noteq> [] \<longrightarrow> getMinKey b \<le> k)"
    using least mem eq by (metis (no_types, lifting))
qed

section \<open>The buckets implement least-loaded placement\<close>

definition ready_nodes :: "rcontext \<Rightarrow> string \<Rightarrow> string set" where
  "ready_nodes rc c = {n \<in> set (gm_get [] (rc_SelectedNodesByCIDR rc) c). node_ready rc n}"

text \<open>
  The specification: the addresses are placed one after the other, each on a node of its
  CIDR that carries no more addresses than any other node of the CIDR does.
\<close>

inductive placements ::
  "(string \<Rightarrow> string set) \<Rightarrow> (string \<times> string) list \<Rightarrow> (string \<Rightarrow> string list) \<Rightarrow> (string \<Rightarrow> string list) \<Rightarrow> bool"
  for ready where
  placements_none: "placements ready [] L L"
| placements_some: "n \<in> ready c \<Longrightarrow> \<forall>n' \<in> ready c. length (L n) \<le> length (L n') \<Longrightarrow>
    placements ready xs (L(n := L n @ [ip])) L' \<Longrightarrow> placements ready ((c, ip) # xs) L L'"

text \<open>What \<open>loadReconcileContext\<close> establishes: a node belongs to at most one CIDR.\<close>

definition node_lists_ok :: "rcontext \<Rightarrow> bool" where
  "node_lists_ok rc \<longleftrightarrow> distinct (gm_keys (rc_SelectedNodesByCIDR rc)) \<and>
     (\<forall>c. distinct (gm_get [] (rc_SelectedNodesByCIDR rc) c)) \<and>
     (\<forall>c c'. c \<noteq> c' \<longrightarrow>
       set (gm_get [] (rc_SelectedNodesByCIDR rc) c) \<inter> set (gm_get [] (rc_SelectedNodesByCIDR rc) c') = {})"

definition buckets_ok :: "rcontext \<Rightarrow> ips_by \<Rightarrow> (string, buckets) gomap \<Rightarrow> bool" where
  "buckets_ok rc new byCIDR \<longleftrightarrow> (\<forall>c. distinct (gm_keys (gm_get [] byCIDR c)) \<and>
     (\<forall>k. distinct (gm_get [] (gm_get [] byCIDR c) k) \<and>
        set (gm_get [] (gm_get [] byCIDR c) k) = {n \<in> ready_nodes rc c. int (length (gm_get [] new n)) = k}))"

lemma buckets_okD:
  assumes "buckets_ok rc new byCIDR"
  shows "distinct (gm_keys (gm_get [] byCIDR c))" "distinct (gm_get [] (gm_get [] byCIDR c) k)"
    "n \<in> set (gm_get [] (gm_get [] byCIDR c) k) \<longleftrightarrow> n \<in> ready_nodes rc c \<and> int (length (gm_get [] new n)) = k"
  using assms by (simp_all add: buckets_ok_def)

lemma buckets_min:
  assumes ok: "buckets_ok rc new byCIDR"
  shows "getMinKey (gm_get [] byCIDR c) = -1 \<longleftrightarrow> ready_nodes rc c = {}"
    and "ready_nodes rc c \<noteq> {} \<Longrightarrow> \<exists>n rest. gm_get [] (gm_get [] byCIDR c) (getMinKey (gm_get [] byCIDR c)) = n # rest \<and>
      n \<in> ready_nodes rc c \<and> getMinKey (gm_get [] byCIDR c) = int (length (gm_get [] new n)) \<and>
      (\<forall>n' \<in> ready_nodes rc c. length (gm_get [] new n) \<le> length (gm_get [] new n'))"
proof -
  let ?b = "gm_get [] byCIDR c"
  note ok = buckets_okD [OF ok]
  have ne: "gm_get [] ?b k \<noteq> [] \<longleftrightarrow> (\<exists>n \<in> ready_nodes rc c. int (length (gm_get [] new n)) = k)" for k
  proof -
    have "gm_get [] ?b k \<noteq> [] \<longleftrightarrow> (\<exists>n. n \<in> set (gm_get [] ?b k))" by (metis hd_in_set empty_iff list.set(1))
    then show ?thesis unfolding ok(3) by blast
  qed
  have "\<forall>k. gm_get [] ?b k \<noteq> [] \<longrightarrow> 0 \<le> k" unfolding ne by auto
  note least = getMinKey_least [OF ok(1) this]
  show min: "getMinKey ?b = -1 \<longleftrightarrow> ready_nodes rc c = {}"
    unfolding least(1) using ne by blast
  assume "ready_nodes rc c \<noteq> {}"
  with min have "getMinKey ?b \<noteq> -1" by blast
  note least = least(2) [OF this]
  then obtain n rest where b: "gm_get [] ?b (getMinKey ?b) = n # rest" by (cases "gm_get [] ?b (getMinKey ?b)") auto
  then have n: "n \<in> ready_nodes rc c" "getMinKey ?b = int (length (gm_get [] new n))"
    using ok(3) [of n c "getMinKey ?b"] by auto
  have "length (gm_get [] new n) \<le> length (gm_get [] new n')" if "n' \<in> ready_nodes rc c" for n'
  proof -
    have "gm_get [] ?b (int (length (gm_get [] new n'))) \<noteq> []" unfolding ne using that by blast
    with least n(2) show ?thesis by fastforce
  qed
  with b n show "\<exists>n rest. gm_get [] ?b (getMinKey ?b) = n # rest \<and>
      n \<in> ready_nodes rc c \<and> getMinKey ?b = int (length (gm_get [] new n)) \<and>
      (\<forall>n' \<in> ready_nodes rc c. length (gm_get [] new n) \<le> length (gm_get [] new n'))" by blast
qed

lemma ready_nodes_disjoint:
  assumes "node_lists_ok rc" "n \<in> ready_nodes rc c" "n \<in> ready_nodes rc c'"
  shows "c = c'"
  using assms unfolding node_lists_ok_def ready_nodes_def by blast

lemma assign_to_least_step:
  assumes lists: "node_lists_ok rc" and ok: "buckets_ok rc new byCIDR"
  shows "ready_nodes rc c = {} \<Longrightarrow>
      assign_to_least c ip (new, byCIDR) = Inl (ErrNew (''Unable to find nodes for CIDR'' @ c))"
    and "ready_nodes rc c \<noteq> {} \<Longrightarrow> \<exists>n byCIDR'. n \<in> ready_nodes rc c \<and>
      (\<forall>n' \<in> ready_nodes rc c. length (gm_get [] new n) \<le> length (gm_get [] new n')) \<and>
      assign_to_least c ip (new, byCIDR) = Inr (gm_put n (gm_get [] new n @ [ip]) new, byCIDR') \<and>
      buckets_ok rc (gm_put n (gm_get [] new n @ [ip]) new) byCIDR'"
proof -
  note min = buckets_min [OF ok, of c]
  show "ready_nodes rc c = {} \<Longrightarrow>
      assign_to_least c ip (new, byCIDR) = Inl (ErrNew (''Unable to find nodes for CIDR'' @ c))"
    using min(1) by (simp add: assign_to_least_def)
  assume ne: "ready_nodes rc c \<noteq> {}"
  let ?b = "gm_get [] byCIDR c"
  obtain n rest where n: "gm_get [] ?b (getMinKey ?b) = n # rest" "n \<in> ready_nodes rc c"
    "getMinKey ?b = int (length (gm_get [] new n))"
    "\<forall>n' \<in> ready_nodes rc c. length (gm_get [] new n) \<le> length (gm_get [] new n')"
    using min(2) [OF ne] by blast
  define k where "k = int (length (gm_get [] new n))"
  let ?new = "gm_put n (gm_get [] new n @ [ip]) new"
  let ?b1 = "gm_put k rest ?b"
  let ?b2 = "gm_put (k + 1) (gm_get [] ?b (k + 1) @ [n]) ?b1"
  let ?by = "gm_put c ?b2 byCIDR"
  have "getMinKey ?b \<noteq> -1" using min(1) ne by blast
  then have step: "assign_to_least c ip (new, byCIDR) = Inr (?new, ?by)"
    using n(1,3) by (simp add: assign_to_least_def Let_def k_def gm_get_put)
  note okD = buckets_okD [OF ok]
  have bucket_k: "gm_get [] ?b k = n # rest" using n(1,3) by (simp add: k_def)
  have "distinct (n # rest)" using okD(2) [of c k] unfolding bucket_k .
  then have rest: "distinct rest" "n \<notin> set rest" by simp_all
  have rest_mem: "m \<in> set rest \<longleftrightarrow> m \<noteq> n \<and> m \<in> ready_nodes rc c \<and> int (length (gm_get [] new m)) = k" for m
    using okD(3) [of m c k] rest(2) unfolding bucket_k by auto
  have n_next: "n \<notin> set (gm_get [] ?b (k + 1))" unfolding okD(3) k_def by simp
  have load: "length (gm_get [] ?new m) = (if m = n then Suc (length (gm_get [] new n)) else length (gm_get [] new m))"
    for m by (simp add: gm_get_put)
  have b2: "distinct (gm_get [] ?b2 j) \<and>
      set (gm_get [] ?b2 j) = {m \<in> ready_nodes rc c. int (length (gm_get [] ?new m)) = j}" for j
  proof -
    consider "j = k" | "j = k + 1" | "j \<noteq> k" "j \<noteq> k + 1" by blast
    then show ?thesis
    proof cases
      case 1
      then have "gm_get [] ?b2 j = rest" by (simp add: gm_get_put)
      then show ?thesis using rest rest_mem 1 by (auto simp: gm_get_put k_def)
    next
      case 2
      then have "gm_get [] ?b2 j = gm_get [] ?b (k + 1) @ [n]" by (simp add: gm_get_put)
      then show ?thesis using okD(2) [of c "k + 1"] okD(3) [of _ c "k + 1"] n_next n(2) 2 by (auto simp: gm_get_put k_def)
    next
      case 3
      then have "gm_get [] ?b2 j = gm_get [] ?b j" by (simp add: gm_get_put)
      then show ?thesis using okD(2) [of c j] okD(3) [of _ c j] 3 by (auto simp: gm_get_put k_def)
    qed
  qed
  have other: "{m \<in> ready_nodes rc c'. int (length (gm_get [] ?new m)) = j} =
      {m \<in> ready_nodes rc c'. int (length (gm_get [] new m)) = j}" if "c' \<noteq> c" for c' j
    using ready_nodes_disjoint [OF lists n(2)] that load by force
  have "buckets_ok rc ?new ?by"
    unfolding buckets_ok_def
  proof (intro allI conjI)
    fix c' j
    show "distinct (gm_keys (gm_get [] ?by c'))" using okD(1) by (simp add: gm_get_put)
    show "distinct (gm_get [] (gm_get [] ?by c') j)" using okD(2) b2 by (simp add: gm_get_put)
    show "set (gm_get [] (gm_get [] ?by c') j) = {m \<in> ready_nodes rc c'. int (length (gm_get [] ?new m)) = j}"
      using b2 [of j] other [of c' j] okD(3) [of _ c' j] by (cases "c' = c") (auto simp: gm_get_put)
  qed
  with step n show "\<exists>n byCIDR'. n \<in> ready_nodes rc c \<and>
      (\<forall>n' \<in> ready_nodes rc c. length (gm_get [] new n) \<le> length (gm_get [] new n')) \<and>
      assign_to_least c ip (new, byCIDR) = Inr (gm_put n (gm_get [] new n @ [ip]) new, byCIDR') \<and>
      buckets_ok rc (gm_put n (gm_get [] new n @ [ip]) new) byCIDR'" by blast
qed


lemma bucket_fold:
  "gm_get [] (fold (add_to_bucket rc new) ns b) k =
     gm_get [] b k @ filter (\<lambda>n. node_ready rc n \<and> int (length (gm_get [] new n)) = k) ns"
  "distinct (gm_keys b) \<Longrightarrow> distinct (gm_keys (fold (add_to_bucket rc new) ns b))"
  by (induction ns arbitrary: b) (auto simp: add_to_bucket_def Let_def gm_get_put)

lemma nodesByNumber_ok:
  assumes "range_laws E" and lists: "node_lists_ok rc"
  shows "buckets_ok rc new (nodesByNumber E rc new)"
    and "fst ` set (nodesByNumber E rc new) = fst ` set (rc_SelectedNodesByCIDR rc)"
    and "distinct (gm_keys (nodesByNumber E rc new))"
proof -
  let ?S = "rc_SelectedNodesByCIDR rc"
  have dist: "distinct (gm_keys ?S)" "\<And>c. distinct (gm_get [] ?S c)"
    using lists by (simp_all add: node_lists_ok_def)
  note ks = range_lawsD [OF assms(1) dist(1), of 269]
  have get: "gm_get [] (nodesByNumber E rc new) c = fold (add_to_bucket rc new) (gm_get [] ?S c) []" for c
    using ks(2) gm_get_notin [of c ?S "[]"] by (simp add: nodesByNumber_def gm_get_fold_put)
  show "buckets_ok rc new (nodesByNumber E rc new)"
    unfolding buckets_ok_def get using dist(2) by (auto simp: bucket_fold ready_nodes_def)
  show "fst ` set (nodesByNumber E rc new) = fst ` set ?S" "distinct (gm_keys (nodesByNumber E rc new))"
    using ks(2) by (simp_all add: nodesByNumber_def keys_fold_put distinct_fold_put)
qed

text \<open>The addresses to be placed, in the order of the two loops.\<close>

definition to_place :: "goenv \<Rightarrow> ips_by \<Rightarrow> (string \<times> string) list" where
  "to_place E toBe = concat (map (\<lambda>c. map (Pair c) (gm_get [] toBe c)) (range_order E 281 (gm_keys toBe)))"

lemma set_to_place:
  assumes "range_laws E" "distinct (gm_keys toBe)"
  shows "(c, ip) \<in> set (to_place E toBe) \<longleftrightarrow> ip \<in> set (gm_get [] toBe c)"
proof -
  have "(c, ip) \<in> set (to_place E toBe) \<longleftrightarrow> c \<in> set (gm_keys toBe) \<and> ip \<in> set (gm_get [] toBe c)"
    unfolding range_lawsD(2) [OF assms, of 281, symmetric] by (auto simp: to_place_def)
  then show ?thesis using gm_get_notin [of c toBe "[]"] by auto
qed

lemma assign_loop:
  assumes lists: "node_lists_ok rc" and ok: "buckets_ok rc new byCIDR" "distinct (gm_keys byCIDR)"
  shows "case go_for (\<lambda>(c, ip). assign_to_least c ip) xs (new, byCIDR) of
      Inl e \<Rightarrow> \<exists>(c, ip) \<in> set xs. ready_nodes rc c = {} \<and> e = ErrNew (''Unable to find nodes for CIDR'' @ c)
    | Inr (new', byCIDR') \<Rightarrow> (\<forall>(c, ip) \<in> set xs. ready_nodes rc c \<noteq> {}) \<and>
        placements (ready_nodes rc) xs (gm_get [] new) (gm_get [] new') \<and> buckets_ok rc new' byCIDR' \<and>
        distinct (gm_keys byCIDR') \<and> fst ` set byCIDR \<subseteq> fst ` set byCIDR'"
  using ok
proof (induction xs arbitrary: new byCIDR)
  case Nil
  then show ?case by (simp add: placements_none)
next
  case (Cons x xs)
  obtain c ip where x: "x = (c, ip)" by (cases x)
  note step = assign_to_least_step [OF lists Cons.prems(1), of c ip]
  show ?case
  proof (cases "ready_nodes rc c = {}")
    case True
    with step(1) x show ?thesis by auto
  next
    case False
    with step(2) obtain n byCIDR1 where n: "n \<in> ready_nodes rc c"
      "\<forall>n' \<in> ready_nodes rc c. length (gm_get [] new n) \<le> length (gm_get [] new n')"
      "assign_to_least c ip (new, byCIDR) = Inr (gm_put n (gm_get [] new n @ [ip]) new, byCIDR1)"
      "buckets_ok rc (gm_put n (gm_get [] new n @ [ip]) new) byCIDR1" by blast
    let ?new1 = "gm_put n (gm_get [] new n @ [ip]) new"
    obtain b where "byCIDR1 = gm_put c b byCIDR"
      using n(3) by (auto simp: assign_to_least_def Let_def split: if_splits)
    then have keys: "distinct (gm_keys byCIDR1)" "fst ` set byCIDR \<subseteq> fst ` set byCIDR1"
      using Cons.prems(2) by (simp_all add: subset_insertI)
    have fun_eq: "gm_get [] ?new1 = (gm_get [] new)(n := gm_get [] new n @ [ip])"
      by (rule ext) (simp add: gm_get_put)
    have place: "placements (ready_nodes rc) (x # xs) (gm_get [] new) L'"
      if "placements (ready_nodes rc) xs (gm_get [] ?new1) L'" for L'
      unfolding x using n(1,2) that unfolding fun_eq by (rule placements_some)
    have run: "go_for (\<lambda>(c, ip). assign_to_least c ip) (x # xs) (new, byCIDR) =
        go_for (\<lambda>(c, ip). assign_to_least c ip) xs (?new1, byCIDR1)"
      using n(3) by (simp add: x)
    show ?thesis
    proof (cases "go_for (\<lambda>(c, ip). assign_to_least c ip) xs (?new1, byCIDR1)")
      case (Inl e)
      with Cons.IH [OF n(4) keys(1)] show ?thesis unfolding run by auto
    next
      case (Inr r)
      obtain new2 byCIDR2 where r: "r = (new2, byCIDR2)" by (cases r)
      note ih = Cons.IH [OF n(4) keys(1), unfolded Inr r sum.case prod.case]
      have "\<forall>(c, ip) \<in> set (x # xs). ready_nodes rc c \<noteq> {}" using ih False x by simp
      moreover have "fst ` set byCIDR \<subseteq> fst ` set byCIDR2" using ih keys(2) by (meson subset_trans)
      ultimately show ?thesis unfolding run Inr r sum.case prod.case using ih place by blast
    qed
  qed
qed

lemma placeIPs_refines:
  assumes lists: "node_lists_ok rc" and ok: "buckets_ok rc new byCIDR" "distinct (gm_keys byCIDR)"
  shows "case placeIPs E toBe (new, byCIDR) of
      Inl e \<Rightarrow> \<exists>(c, ip) \<in> set (to_place E toBe). ready_nodes rc c = {} \<and> e = ErrNew (''Unable to find nodes for CIDR'' @ c)
    | Inr (new', byCIDR') \<Rightarrow> (\<forall>(c, ip) \<in> set (to_place E toBe). ready_nodes rc c \<noteq> {}) \<and>
        placements (ready_nodes rc) (to_place E toBe) (gm_get [] new) (gm_get [] new') \<and>
        buckets_ok rc new' byCIDR' \<and> distinct (gm_keys byCIDR') \<and> fst ` set byCIDR \<subseteq> fst ` set byCIDR'"
  unfolding placeIPs_def go_for_nested to_place_def by (rule assign_loop [OF assms])

section \<open>What least-loaded placement guarantees\<close>

lemma placements_grow:
  "placements ready xs L L' \<Longrightarrow> length (L n) \<le> length (L' n) \<and> set (L n) \<subseteq> set (L' n)"
  by (induction rule: placements.induct) (fastforce split: if_splits)+

lemma placements_covers:
  "placements ready xs L L' \<Longrightarrow> (c, ip) \<in> set xs \<Longrightarrow> \<exists>n \<in> ready c. ip \<in> set (L' n)"
proof (induction rule: placements.induct)
  case (placements_some n c' L xs ip' L')
  show ?case
  proof (cases "(c, ip) = (c', ip')")
    case True
    have "ip' \<in> set ((L(n := L n @ [ip'])) n)" by simp
    with placements_grow [OF placements_some.hyps(3), of n] True placements_some.hyps(1) show ?thesis by blast
  qed (use placements_some in auto)
qed simp

lemma placements_sound:
  "placements ready xs L L' \<Longrightarrow> ip \<in> set (L' n) \<Longrightarrow> ip \<in> set (L n) \<or> (\<exists>c. (c, ip) \<in> set xs \<and> n \<in> ready c)"
  by (induction rule: placements.induct) (auto split: if_splits)

lemma placements_balance:
  assumes "placements ready xs L L'" and "\<And>c c' m. m \<in> ready c \<Longrightarrow> m \<in> ready c' \<Longrightarrow> c = c'"
    and "length (L n) < length (L' n)" "n \<in> ready c" "n' \<in> ready c"
  shows "length (L' n) \<le> length (L' n') + 1"
  using assms
proof (induction rule: placements.induct)
  case (placements_some m d L xs ip L')
  let ?L1 = "L(m := L m @ [ip])"
  show ?case
  proof (cases "length (?L1 n) < length (L' n)")
    case True
    with placements_some show ?thesis by blast
  next
    case False
    then have eq: "length (L' n) = length (?L1 n)" using placements_grow [OF placements_some.hyps(3), of n] by simp
    with placements_some.prems(2) have m: "m = n" by (auto split: if_splits)
    then have "d = c" using placements_some by blast
    then have "length (L n) \<le> length (L n')" using placements_some.hyps(2) placements_some.prems(4) m by blast
    moreover have "length (L n') \<le> length (?L1 n')" by simp
    moreover have "length (?L1 n') \<le> length (L' n')" using placements_grow [OF placements_some.hyps(3)] by blast
    ultimately show ?thesis using eq m by simp
  qed
qed simp


lemma placements_unique:
  assumes "placements ready xs L L'" and "distinct (map snd xs)" and "\<forall>ip \<in> snd ` set xs. \<forall>n. ip \<notin> set (L n)"
    and "\<And>n n'. n \<noteq> n' \<Longrightarrow> set (L n) \<inter> set (L n') = {}"
  shows "n \<noteq> n' \<Longrightarrow> set (L' n) \<inter> set (L' n') = {}"
  using assms
proof (induction rule: placements.induct)
  case (placements_some m c L xs ip L')
  let ?L1 = "L(m := L m @ [ip])"
  have "\<forall>ip' \<in> snd ` set xs. \<forall>n. ip' \<notin> set (?L1 n)" using placements_some.prems(2,3) by auto
  moreover have "set (?L1 k) \<inter> set (?L1 k') = {}" if "k \<noteq> k'" for k k'
    using placements_some.prems(4) [OF that] placements_some.prems(3) that by auto
  ultimately show ?case using placements_some.IH placements_some.prems(1,2) by simp
qed simp

section \<open>From nodes and namespaces to what has to be placed\<close>

lemma add_contained_Inr:
  "add_contained ips shown c v = Inr v' \<Longrightarrow>
     set v' = set v \<union> shown ` {ip \<in> set ips. in_cidr c (ParseIP ip)}"
  by (auto simp: add_contained_def in_cidr_def split: sum.splits)

lemma collect_by_cidr_Inr:
  assumes laws: "range_laws E" and res: "collect_by_cidr E l ipsof shown cidrs xs = Inr m"
  shows "distinct (gm_keys m)" "fst ` set m = set cidrs"
    and "c \<in> set cidrs \<Longrightarrow> ip \<in> set (gm_get [] m c) \<longleftrightarrow>
      (\<exists>x \<in> set xs. \<exists>ips. ipsof x = Inr ips \<and> ip \<in> shown ` {s \<in> set ips. in_cidr c (ParseIP s)})"
proof -
  let ?P = "\<lambda>ys m. distinct (gm_keys m) \<and> fst ` set m = set cidrs \<and> (\<forall>c \<in> set cidrs. \<forall>ip.
    ip \<in> set (gm_get [] m c) \<longleftrightarrow>
      (\<exists>x \<in> set ys. \<exists>ips. ipsof x = Inr ips \<and> ip \<in> shown ` {s \<in> set ips. in_cidr c (ParseIP s)}))"
  have "?P xs m"
  proof (rule go_for_inv_prefix [OF res [unfolded collect_by_cidr_def], where I = ?P])
    fix ys x zs m1 m2
    assume I: "?P ys m1" and step: "bind_err (ipsof x) (\<lambda>ips.
      range_update [] (add_contained ips shown) (range_order E l (gm_keys m1)) m1) = Inr m2"
    then obtain ips where ips: "ipsof x = Inr ips"
      and upd: "range_update [] (add_contained ips shown) (range_order E l (gm_keys m1)) m1 = Inr m2"
      by auto
    note ks = range_lawsD [OF laws, of "gm_keys m1" l]
    have keys: "gm_keys m2 = gm_keys m1" by (rule range_update_keys [OF upd]) (use I ks in simp)
    have get: "set (gm_get [] m2 c) = set (gm_get [] m1 c) \<union> shown ` {ip \<in> set ips. in_cidr c (ParseIP ip)}"
      if "c \<in> set cidrs" for c
      by (rule add_contained_Inr, rule range_update_get(1) [OF upd]) (use that I ks in simp_all)
    have "fst ` set m2 = set cidrs" using I keys by (metis set_map)
    then show "?P (ys @ [x]) m2" using I keys get ips by (auto simp: ball_Un)
  qed simp
  then show "distinct (gm_keys m)" "fst ` set m = set cidrs"
    and "c \<in> set cidrs \<Longrightarrow> ip \<in> set (gm_get [] m c) \<longleftrightarrow>
      (\<exists>x \<in> set xs. \<exists>ips. ipsof x = Inr ips \<and> ip \<in> shown ` {s \<in> set ips. in_cidr c (ParseIP s)})"
    by blast+
qed

lemma collect_by_cidr_total:
  assumes laws: "range_laws E" and parse: "\<forall>c \<in> set cidrs. \<exists>r. ParseCIDR c = Inr r"
    and ips: "\<forall>x \<in> set xs. \<exists>ips. ipsof x = Inr ips"
  shows "\<exists>m. collect_by_cidr E l ipsof shown cidrs xs = Inr m"
proof -
  let ?I = "\<lambda>m :: ips_by. distinct (gm_keys m) \<and> fst ` set m = set cidrs"
  have "\<exists>m. collect_by_cidr E l ipsof shown cidrs xs = Inr m \<and> ?I m"
    unfolding collect_by_cidr_def
  proof (rule go_for_total [where I = ?I])
    fix x and m :: ips_by
    assume x: "x \<in> set xs" and I: "?I m"
    note ks = range_lawsD [OF laws, of "gm_keys m" l]
    from ips x obtain us where us: "ipsof x = Inr us" by blast
    have "\<exists>m'. range_update [] (add_contained us shown) (range_order E l (gm_keys m)) m = Inr m'"
      by (rule range_update_total) (use parse I ks in \<open>auto simp: add_contained_def\<close>)
    then obtain m' where m': "range_update [] (add_contained us shown) (range_order E l (gm_keys m)) m = Inr m'" ..
    have "gm_keys m' = gm_keys m" by (rule range_update_keys [OF m']) (use I ks in simp)
    with I have "?I m'" by (metis set_map)
    with m' us show "\<exists>m'. bind_err (ipsof x) (\<lambda>ips.
         range_update [] (add_contained ips shown) (range_order E l (gm_keys m)) m) = Inr m' \<and> ?I m'" by simp
  qed simp
  then show ?thesis by blast
qed


text \<open>
  In terms of the context: the address is carried by a node that was ready (and lies in the
  CIDR), and the address is one of a namespace for the CIDR, in its canonical form.
\<close>

definition carried :: "rcontext \<Rightarrow> string \<Rightarrow> string \<Rightarrow> bool" where
  "carried rc c ip \<longleftrightarrow> in_cidr c (ParseIP ip) \<and>
     (\<exists>node \<in> set (gm_keys (rc_InitiallyAssignedIPsByNode rc)).
        ip \<in> set (gm_get [] (rc_InitiallyAssignedIPsByNode rc) node))"

definition wanted :: "rcontext \<Rightarrow> string \<Rightarrow> string \<Rightarrow> bool" where
  "wanted rc c ip \<longleftrightarrow> (\<exists>n \<in> set (rc_FinallyAssignedNamespaces rc). \<exists>v. ns_ips n = Some v \<and>
     (\<exists>s \<in> set (split_on (CHR '','') v). in_cidr c (ParseIP s) \<and> ip = IP_String (ParseIP s)))"

definition initial_ok :: "rcontext \<Rightarrow> bool" where
  "initial_ok rc \<longleftrightarrow> distinct (gm_keys (rc_InitiallyAssignedIPsByNode rc)) \<and>
     (\<forall>n \<in> set (gm_keys (rc_InitiallyAssignedIPsByNode rc)). node_ready rc n) \<and>
     distinct (gm_keys (rc_SelectedNodes rc)) \<and>
     (\<forall>n \<in> set (gm_keys (rc_SelectedNodes rc)).
        map_of (rc_AllNodes rc) n = Some (gm_get zero_node (rc_SelectedNodes rc) n))"

lemma fold_adds:
  assumes "\<And>x m n. set (gm_get [] (f x m) n) = set (gm_get [] m n) \<union> A x n"
  shows "set (gm_get [] (fold f xs m) n) = set (gm_get [] m n) \<union> (\<Union>x \<in> set xs. A x n)"
  by (induction xs arbitrary: m) (auto simp: assms)

lemma keep_on_node_adds:
  "set (gm_get [] (keep_on_node rc a node m) n) = set (gm_get [] m n) \<union>
     (if n = node \<and> a \<in> set (gm_get [] (rc_InitiallyAssignedIPsByNode rc) node) then {a} else {})"
proof -
  have "set (gm_get [] (fold (\<lambda>ip m. if a = ip then gm_put node (gm_get [] m node @ [a]) m else m) xs m) n) =
      set (gm_get [] m n) \<union> (\<Union>ip \<in> set xs. if n = node \<and> a = ip then {a} else {})" for xs
    by (rule fold_adds) (auto simp: gm_get_put)
  then show ?thesis unfolding keep_on_node_def by auto
qed

lemma keptIPsByNode_set:
  assumes laws: "range_laws E" and dist: "distinct (gm_keys still)" "distinct (gm_keys (rc_InitiallyAssignedIPsByNode rc))"
  shows "set (gm_get [] (keptIPsByNode E rc still) n) =
    {a \<in> set (gm_get [] (rc_InitiallyAssignedIPsByNode rc) n). \<exists>c. a \<in> set (gm_get [] still c)}"
proof -
  let ?I = "rc_InitiallyAssignedIPsByNode rc"
  let ?A = "\<lambda>a node. if n = node \<and> a \<in> set (gm_get [] ?I node) then {a} else {}"
  have eq: "set (gm_get [] (keptIPsByNode E rc still) n) =
      (\<Union>c \<in> fst ` set still. \<Union>a \<in> set (gm_get [] still c). \<Union>node \<in> fst ` set ?I. ?A a node)"
  proof -
    have inner: "set (gm_get [] (fold (keep_on_node rc a) ks m) n') = set (gm_get [] m n') \<union>
        (\<Union>node \<in> set ks. if n' = node \<and> a \<in> set (gm_get [] ?I node) then {a} else {})" for a ks m n'
      by (rule fold_adds) (rule keep_on_node_adds)
    have middle: "set (gm_get [] (fold (\<lambda>a. fold (keep_on_node rc a) ks) as m) n') = set (gm_get [] m n') \<union>
        (\<Union>a \<in> set as. \<Union>node \<in> set ks. if n' = node \<and> a \<in> set (gm_get [] ?I node) then {a} else {})" for as ks m n'
      by (rule fold_adds) (rule inner)
    show ?thesis
      unfolding keptIPsByNode_def
      by (subst fold_adds, rule middle)
        (simp only: range_lawsD(2) [OF laws dist(1)] range_lawsD(2) [OF laws dist(2)] gm_get_Nil list.set
          Un_empty_left set_map)
  qed
  show ?thesis
  proof (rule set_eqI)
    fix a
    have "a \<in> set (gm_get [] (keptIPsByNode E rc still) n) \<longleftrightarrow>
        n \<in> fst ` set ?I \<and> a \<in> set (gm_get [] ?I n) \<and> (\<exists>c \<in> fst ` set still. a \<in> set (gm_get [] still c))"
      unfolding eq by (simp only: UN_iff) (metis (mono_tags) empty_iff singletonI singletonD)
    then show "a \<in> set (gm_get [] (keptIPsByNode E rc still) n) \<longleftrightarrow>
        a \<in> {a \<in> set (gm_get [] ?I n). \<exists>c. a \<in> set (gm_get [] still c)}"
      using gm_get_in_keys [of a ?I n] gm_get_in_keys [of a still] by blast
  qed
qed

lemma still_toBe_get:
  assumes laws: "range_laws E" "strset_laws E"
    and ns: "distinct (gm_keys nsIPs)" "fst ` set nsIPs = set cidrs"
    and node: "distinct (gm_keys nodeIPs)" "fst ` set nodeIPs = set cidrs"
  shows "a \<in> set (gm_get [] (stillAssigned E nodeIPs nsIPs) c) \<longleftrightarrow>
      c \<in> set cidrs \<and> a \<in> set (gm_get [] nodeIPs c) \<and> a \<in> set (gm_get [] nsIPs c)"
    and "a \<in> set (gm_get [] (toBeAssigned E cidrs nodeIPs nsIPs) c) \<longleftrightarrow>
      c \<in> set cidrs \<and> a \<in> set (gm_get [] nsIPs c) \<and> a \<notin> set (gm_get [] nodeIPs c)"
    and "distinct (gm_get [] (toBeAssigned E cidrs nodeIPs nsIPs) c)"
    and "distinct (gm_keys (stillAssigned E nodeIPs nsIPs))"
    and "distinct (gm_keys (toBeAssigned E cidrs nodeIPs nsIPs))"
proof -
  note ks = range_lawsD [OF laws(1) ns(1)]
  have out: "c \<notin> set cidrs \<Longrightarrow> gm_get [] nodeIPs c = []" using gm_get_notin [of c nodeIPs] node(2) by simp
  have "gm_get [] (stillAssigned E nodeIPs nsIPs) c = (if c \<in> set cidrs
      then str_intersection E (gm_get [] nodeIPs c) (gm_get [] nsIPs c) else gm_get [] nodeIPs c)"
    unfolding stillAssigned_def
    using ks ns(2) fold_rewrite [where f = "\<lambda>c v. str_intersection E v (gm_get [] nsIPs c)" and z = "[]"] by simp
  then show "a \<in> set (gm_get [] (stillAssigned E nodeIPs nsIPs) c) \<longleftrightarrow>
      c \<in> set cidrs \<and> a \<in> set (gm_get [] nodeIPs c) \<and> a \<in> set (gm_get [] nsIPs c)"
    using out by (auto simp: strset_lawsD [OF laws(2)])
  have "gm_get [] (toBeAssigned E cidrs nodeIPs nsIPs) c = (if c \<in> set cidrs
      then str_difference E (gm_get [] nsIPs c) (gm_get [] nodeIPs c) else [])"
    unfolding toBeAssigned_def gm_get_fold_put using ks ns(2) by simp
  then show "a \<in> set (gm_get [] (toBeAssigned E cidrs nodeIPs nsIPs) c) \<longleftrightarrow>
      c \<in> set cidrs \<and> a \<in> set (gm_get [] nsIPs c) \<and> a \<notin> set (gm_get [] nodeIPs c)"
    "distinct (gm_get [] (toBeAssigned E cidrs nodeIPs nsIPs) c)"
    by (auto simp: strset_lawsD [OF laws(2)])
  have "gm_keys (stillAssigned E nodeIPs nsIPs) = gm_keys nodeIPs"
    unfolding stillAssigned_def by (rule fold_rewrite_keys) (use ks ns node in simp)
  then show "distinct (gm_keys (stillAssigned E nodeIPs nsIPs))" using node(1) by simp
  show "distinct (gm_keys (toBeAssigned E cidrs nodeIPs nsIPs))"
    unfolding toBeAssigned_def by (rule distinct_fold_put) simp
qed


section \<open>The result\<close>

text \<open>Setting the entry of a node that carries nothing to the empty list changes no address.\<close>

lemma fold_put_empty:
  assumes "\<And>x n m. gm_get [] (f x m) n = (if n \<in> A x then [] else gm_get [] m n)"
    and "\<And>x. x \<in> set xs \<Longrightarrow> n \<in> A x \<Longrightarrow> gm_get [] m n = []"
  shows "gm_get [] (fold f xs m) n = gm_get [] m n"
  using assms(2)
proof (induction xs arbitrary: m)
  case (Cons x xs)
  have eq: "gm_get [] (f x m) n = gm_get [] m n" using Cons.prems [of x] by (simp add: assms(1))
  have "gm_get [] (fold f xs (f x m)) n = gm_get [] (f x m) n"
    by (rule Cons.IH) (metis Cons.prems eq list.set_intros(2))
  with eq show ?case by simp
qed simp

lemma fold_put_empty_keys:
  assumes "\<And>x m. fst ` set (f x m) = A x \<union> fst ` set m"
  shows "fst ` set (fold f xs m) = (\<Union>x \<in> set xs. A x) \<union> fst ` set m"
  by (induction xs arbitrary: m) (auto simp: assms)

lemma add_idle_get:
  assumes ok: "buckets_ok rc new byCIDR" and laws: "range_laws E" "distinct (gm_keys byCIDR)"
  shows "gm_get [] (add_idle E byCIDR new) n = gm_get [] new n"
    and "fst ` set new \<subseteq> fst ` set (add_idle E byCIDR new)"
    and "c \<in> fst ` set byCIDR \<Longrightarrow> n \<in> ready_nodes rc c \<Longrightarrow> n \<in> fst ` set (add_idle E byCIDR new)"
proof -
  let ?f = "\<lambda>cidr. fold (\<lambda>node. gm_put node []) (gm_get [] (gm_get [] byCIDR cidr) (0::int)) :: ips_by \<Rightarrow> ips_by"
  let ?A = "\<lambda>cidr. set (gm_get [] (gm_get [] byCIDR cidr) 0)"
  show get: "gm_get [] (add_idle E byCIDR new) n = gm_get [] new n"
    unfolding add_idle_def
    by (rule fold_put_empty [where A = ?A]) (simp_all add: gm_get_fold_put buckets_okD(3) [OF ok])
  have "fst ` set (add_idle E byCIDR new) = (\<Union>c \<in> set (range_order E 304 (gm_keys byCIDR)). ?A c) \<union> fst ` set new"
    unfolding add_idle_def by (rule fold_put_empty_keys) (simp add: keys_fold_put)
  then have keys: "fst ` set (add_idle E byCIDR new) = (\<Union>c \<in> fst ` set byCIDR. ?A c) \<union> fst ` set new"
    by (simp add: range_lawsD(2) [OF laws])
  show "fst ` set new \<subseteq> fst ` set (add_idle E byCIDR new)" unfolding keys by blast
  show "n \<in> fst ` set (add_idle E byCIDR new)" if c: "c \<in> fst ` set byCIDR" "n \<in> ready_nodes rc c"
  proof (cases "gm_get [] new n")
    case Nil
    then have "n \<in> ?A c" using c(2) by (simp add: buckets_okD(3) [OF ok])
    then show ?thesis unfolding keys using c(1) by blast
  next
    case (Cons x xs)
    then have "n \<in> fst ` set new" using gm_get_in_keys [of x new n] by simp
    then show ?thesis unfolding keys by blast
  qed
qed

lemma add_not_ready_get:
  assumes laws: "range_laws E" and init: "initial_ok rc"
    and idle: "\<And>n. n \<in> set (gm_keys (rc_SelectedNodes rc)) \<Longrightarrow> \<not> node_ready rc n \<Longrightarrow> gm_get [] new n = []"
  shows "gm_get [] (add_not_ready E rc new) n = gm_get [] new n"
    and "fst ` set new \<subseteq> fst ` set (add_not_ready E rc new)"
    and "n \<in> set (gm_keys (rc_SelectedNodes rc)) \<Longrightarrow> \<not> node_ready rc n \<Longrightarrow> n \<in> fst ` set (add_not_ready E rc new)"
proof -
  let ?S = "rc_SelectedNodes rc"
  have dist: "distinct (gm_keys ?S)" using init by (simp add: initial_ok_def)
  note ks = range_lawsD(2) [OF laws dist, of 312]
  have ready: "is_ready (gm_get zero_node ?S n) \<longleftrightarrow> node_ready rc n" if "n \<in> set (gm_keys ?S)" for n
    using init that unfolding initial_ok_def node_ready_def by (metis option.simps(5))
  let ?A = "\<lambda>n. if is_ready (gm_get zero_node ?S n) then {} else {n}"
  show "gm_get [] (add_not_ready E rc new) n = gm_get [] new n"
    unfolding add_not_ready_def
  proof (rule fold_put_empty [where A = ?A])
    show "gm_get [] new n = []" if "x \<in> set (range_order E 312 (gm_keys ?S))" "n \<in> ?A x" for x
      using that idle [of n] ready [of n] ks by (auto split: if_splits)
  qed (simp add: gm_get_put)
  have keys: "fst ` set (add_not_ready E rc new) = (\<Union>n \<in> set (gm_keys ?S). ?A n) \<union> fst ` set new"
    unfolding add_not_ready_def ks [symmetric] by (rule fold_put_empty_keys) simp
  show "fst ` set new \<subseteq> fst ` set (add_not_ready E rc new)" unfolding keys by blast
  show "n \<in> set (gm_keys ?S) \<Longrightarrow> \<not> node_ready rc n \<Longrightarrow> n \<in> fst ` set (add_not_ready E rc new)"
    unfolding keys using ready by auto
qed

lemma nodeIPs_carried:
  assumes "range_laws E" "initial_ok rc" "nodeIPsByCIDR E rc = Inr m" "c \<in> set (rc_CIDRs rc)"
  shows "ip \<in> set (gm_get [] m c) \<longleftrightarrow> carried rc c ip"
proof -
  have "distinct (gm_keys (rc_InitiallyAssignedIPsByNode rc))" using assms(2) by (simp add: initial_ok_def)
  from range_lawsD(2) [OF assms(1) this, of 196] collect_by_cidr_Inr(3) [OF assms(1) assms(3) [unfolded nodeIPsByCIDR_def] assms(4)]
  show ?thesis by (auto simp: carried_def)
qed

lemma namespaceIPs_wanted:
  assumes "range_laws E" "namespaceIPsByCIDR E rc = Inr m" "c \<in> set (rc_CIDRs rc)"
  shows "ip \<in> set (gm_get [] m c) \<longleftrightarrow> wanted rc c ip"
  unfolding collect_by_cidr_Inr(3) [OF assms(1) assms(2) [unfolded namespaceIPsByCIDR_def] assms(3)]
  unfolding wanted_def namespace_ips_def by (fastforce split: option.splits)


lemma assignIPsToNodes_result:
  assumes laws: "range_laws E" "strset_laws E" and lists: "node_lists_ok rc" and init: "initial_ok rc"
    and res: "assignIPsToNodes E rc = Inr R"
  obtains xs L where "placements (ready_nodes rc) xs L (gm_get [] R)"
    "\<And>n ip. ip \<in> set (L n) \<longleftrightarrow> ip \<in> set (gm_get [] (rc_InitiallyAssignedIPsByNode rc) n) \<and>
      (\<exists>c \<in> set (rc_CIDRs rc). carried rc c ip \<and> wanted rc c ip)"
    "\<And>c ip. (c, ip) \<in> set xs \<longleftrightarrow> c \<in> set (rc_CIDRs rc) \<and> wanted rc c ip \<and> \<not> carried rc c ip"
    "distinct xs"
    "\<And>n. (\<exists>c. n \<in> ready_nodes rc c) \<or> n \<in> set (gm_keys (rc_SelectedNodes rc)) \<and> \<not> node_ready rc n \<Longrightarrow> n \<in> fst ` set R"
proof -
  let ?I = "rc_InitiallyAssignedIPsByNode rc"
  obtain nodeIPs nsIPs where node: "nodeIPsByCIDR E rc = Inr nodeIPs" and ns: "namespaceIPsByCIDR E rc = Inr nsIPs"
    using res by (auto simp: assignIPsToNodes_def)
  define toBe still new where "toBe = toBeAssigned E (rc_CIDRs rc) nodeIPs nsIPs"
    and "still = stillAssigned E nodeIPs nsIPs" and "new = keptIPsByNode E rc still"
  obtain new' byCIDR where place: "placeIPs E toBe (new, nodesByNumber E rc new) = Inr (new', byCIDR)"
    and R: "R = add_not_ready E rc (add_idle E byCIDR new')"
    using res by (auto simp: assignIPsToNodes_def node ns Let_def toBe_def still_def new_def)
  note nodeC = collect_by_cidr_Inr(1,2) [OF laws(1) node [unfolded nodeIPsByCIDR_def]]
  note nsC = collect_by_cidr_Inr(1,2) [OF laws(1) ns [unfolded namespaceIPsByCIDR_def]]
  note st = still_toBe_get [OF laws nsC nodeC, folded still_def toBe_def]
  have dI: "distinct (gm_keys ?I)" "\<And>n. n \<in> fst ` set ?I \<Longrightarrow> node_ready rc n" using init by (auto simp: initial_ok_def)
  have L: "ip \<in> set (gm_get [] new n) \<longleftrightarrow> ip \<in> set (gm_get [] ?I n) \<and>
      (\<exists>c \<in> set (rc_CIDRs rc). carried rc c ip \<and> wanted rc c ip)" for n ip
    unfolding new_def keptIPsByNode_set [OF laws(1) st(4) dI(1)]
    using st(1) nodeIPs_carried [OF laws(1) init node] namespaceIPs_wanted [OF laws(1) ns] by blast
  have X: "(c, ip) \<in> set (to_place E toBe) \<longleftrightarrow> c \<in> set (rc_CIDRs rc) \<and> wanted rc c ip \<and> \<not> carried rc c ip" for c ip
    unfolding set_to_place [OF laws(1) st(5)] st(2)
    using nodeIPs_carried [OF laws(1) init node] namespaceIPs_wanted [OF laws(1) ns] by blast
  note nb = nodesByNumber_ok [OF laws(1) lists, of new]
  note ref = placeIPs_refines [OF lists nb(1,3), of E toBe, unfolded place sum.case prod.case]
  then have P: "placements (ready_nodes rc) (to_place E toBe) (gm_get [] new) (gm_get [] new')"
    and ok: "buckets_ok rc new' byCIDR" "distinct (gm_keys byCIDR)"
      "fst ` set (nodesByNumber E rc new) \<subseteq> fst ` set byCIDR" by auto
  note idle = add_idle_get [OF ok(1) laws(1) ok(2)]
  have not_ready: "gm_get [] (add_idle E byCIDR new') n = []"
    if "\<not> node_ready rc n" for n
  proof (rule ccontr)
    assume "gm_get [] (add_idle E byCIDR new') n \<noteq> []"
    then obtain ip where "ip \<in> set (gm_get [] new' n)" unfolding idle(1) by (cases "gm_get [] new' n") auto
    from placements_sound [OF P this] that L dI(2) gm_get_in_keys [of ip ?I n] show False
      by (auto simp: ready_nodes_def)
  qed
  note nr = add_not_ready_get [OF laws(1) init not_ready, folded R]
  show thesis
  proof (rule that)
    have "gm_get [] R = gm_get [] new'" by (rule ext) (simp add: nr(1) idle(1))
    with P show "placements (ready_nodes rc) (to_place E toBe) (gm_get [] new) (gm_get [] R)" by simp
    show "distinct (to_place E toBe)"
    proof -
      have "distinct (concat (map (\<lambda>c. map (Pair c) (g c)) ks))" if "distinct ks" "\<And>c. distinct (g c)"
        for ks :: "string list" and g :: "string \<Rightarrow> string list"
        using that by (induction ks) (auto simp: distinct_map inj_on_def)
      then show ?thesis unfolding to_place_def using st(3) range_lawsD(1) [OF laws(1) st(5)] by blast
    qed
    fix n assume n: "(\<exists>c. n \<in> ready_nodes rc c) \<or> n \<in> set (gm_keys (rc_SelectedNodes rc)) \<and> \<not> node_ready rc n"
    show "n \<in> fst ` set R"
    proof (cases "\<exists>c. n \<in> ready_nodes rc c")
      case True
      then obtain c where c: "n \<in> ready_nodes rc c" ..
      then have "c \<in> fst ` set (rc_SelectedNodesByCIDR rc)" unfolding ready_nodes_def by (auto dest: gm_get_in_keys)
      then have "c \<in> fst ` set byCIDR" using ok(3) nb(2) by blast
      with idle(3) [OF _ c] nr(2) show ?thesis by blast
    qed (use n nr(3) in blast)
  qed (use L X in blast)+
qed


lemma placements_received:
  assumes "placements ready xs L L'" "ip \<in> set (L' n)" "ip \<notin> set (L n)"
  shows "length (L n) < length (L' n)"
  using assms
proof (induction rule: placements.induct)
  case (placements_some m c L xs ip' L')
  show ?case
  proof (cases "n = m")
    case True
    then show ?thesis using placements_grow [OF placements_some.hyps(3), of n] by simp
  qed (use placements_some in simp)
qed simp

definition cidrs_disjoint :: "rcontext \<Rightarrow> bool" where
  "cidrs_disjoint rc \<longleftrightarrow> (\<forall>c \<in> set (rc_CIDRs rc). \<forall>c' \<in> set (rc_CIDRs rc). c \<noteq> c' \<longrightarrow>
     (\<forall>a. \<not> (in_cidr c a \<and> in_cidr c' a)))"

lemma wanted_in_cidr:
  assumes "cidrs_ok rc" "c \<in> set (rc_CIDRs rc)" "wanted rc c ip"
  shows "in_cidr c (ParseIP ip)"
proof -
  from assms(3) obtain s where s: "in_cidr c (ParseIP s)" "ip = IP_String (ParseIP s)" by (auto simp: wanted_def)
  obtain w b n where net: "ParseCIDR c = Inr (IPv4 w, Net4 b n)" "map_of (rc_NetCIDRByCIDR rc) c = Some (Net4 b n)"
    "\<forall>a \<in> set (gm_get [] (rc_ReservedIPsByCIDR rc) c). net_contains (Net4 b n) a"
    using cidrs_okE [OF assms(1,2)] .
  have "is_IPv4 (ParseIP s)" by (rule in_cidr_IPv4 [OF net(1) ParseCIDR_net_ok(3) [OF net(1)] s(1)])
  then have "ParseIP ip = ParseIP s" unfolding s(2) by (cases "ParseIP s") (simp_all del: IP_String.simps)
  with s(1) show ?thesis by simp
qed

section \<open>Properties\<close>

lemma assignIPsToNodes_serves:
  assumes "range_laws E" "strset_laws E" "node_lists_ok rc" "initial_ok rc" "assignIPsToNodes E rc = Inr R"
  shows "(\<exists>n. ip \<in> set (gm_get [] R n)) \<longleftrightarrow> (\<exists>c \<in> set (rc_CIDRs rc). wanted rc c ip)"
proof -
  from assms obtain xs L where P: "placements (ready_nodes rc) xs L (gm_get [] R)"
    and L: "\<And>n ip. ip \<in> set (L n) \<longleftrightarrow> ip \<in> set (gm_get [] (rc_InitiallyAssignedIPsByNode rc) n) \<and>
      (\<exists>c \<in> set (rc_CIDRs rc). carried rc c ip \<and> wanted rc c ip)"
    and X: "\<And>c ip. (c, ip) \<in> set xs \<longleftrightarrow> c \<in> set (rc_CIDRs rc) \<and> wanted rc c ip \<and> \<not> carried rc c ip"
    by (rule assignIPsToNodes_result) blast
  show ?thesis
  proof
    assume "\<exists>n. ip \<in> set (gm_get [] R n)"
    then show "\<exists>c \<in> set (rc_CIDRs rc). wanted rc c ip" using placements_sound [OF P] L X by blast
  next
    assume "\<exists>c \<in> set (rc_CIDRs rc). wanted rc c ip"
    then obtain c where c: "c \<in> set (rc_CIDRs rc)" "wanted rc c ip" ..
    show "\<exists>n. ip \<in> set (gm_get [] R n)"
    proof (cases "carried rc c ip")
      case True
      then obtain n where "ip \<in> set (gm_get [] (rc_InitiallyAssignedIPsByNode rc) n)" by (auto simp: carried_def)
      then have "ip \<in> set (L n)" using L c True by blast
      then show ?thesis using placements_grow [OF P] by blast
    next
      case False
      then show ?thesis using placements_covers [OF P] X c by blast
    qed
  qed
qed

text \<open>
  C6. Every address a namespace holds is served, and nothing else: when \<open>assignIPsToNodes\<close>
  returns, each address of each namespace (that lies in a CIDR of the EgressIPAM) is on some
  node, and each address on a node is one of a namespace.
\<close>

theorem assignIPsToNodes_serves_exactly:
  assumes "range_laws E" "strset_laws E" "node_lists_ok rc" "initial_ok rc" "assignIPsToNodes E rc = Inr R"
  shows "(\<exists>n. ip \<in> set (gm_get [] R n)) \<longleftrightarrow> (\<exists>c \<in> set (rc_CIDRs rc). wanted rc c ip)"
  using assms by (rule assignIPsToNodes_serves)

lemma assignIPsToNodes_keeps:
  assumes "range_laws E" "strset_laws E" "node_lists_ok rc" "initial_ok rc" "assignIPsToNodes E rc = Inr R"
  shows "if ip \<in> set (gm_get [] (rc_InitiallyAssignedIPsByNode rc) n)
    then (\<exists>c \<in> set (rc_CIDRs rc). in_cidr c (ParseIP ip) \<and> wanted rc c ip) \<longrightarrow> ip \<in> set (gm_get [] R n)
    else ip \<in> set (gm_get [] R n) \<longrightarrow>
      (\<exists>c \<in> set (rc_CIDRs rc). n \<in> ready_nodes rc c \<and> wanted rc c ip \<and> \<not> carried rc c ip)"
proof -
  from assms obtain xs L where P: "placements (ready_nodes rc) xs L (gm_get [] R)"
    and L: "\<And>n ip. ip \<in> set (L n) \<longleftrightarrow> ip \<in> set (gm_get [] (rc_InitiallyAssignedIPsByNode rc) n) \<and>
      (\<exists>c \<in> set (rc_CIDRs rc). carried rc c ip \<and> wanted rc c ip)"
    and X: "\<And>c ip. (c, ip) \<in> set xs \<longleftrightarrow> c \<in> set (rc_CIDRs rc) \<and> wanted rc c ip \<and> \<not> carried rc c ip"
    by (rule assignIPsToNodes_result) blast
  show ?thesis
  proof (cases "ip \<in> set (gm_get [] (rc_InitiallyAssignedIPsByNode rc) n)")
    case True
    then have "n \<in> set (gm_keys (rc_InitiallyAssignedIPsByNode rc))" by (auto dest: gm_get_in_keys)
    then have "carried rc c ip" if "in_cidr c (ParseIP ip)" for c using True that by (auto simp: carried_def)
    then have "(\<exists>c \<in> set (rc_CIDRs rc). in_cidr c (ParseIP ip) \<and> wanted rc c ip) \<longrightarrow> ip \<in> set (L n)"
      using L True by blast
    with True show ?thesis using placements_grow [OF P, of n] by auto
  next
    case False
    then have "ip \<in> set (gm_get [] R n) \<longrightarrow> (\<exists>c. (c, ip) \<in> set xs \<and> n \<in> ready_nodes rc c)"
      using placements_sound [OF P, of ip n] L by blast
    with False X show ?thesis by auto
  qed
qed

text \<open>
  C16. Stability: an address that a ready node carries and a namespace still holds stays on
  that node; an address appears on a node that did not carry it only when no ready node
  carried it, and then on a ready node of a CIDR the address belongs to.
\<close>

theorem assignIPsToNodes_stable:
  assumes "range_laws E" "strset_laws E" "node_lists_ok rc" "initial_ok rc" "assignIPsToNodes E rc = Inr R"
  shows "if ip \<in> set (gm_get [] (rc_InitiallyAssignedIPsByNode rc) n)
    then (\<exists>c \<in> set (rc_CIDRs rc). in_cidr c (ParseIP ip) \<and> wanted rc c ip) \<longrightarrow> ip \<in> set (gm_get [] R n)
    else ip \<in> set (gm_get [] R n) \<longrightarrow>
      (\<exists>c \<in> set (rc_CIDRs rc). n \<in> ready_nodes rc c \<and> wanted rc c ip \<and> \<not> carried rc c ip)"
  using assms by (rule assignIPsToNodes_keeps)

text \<open>
  C15. Balance: a node that received an address ends with at most one address more than any
  other ready node of the same CIDR.
\<close>

theorem assignIPsToNodes_balanced:
  assumes "range_laws E" "strset_laws E" "node_lists_ok rc" "initial_ok rc" "assignIPsToNodes E rc = Inr R"
    and "n \<in> ready_nodes rc c" "n' \<in> ready_nodes rc c"
    and "\<exists>ip \<in> set (gm_get [] R n). ip \<notin> set (gm_get [] (rc_InitiallyAssignedIPsByNode rc) n)"
  shows "length (gm_get [] R n) \<le> length (gm_get [] R n') + 1"
proof -
  from assms(1-5) obtain xs L where P: "placements (ready_nodes rc) xs L (gm_get [] R)"
    and L: "\<And>n ip. ip \<in> set (L n) \<longleftrightarrow> ip \<in> set (gm_get [] (rc_InitiallyAssignedIPsByNode rc) n) \<and>
      (\<exists>c \<in> set (rc_CIDRs rc). carried rc c ip \<and> wanted rc c ip)"
    by (rule assignIPsToNodes_result) blast
  from assms(8) obtain ip where ip: "ip \<in> set (gm_get [] R n)" "ip \<notin> set (L n)" using L by blast
  have "length (L n) < length (gm_get [] R n)" using placements_received [OF P ip] .
  moreover have "c = c'" if "m \<in> ready_nodes rc c" "m \<in> ready_nodes rc c'" for c c' m
    using ready_nodes_disjoint [OF assms(3) that] .
  ultimately show ?thesis using placements_balance [OF P _ _ assms(6,7)] by blast
qed

text \<open>
  C17. No address on two nodes: if no two nodes carry the same address and the CIDRs of the
  EgressIPAM are disjoint IPv4 networks, then no two nodes carry the same address afterwards.
\<close>

theorem assignIPsToNodes_one_node_per_address:
  assumes "range_laws E" "strset_laws E" "node_lists_ok rc" "initial_ok rc" "assignIPsToNodes E rc = Inr R"
    and "cidrs_ok rc" "cidrs_disjoint rc"
    and "\<forall>m m'. m \<noteq> m' \<longrightarrow> set (gm_get [] (rc_InitiallyAssignedIPsByNode rc) m) \<inter>
      set (gm_get [] (rc_InitiallyAssignedIPsByNode rc) m') = {}"
    and "n \<noteq> n'"
  shows "set (gm_get [] R n) \<inter> set (gm_get [] R n') = {}"
proof -
  let ?I = "rc_InitiallyAssignedIPsByNode rc"
  from assms(1-5) obtain xs L where P: "placements (ready_nodes rc) xs L (gm_get [] R)"
    and L: "\<And>n ip. ip \<in> set (L n) \<longleftrightarrow> ip \<in> set (gm_get [] ?I n) \<and>
      (\<exists>c \<in> set (rc_CIDRs rc). carried rc c ip \<and> wanted rc c ip)"
    and X: "\<And>c ip. (c, ip) \<in> set xs \<longleftrightarrow> c \<in> set (rc_CIDRs rc) \<and> wanted rc c ip \<and> \<not> carried rc c ip"
    and dist: "distinct xs"
    by (rule assignIPsToNodes_result) blast
  have same: "c = c'" if "c \<in> set (rc_CIDRs rc)" "c' \<in> set (rc_CIDRs rc)" "wanted rc c ip" "wanted rc c' ip" for c c' ip
    using wanted_in_cidr [OF assms(6)] that assms(7) unfolding cidrs_disjoint_def by blast
  have "inj_on snd (set xs)" using X same by (auto simp: inj_on_def)
  then have "distinct (map snd xs)" using dist by (simp add: distinct_map)
  moreover have "ip \<notin> set (L m)" if "ip \<in> snd ` set xs" for ip m
    using that X L same by fastforce
  moreover have "set (L m) \<inter> set (L m') = {}" if "m \<noteq> m'" for m m'
    using assms(8) that L by blast
  ultimately show ?thesis using placements_unique [OF P _ _ _ assms(9)] by blast
qed

lemma assignIPsToNodes_fails:
  assumes "range_laws E" "strset_laws E" "node_lists_ok rc" "initial_ok rc" "nets_ok rc"
    and "\<forall>n \<in> set (rc_FinallyAssignedNamespaces rc). ns_ips n \<noteq> None"
  shows "(\<exists>e. assignIPsToNodes E rc = Inl e) \<longleftrightarrow>
    (\<exists>c \<in> set (rc_CIDRs rc). ready_nodes rc c = {} \<and> (\<exists>ip. wanted rc c ip \<and> \<not> carried rc c ip))"
proof -
  have parse: "\<forall>c \<in> set (rc_CIDRs rc). \<exists>r. ParseCIDR c = Inr r" using assms(5) unfolding nets_ok_def by blast
  obtain nodeIPs where node: "nodeIPsByCIDR E rc = Inr nodeIPs"
    unfolding nodeIPsByCIDR_def using collect_by_cidr_total [OF assms(1) parse]
    by (metis (no_types, lifting))
  have "\<forall>n \<in> set (rc_FinallyAssignedNamespaces rc). \<exists>ips. namespace_ips n = Inr ips"
    using assms(6) by (auto simp: namespace_ips_def)
  then obtain nsIPs where ns: "namespaceIPsByCIDR E rc = Inr nsIPs"
    using collect_by_cidr_total [OF assms(1) parse] unfolding namespaceIPsByCIDR_def by blast
  let ?toBe = "toBeAssigned E (rc_CIDRs rc) nodeIPs nsIPs"
  let ?new = "keptIPsByNode E rc (stillAssigned E nodeIPs nsIPs)"
  note nodeC = collect_by_cidr_Inr(1,2) [OF assms(1) node [unfolded nodeIPsByCIDR_def]]
  note nsC = collect_by_cidr_Inr(1,2) [OF assms(1) ns [unfolded namespaceIPsByCIDR_def]]
  note st = still_toBe_get [OF assms(1,2) nsC nodeC]
  have X: "(c, ip) \<in> set (to_place E ?toBe) \<longleftrightarrow> c \<in> set (rc_CIDRs rc) \<and> wanted rc c ip \<and> \<not> carried rc c ip" for c ip
    unfolding set_to_place [OF assms(1) st(5)] st(2)
    using nodeIPs_carried [OF assms(1,4) node] namespaceIPs_wanted [OF assms(1) ns] by blast
  note nb = nodesByNumber_ok [OF assms(1,3), of ?new]
  note ref = placeIPs_refines [OF assms(3) nb(1,3), of E ?toBe]
  have "(\<exists>e. assignIPsToNodes E rc = Inl e) \<longleftrightarrow> (\<exists>e. placeIPs E ?toBe (?new, nodesByNumber E rc ?new) = Inl e)"
    by (auto simp: assignIPsToNodes_def node ns Let_def bind_err_def split: sum.splits)
  also have "\<dots> \<longleftrightarrow> (\<exists>(c, ip) \<in> set (to_place E ?toBe). ready_nodes rc c = {})"
    using ref by (cases "placeIPs E ?toBe (?new, nodesByNumber E rc ?new)") (auto split: prod.splits)
  also have "\<dots> \<longleftrightarrow> (\<exists>c \<in> set (rc_CIDRs rc). ready_nodes rc c = {} \<and> (\<exists>ip. wanted rc c ip \<and> \<not> carried rc c ip))"
    using X by blast
  finally show ?thesis .
qed

text \<open>
  C20. The only error on a well-formed context is the one of line 287: \<open>assignIPsToNodes\<close>
  fails exactly when a CIDR has an address that has to be placed and no ready node.
\<close>

theorem assignIPsToNodes_fails_iff:
  assumes "range_laws E" "strset_laws E" "node_lists_ok rc" "initial_ok rc" "nets_ok rc"
    and "\<forall>n \<in> set (rc_FinallyAssignedNamespaces rc). ns_ips n \<noteq> None"
  shows "(\<exists>e. assignIPsToNodes E rc = Inl e) \<longleftrightarrow>
    (\<exists>c \<in> set (rc_CIDRs rc). ready_nodes rc c = {} \<and> (\<exists>ip. wanted rc c ip \<and> \<not> carried rc c ip))"
  using assms by (rule assignIPsToNodes_fails)

text \<open>
  Every node has an entry: each ready node of a CIDR and each selected node that is not
  ready is a key of the result, the latter with no address, so that the addresses of a node
  that stopped being ready are removed from it.
\<close>

lemma assignIPsToNodes_entries:
  assumes "range_laws E" "strset_laws E" "node_lists_ok rc" "initial_ok rc" "assignIPsToNodes E rc = Inr R"
  shows "(\<forall>c. ready_nodes rc c \<subseteq> fst ` set R) \<and>
    (\<forall>n \<in> set (gm_keys (rc_SelectedNodes rc)). \<not> node_ready rc n \<longrightarrow> n \<in> fst ` set R \<and> gm_get [] R n = [])"
proof -
  from assms obtain xs L where P: "placements (ready_nodes rc) xs L (gm_get [] R)"
    and L: "\<And>n ip. ip \<in> set (L n) \<longleftrightarrow> ip \<in> set (gm_get [] (rc_InitiallyAssignedIPsByNode rc) n) \<and>
      (\<exists>c \<in> set (rc_CIDRs rc). carried rc c ip \<and> wanted rc c ip)"
    and keys: "\<And>n. (\<exists>c. n \<in> ready_nodes rc c) \<or>
      n \<in> set (gm_keys (rc_SelectedNodes rc)) \<and> \<not> node_ready rc n \<Longrightarrow> n \<in> fst ` set R"
    by (rule assignIPsToNodes_result) blast
  have "gm_get [] R n = []" if "\<not> node_ready rc n" for n
  proof (rule ccontr)
    assume "gm_get [] R n \<noteq> []"
    then obtain ip where "ip \<in> set (gm_get [] R n)" by (cases "gm_get [] R n") auto
    from placements_sound [OF P this] have "ip \<in> set (L n)" using that by (auto simp: ready_nodes_def)
    then have "n \<in> fst ` set (rc_InitiallyAssignedIPsByNode rc)" using L by (auto dest: gm_get_in_keys)
    then show False using assms(4) that by (auto simp: initial_ok_def)
  qed
  with keys show ?thesis by blast
qed


text \<open>A second run, on a context that finds the addresses where the first run put them.\<close>

lemma assignIPsToNodes_again:
  assumes "range_laws E" "strset_laws E" "node_lists_ok rc" "initial_ok rc" "assignIPsToNodes E rc = Inr R"
    and "cidrs_ok rc" "range_laws E'" "strset_laws E'" "node_lists_ok rc'" "initial_ok rc'" "nets_ok rc'"
    and "\<forall>n \<in> set (rc_FinallyAssignedNamespaces rc'). ns_ips n \<noteq> None"
    and same: "rc_CIDRs rc' = rc_CIDRs rc" "wanted rc' = wanted rc"
    and found: "\<And>n. set (gm_get [] (rc_InitiallyAssignedIPsByNode rc') n) = set (gm_get [] R n)"
  shows "\<exists>R'. assignIPsToNodes E' rc' = Inr R' \<and> (\<forall>n. set (gm_get [] R' n) = set (gm_get [] R n))"
proof -
  have served: "(\<exists>n. ip \<in> set (gm_get [] R n)) \<longleftrightarrow> (\<exists>c \<in> set (rc_CIDRs rc). wanted rc c ip)" for ip
    by (rule assignIPsToNodes_serves [OF assms(1-5)])
  have carried: "carried rc' c ip" if "c \<in> set (rc_CIDRs rc)" "wanted rc c ip" for c ip
  proof -
    have "\<exists>n. ip \<in> set (gm_get [] R n)" using that by (intro iffD2 [OF served] bexI [of _ c])
    then obtain n where n: "ip \<in> set (gm_get [] (rc_InitiallyAssignedIPsByNode rc') n)" using found by blast
    have "in_cidr c (ParseIP ip)" by (rule wanted_in_cidr [OF assms(6) that])
    moreover have "n \<in> fst ` set (rc_InitiallyAssignedIPsByNode rc')" by (rule gm_get_in_keys [OF n])
    ultimately show ?thesis using n unfolding carried_def by auto
  qed
  have "\<not> (\<exists>e. assignIPsToNodes E' rc' = Inl e)"
    unfolding assignIPsToNodes_fails [OF assms(7-12)] unfolding same using carried by metis
  then obtain R' where R': "assignIPsToNodes E' rc' = Inr R'" by (cases "assignIPsToNodes E' rc'") auto
  have keeps: "if ip \<in> set (gm_get [] R n)
    then (\<exists>c \<in> set (rc_CIDRs rc). in_cidr c (ParseIP ip) \<and> wanted rc c ip) \<longrightarrow> ip \<in> set (gm_get [] R' n)
    else ip \<in> set (gm_get [] R' n) \<longrightarrow>
      (\<exists>c \<in> set (rc_CIDRs rc). n \<in> ready_nodes rc' c \<and> wanted rc c ip \<and> \<not> carried rc' c ip)" for ip n
    using assignIPsToNodes_keeps [OF assms(7-10) R', of ip n] unfolding same found .
  have "ip \<in> set (gm_get [] R' n) \<longleftrightarrow> ip \<in> set (gm_get [] R n)" for ip n
  proof (cases "ip \<in> set (gm_get [] R n)")
    case True
    then obtain c where c: "c \<in> set (rc_CIDRs rc)" "wanted rc c ip" using served by blast
    have "in_cidr c (ParseIP ip)" by (rule wanted_in_cidr [OF assms(6) c])
    then have "ip \<in> set (gm_get [] R' n)" using keeps [of ip n] True c by (simp only: if_True) blast
    with True show ?thesis by (simp only:)
  next
    case False
    then show ?thesis using keeps [of ip n] carried by (simp only: if_False) blast
  qed
  with R' show ?thesis by blast
qed

text \<open>
  C18. The placement is a fixed point: when the next cycle finds the addresses where this one
  put them (in whatever order the HostSubnets list them), and neither the namespaces nor the
  readiness of the nodes have changed, \<open>assignIPsToNodes\<close> succeeds again and leaves every
  address on its node, also when maps and sets are visited in another order.
\<close>

theorem assignIPsToNodes_fixpoint:
  assumes "range_laws E" "strset_laws E" "node_lists_ok rc" "initial_ok rc" "assignIPsToNodes E rc = Inr R"
    and "cidrs_ok rc" "\<forall>n \<in> set (rc_FinallyAssignedNamespaces rc). ns_ips n \<noteq> None"
    and "range_laws E'" "strset_laws E'" "initial_ok (rc\<lparr>rc_InitiallyAssignedIPsByNode := I\<rparr>)"
    and "\<forall>n. set (gm_get [] I n) = set (gm_get [] R n)"
  shows "\<exists>R'. assignIPsToNodes E' (rc\<lparr>rc_InitiallyAssignedIPsByNode := I\<rparr>) = Inr R' \<and>
    (\<forall>n. set (gm_get [] R' n) = set (gm_get [] R n))"
proof (rule assignIPsToNodes_again [OF assms(1-6,8,9) _ assms(10)])
  let ?rc = "rc\<lparr>rc_InitiallyAssignedIPsByNode := I\<rparr>"
  show "node_lists_ok ?rc" "wanted ?rc = wanted rc"
    using assms(3) by (simp_all add: fun_eq_iff wanted_def node_lists_ok_def)
  have "nets_ok rc" unfolding nets_ok_def using cidrs_okE [OF assms(6)] by blast
  then show "nets_ok ?rc" by (simp add: nets_ok_def)
qed (use assms(7,11) in simp_all)

section \<open>Witnesses\<close>

text \<open>Nodes n1 and n3 in the first CIDR, n2 and n4 (not ready) in the second; n1 carries one address.\<close>

definition example_rc_nodes :: rcontext where
  "example_rc_nodes =
    (let nodes = [(''n1'', example_node ''n1'' ''a'' True), (''n2'', example_node ''n2'' ''b'' True),
           (''n3'', example_node ''n3'' ''a'' True), (''n4'', example_node ''n4'' ''b'' False)] in
     example_rc\<lparr>rc_AllNodes := nodes, rc_SelectedNodes := nodes,
       rc_SelectedNodesByCIDR := [(''10.0.0.0/29'', [''n1'', ''n3'']), (''10.0.1.0/29'', [''n2'', ''n4''])],
       rc_InitiallyAssignedIPsByNode := [(''n1'', [''10.0.0.2'']), (''n2'', []), (''n3'', [])],
       rc_FinallyAssignedNamespaces := [example_ns ''ns1'' (Some ''10.0.0.2,10.0.1.2''),
         example_ns ''ns2'' (Some ''10.0.0.4,10.0.1.3'')]\<rparr>)"

lemma example_nodes_ok: "node_lists_ok example_rc_nodes" "initial_ok example_rc_nodes" "cidrs_ok example_rc_nodes"
  "nets_ok example_rc_nodes"
proof -
  let ?S = "rc_SelectedNodesByCIDR example_rc_nodes"
  have S: "?S = [(''10.0.0.0/29'', [''n1'', ''n3'']), (''10.0.1.0/29'', [''n2'', ''n4''])]"
    by (simp add: example_rc_nodes_def Let_def)
  have get: "gm_get [] ?S c = (if c = ''10.0.0.0/29'' then [''n1'', ''n3''] else
      if c = ''10.0.1.0/29'' then [''n2'', ''n4''] else [])" for c
    unfolding S by (simp add: gm_get_def)
  show "node_lists_ok example_rc_nodes"
    unfolding node_lists_ok_def get by (auto simp: S)
  show "initial_ok example_rc_nodes" by code_simp
  show ok: "cidrs_ok example_rc_nodes" by code_simp
  show "nets_ok example_rc_nodes"
    unfolding nets_ok_def
  proof
    fix c assume "c \<in> set (rc_CIDRs example_rc_nodes)"
    from cidrs_okE [OF ok this] show "\<exists>base net. ParseCIDR c = Inr (base, net) \<and>
        map_of (rc_NetCIDRByCIDR example_rc_nodes) c = Some net" by blast
  qed
qed

definition example_nodes_result :: ips_by where
  "example_nodes_result = [(''n1'', [''10.0.0.2'']), (''n3'', [''10.0.0.4'']), (''n2'', [''10.0.1.2'', ''10.0.1.3'']), (''n4'', [])]"

lemma example_nodes_assigned: "assignIPsToNodes example_env example_rc_nodes = Inr example_nodes_result"
  by code_simp


lemmas example_nodes_run =
  example_env_laws(1,6) example_nodes_ok(1,2) example_nodes_assigned

theorem assignIPsToNodes_serves_exactly_witness:
  "assignIPsToNodes example_env example_rc_nodes = Inr example_nodes_result \<and>
   (\<exists>c \<in> set (rc_CIDRs example_rc_nodes). wanted example_rc_nodes c ''10.0.1.3'') \<and>
   \<not> (\<exists>c \<in> set (rc_CIDRs example_rc_nodes). wanted example_rc_nodes c ''10.0.1.4'')"
proof -
  have "''10.0.1.3'' \<in> set (gm_get [] example_nodes_result ''n2'')" by code_simp
  moreover have "''10.0.1.4'' \<notin> set (gm_get [] example_nodes_result n)" for n
    by (simp add: example_nodes_result_def gm_get_def)
  ultimately show ?thesis
    using assignIPsToNodes_serves_exactly [OF example_nodes_run] example_nodes_assigned by blast
qed

theorem assignIPsToNodes_stable_witness:
  "''10.0.0.2'' \<in> set (gm_get [] example_nodes_result ''n1'') \<and>
   (\<exists>c \<in> set (rc_CIDRs example_rc_nodes). ''n3'' \<in> ready_nodes example_rc_nodes c \<and> wanted example_rc_nodes c ''10.0.0.4'')"
proof -
  have "''10.0.0.2'' \<in> set (gm_get [] (rc_InitiallyAssignedIPsByNode example_rc_nodes) ''n1'')"
    "''10.0.0.4'' \<notin> set (gm_get [] (rc_InitiallyAssignedIPsByNode example_rc_nodes) ''n3'')"
    "''10.0.0.4'' \<in> set (gm_get [] example_nodes_result ''n3'')"
    "in_cidr ''10.0.0.0/29'' (ParseIP ''10.0.0.2'')"
    "''10.0.0.0/29'' \<in> set (rc_CIDRs example_rc_nodes)"
    by code_simp+
  moreover have "wanted example_rc_nodes ''10.0.0.0/29'' ''10.0.0.2''"
    unfolding wanted_def
  proof (intro bexI exI conjI)
    show "example_ns ''ns1'' (Some ''10.0.0.2,10.0.1.2'') \<in> set (rc_FinallyAssignedNamespaces example_rc_nodes)"
      "ns_ips (example_ns ''ns1'' (Some ''10.0.0.2,10.0.1.2'')) = Some ''10.0.0.2,10.0.1.2''"
      "''10.0.0.2'' \<in> set (split_on (CHR '','') ''10.0.0.2,10.0.1.2'')"
      "in_cidr ''10.0.0.0/29'' (ParseIP ''10.0.0.2'')" "''10.0.0.2'' = IP_String (ParseIP ''10.0.0.2'')"
      by code_simp+
  qed
  ultimately show ?thesis
    using assignIPsToNodes_stable [OF example_nodes_run, of "''10.0.0.2''" "''n1''"]
      assignIPsToNodes_stable [OF example_nodes_run, of "''10.0.0.4''" "''n3''"] by (simp only: if_True if_False) blast
qed

theorem assignIPsToNodes_balanced_witness:
  "length (gm_get [] example_nodes_result ''n3'') \<le> length (gm_get [] example_nodes_result ''n1'') + 1"
proof (rule assignIPsToNodes_balanced [OF example_nodes_run, of _ "''10.0.0.0/29''"])
  show "''n3'' \<in> ready_nodes example_rc_nodes ''10.0.0.0/29''" "''n1'' \<in> ready_nodes example_rc_nodes ''10.0.0.0/29''"
    by code_simp+
  show "\<exists>ip \<in> set (gm_get [] example_nodes_result ''n3'').
      ip \<notin> set (gm_get [] (rc_InitiallyAssignedIPsByNode example_rc_nodes) ''n3'')"
    by code_simp
qed

theorem assignIPsToNodes_one_node_per_address_witness:
  "set (gm_get [] example_nodes_result ''n1'') \<inter> set (gm_get [] example_nodes_result ''n3'') = {}"
proof (rule assignIPsToNodes_one_node_per_address [OF example_nodes_run example_nodes_ok(3)])
  have cidrs: "rc_CIDRs example_rc_nodes = [''10.0.0.0/29'', ''10.0.1.0/29'']" by code_simp
  have nets: "ParseCIDR ''10.0.0.0/29'' = Inr (IPv4 0x0A000000, Net4 0x0A000000 29)"
    "ParseCIDR ''10.0.1.0/29'' = Inr (IPv4 0x0A000100, Net4 0x0A000100 29)"
    "(0x0A000000 :: 32 word) AND mask4 29 \<noteq> 0x0A000100 AND mask4 29" by code_simp+
  show "cidrs_disjoint example_rc_nodes"
    unfolding cidrs_disjoint_def cidrs in_cidr_def using nets by (auto split: ip.splits)
  have I: "rc_InitiallyAssignedIPsByNode example_rc_nodes = [(''n1'', [''10.0.0.2'']), (''n2'', []), (''n3'', [])]"
    by (simp add: example_rc_nodes_def Let_def)
  show "\<forall>m m'. m \<noteq> m' \<longrightarrow> set (gm_get [] (rc_InitiallyAssignedIPsByNode example_rc_nodes) m) \<inter>
      set (gm_get [] (rc_InitiallyAssignedIPsByNode example_rc_nodes) m') = {}"
    unfolding I by (auto simp: gm_get_def)
qed simp

theorem assignIPsToNodes_fails_iff_witness:
  "\<not> (\<exists>c \<in> set (rc_CIDRs example_rc_nodes). ready_nodes example_rc_nodes c = {} \<and>
     (\<exists>ip. wanted example_rc_nodes c ip \<and> \<not> carried example_rc_nodes c ip))"
proof -
  have "\<forall>n \<in> set (rc_FinallyAssignedNamespaces example_rc_nodes). ns_ips n \<noteq> None" by code_simp
  then show ?thesis
    using assignIPsToNodes_fails_iff [OF example_env_laws(1,6) example_nodes_ok(1,2,4)] example_nodes_assigned by auto
qed

theorem assignIPsToNodes_fixpoint_witness:
  "\<exists>R'. assignIPsToNodes example_env (example_rc_nodes\<lparr>rc_InitiallyAssignedIPsByNode :=
      [(''n3'', [''10.0.0.4'']), (''n2'', [''10.0.1.3'', ''10.0.1.2'']), (''n1'', [''10.0.0.2''])]\<rparr>) = Inr R' \<and>
     (\<forall>n. set (gm_get [] R' n) = set (gm_get [] example_nodes_result n))"
proof (rule assignIPsToNodes_fixpoint [OF example_nodes_run example_nodes_ok(3) _ example_env_laws(1,6)])
  show "\<forall>n \<in> set (rc_FinallyAssignedNamespaces example_rc_nodes). ns_ips n \<noteq> None" by code_simp
  show "initial_ok (example_rc_nodes\<lparr>rc_InitiallyAssignedIPsByNode :=
      [(''n3'', [''10.0.0.4'']), (''n2'', [''10.0.1.3'', ''10.0.1.2'']), (''n1'', [''10.0.0.2''])]\<rparr>)" by code_simp
  show "\<forall>n. set (gm_get [] [(''n3'', [''10.0.0.4'']), (''n2'', [''10.0.1.3'', ''10.0.1.2'']), (''n1'', [''10.0.0.2''])] n) =
      set (gm_get [] example_nodes_result n)"
    by (auto simp: example_nodes_result_def gm_get_def)
qed

end
