(* ===== verification/NetNamespaces.thy ===== *)
theory NetNamespaces
  imports BareMetal
begin

text \<open>
  \<open>controllers/egressipam/netnamespace.go\<close>: the egress addresses of the NetNamespaces, which
  follow the annotation of the namespace of the same name, and their watch handler.
\<close>

section \<open>Operations\<close>

definition GetNetNamespaceEgressIPsAsStrings :: "slice \<Rightarrow> string list" where
  "GetNetNamespaceEgressIPsAsStrings IPs = map (\<lambda>ip. ip) (slice_elems IPs)"

definition GetNetNamespaceEgressIPs :: "string list \<Rightarrow> slice" where
  "GetNetNamespaceEgressIPs IPs = Some (map (\<lambda>ip. ip) IPs)"

definition getNamespace :: "goenv \<Rightarrow> netnamespace \<Rightarrow> history \<Rightarrow> namespace \<times> err option" where
  "getNamespace E nn h =
     (case get_namespace E (nn_name nn) h of
        Inl e \<Rightarrow> (\<lparr>ns_name = '''', ns_annotations = None\<rparr>, Some e)
      | Inr n \<Rightarrow> (n, None))"

text \<open>The handlers go on with the empty namespace when the lookup failed.\<close>

definition NetNamespace_Create :: "goenv \<Rightarrow> kobject \<Rightarrow> history \<Rightarrow> string list" where
  "NetNamespace_Create E obj h =
     (case obj of
        KNetNamespace nn \<Rightarrow> enqueue_annotation (ns_annotations (fst (getNamespace E nn h)))
      | _ \<Rightarrow> [])"

definition NetNamespace_Update :: "goenv \<Rightarrow> kobject \<Rightarrow> kobject \<Rightarrow> history \<Rightarrow> string list" where
  "NetNamespace_Update E old new h =
     (case old of
        KNetNamespace nn \<Rightarrow>
          enqueue_annotation (ns_annotations (fst (getNamespace E nn h))) @
          (case new of
             KNetNamespace nn' \<Rightarrow> enqueue_annotation (ns_annotations (fst (getNamespace E nn' h)))
           | _ \<Rightarrow> [])
      | _ \<Rightarrow> [])"

definition update_netnamespace :: "goenv \<Rightarrow> rcontext \<Rightarrow> namespace goroutine" where
  "update_netnamespace E rc n h =
     (case ns_ips n of
        None \<Rightarrow> (Some (ErrNew (''namespace '' @ ns_name n @ '' doesn't have required annotation: '' @
          NamespaceAssociationAnnotation)), h)
      | Some ipstring \<Rightarrow>
          let IPs = split_on (CHR '','') ipstring;
              nn = gm_get zero_netnamespace (rc_NetNamespaces rc) (ns_name n)
          in if \<not> DeepEqual (NetNamespaceEgressIPs (nn_egressIPs nn)) (StringSlice (Some IPs))
             then perform E (UpdateNetNamespace (nn\<lparr>nn_egressIPs := GetNetNamespaceEgressIPs IPs\<rparr>)) h
             else (None, h))"

definition reconcileNetNamespaces :: "goenv \<Rightarrow> rcontext \<Rightarrow> (history, unit) action" where
  "reconcileNetNamespaces E rc = go_all E 104 (update_netnamespace E rc) (rc_FinallyAssignedNamespaces rc)"

definition clear_netnamespace :: "goenv \<Rightarrow> rcontext \<Rightarrow> namespace goroutine" where
  "clear_netnamespace E rc n h =
     (let nn = gm_get zero_netnamespace (rc_NetNamespaces rc) (ns_name n)
      in if \<not> DeepEqual (NetNamespaceEgressIPs (nn_egressIPs nn)) (StringSlice (Some []))
         then perform E (UpdateNetNamespace (nn\<lparr>nn_egressIPs := Some []\<rparr>)) h
         else (None, h))"

definition removeNetnamespaceAssignedIPs :: "goenv \<Rightarrow> rcontext \<Rightarrow> (history, unit) action" where
  "removeNetnamespaceAssignedIPs E rc =
     go_all E 136 (clear_netnamespace E rc) (map snd (rc_ReferringNamespaces rc))"

definition getAllNetNamespaces :: "goenv \<Rightarrow> history \<Rightarrow> err + (string, netnamespace) gomap" where
  "getAllNetNamespaces E h =
     (case list_netnamespaces E h of
        Inl e \<Rightarrow> Inl e
      | Inr items \<Rightarrow> Inr (fold (\<lambda>nn. gm_put (nn_name nn) nn) items []))"

definition getNetNamespaceMapKeys :: "goenv \<Rightarrow> (string, netnamespace) gomap \<Rightarrow> string list" where
  "getNetNamespaceMapKeys E m = range_order E 175 (gm_keys m)"

section \<open>The calls of the parallel loops\<close>

text \<open>
  The guards compare values of different types, so they always hold: each goroutine makes
  exactly one call, which its namespace determines.
\<close>

definition netnamespace_with :: "rcontext \<Rightarrow> string list \<Rightarrow> namespace \<Rightarrow> api_call" where
  "netnamespace_with rc ips n =
     UpdateNetNamespace ((gm_get zero_netnamespace (rc_NetNamespaces rc) (ns_name n))\<lparr>nn_egressIPs := Some ips\<rparr>)"

definition netnamespace_plan :: "rcontext \<Rightarrow> namespace \<Rightarrow> err + api_call option" where
  "netnamespace_plan rc n =
     (case ns_ips n of
        None \<Rightarrow> Inl (ErrNew (''namespace '' @ ns_name n @ '' doesn't have required annotation: '' @
          NamespaceAssociationAnnotation))
      | Some v \<Rightarrow> Inr (Some (netnamespace_with rc (split_on (CHR '','') v) n)))"

lemma update_netnamespace_follow: "update_netnamespace E rc n = follow E (netnamespace_plan rc) n"
  by (rule ext) (simp add: update_netnamespace_def follow_def netnamespace_plan_def netnamespace_with_def
      DeepEqual_def GetNetNamespaceEgressIPs_def Let_def split: option.splits)

lemma clear_netnamespace_follow: "clear_netnamespace E rc n = follow E (\<lambda>n. Inr (Some (netnamespace_with rc [] n))) n"
  by (rule ext) (simp add: clear_netnamespace_def follow_def netnamespace_with_def DeepEqual_def Let_def)

lemma reconcileNetNamespaces_run:
  assumes "schedule_laws E" "multierror_laws E"
  shows "\<exists>r h'. reconcileNetNamespaces E rc h = (r, h @ h') \<and>
    mset (calls h') = mset (List.map_filter (\<lambda>n. map_option (\<lambda>v. netnamespace_with rc (split_on (CHR '','') v) n) (ns_ips n))
      (rc_FinallyAssignedNamespaces rc)) \<and>
    (r = Inr () \<longleftrightarrow> (\<forall>n \<in> set (rc_FinallyAssignedNamespaces rc). ns_ips n \<noteq> None) \<and> (\<forall>(c, q) \<in> set h'. q = None))"
proof -
  let ?ns = "rc_FinallyAssignedNamespaces rc"
  have "concat (map (planned (netnamespace_plan rc)) ns) =
      List.map_filter (\<lambda>n. map_option (\<lambda>v. netnamespace_with rc (split_on (CHR '','') v) n) (ns_ips n)) ns" for ns
    by (induction ns) (auto simp: planned_def netnamespace_plan_def List.map_filter_simps split: option.splits)
  moreover have "(\<forall>n \<in> set ?ns. \<forall>e. netnamespace_plan rc n \<noteq> Inl e) \<longleftrightarrow> (\<forall>n \<in> set ?ns. ns_ips n \<noteq> None)"
    by (auto simp: netnamespace_plan_def split: option.splits)
  ultimately show ?thesis
    using go_all_plan [OF assms, where f = "update_netnamespace E rc" and p = "netnamespace_plan rc" and xs = ?ns and l = 104 and h = h]
    by (simp add: reconcileNetNamespaces_def update_netnamespace_follow netnamespace_plan_def split: option.splits)
qed

text \<open>
  C24. NetNamespaces follow the annotations: whatever the schedule of the goroutines,
  \<open>reconcileNetNamespaces\<close> updates the NetNamespace of every assigned namespace exactly once,
  to the addresses of its annotation in their order, and makes no other call; it returns nil
  exactly when every namespace has the annotation and every update succeeded. (A namespace
  without it causes no call and an error.)
\<close>

theorem reconcileNetNamespaces_effect:
  assumes "schedule_laws E" "multierror_laws E"
  shows "\<exists>r h'. reconcileNetNamespaces E rc h = (r, h @ h') \<and>
    mset (calls h') = mset (List.map_filter (\<lambda>n. map_option (\<lambda>v. netnamespace_with rc (split_on (CHR '','') v) n) (ns_ips n))
      (rc_FinallyAssignedNamespaces rc)) \<and>
    (r = Inr () \<longleftrightarrow> (\<forall>n \<in> set (rc_FinallyAssignedNamespaces rc). ns_ips n \<noteq> None) \<and> (\<forall>(c, q) \<in> set h'. q = None))"
  using assms by (rule reconcileNetNamespaces_run)

lemma removeNetnamespaceAssignedIPs_run:
  assumes "schedule_laws E" "multierror_laws E"
  shows "\<exists>r h'. removeNetnamespaceAssignedIPs E rc h = (r, h @ h') \<and>
    mset (calls h') = mset (map (netnamespace_with rc []) (map snd (rc_ReferringNamespaces rc))) \<and>
    (r = Inr () \<longleftrightarrow> (\<forall>(c, q) \<in> set h'. q = None))"
proof -
  have "concat (map (planned (\<lambda>n. Inr (Some (netnamespace_with rc [] n)))) ns) = map (netnamespace_with rc []) ns" for ns
    by (induction ns) (simp_all add: planned_def)
  then show ?thesis
    using go_all_plan [OF assms, where f = "clear_netnamespace E rc" and p = "\<lambda>n. Inr (Some (netnamespace_with rc [] n))"
        and xs = "map snd (rc_ReferringNamespaces rc)" and l = 136 and h = h]
    by (simp add: removeNetnamespaceAssignedIPs_def clear_netnamespace_follow del: map_map)
qed

section \<open>Witnesses\<close>

definition example_rc_assigned :: rcontext where
  "example_rc_assigned = example_rc\<lparr>rc_FinallyAssignedNamespaces := rc_InitiallyAssignedNamespaces example_rc\<rparr>"

theorem reconcileNetNamespaces_effect_witness:
  "\<exists>r h'. reconcileNetNamespaces example_env example_rc_assigned [] = (r, h') \<and>
     mset (calls h') = {#UpdateNetNamespace \<lparr>nn_name = ''ns1'', nn_egressIPs = Some [''10.0.0.2'', ''10.0.1.2'']\<rparr>#} \<and>
     (r = Inr () \<longleftrightarrow> (\<forall>(c, q) \<in> set h'. q = None))"
proof -
  have "List.map_filter (\<lambda>n. map_option (\<lambda>v. netnamespace_with example_rc_assigned (split_on (CHR '','') v) n) (ns_ips n))
      (rc_FinallyAssignedNamespaces example_rc_assigned) =
      [UpdateNetNamespace \<lparr>nn_name = ''ns1'', nn_egressIPs = Some [''10.0.0.2'', ''10.0.1.2'']\<rparr>]"
    "\<forall>n \<in> set (rc_FinallyAssignedNamespaces example_rc_assigned). ns_ips n \<noteq> None" by code_simp+
  then show ?thesis
    using reconcileNetNamespaces_effect [OF example_env_laws(2,7), of example_rc_assigned "[]"] by simp
qed

end
