(* ===== verification/HostSubnets.thy ===== *)
theory HostSubnets
  imports BareMetal
begin

text \<open>
  \<open>controllers/egressipam/hostsubnet.go\<close>: the egress addresses and egress CIDRs of the
  HostSubnets of the nodes, and their watch handler.
\<close>

section \<open>Watch handler\<close>

fun matching_cidr :: "string \<Rightarrow> CIDRAssignment list \<Rightarrow> bool \<times> string" where
  "matching_cidr hostIP [] = (False, '''')"
| "matching_cidr hostIP (a # as) =
     (case ParseCIDR (CIDR a) of
        Inl e \<Rightarrow> (False, '''')
      | Inr (_, cidr) \<Rightarrow>
          if net_contains cidr (ParseIP hostIP) then (True, CIDR a) else matching_cidr hostIP as)"

definition matchesHostSubnet :: "EgressIPAM \<Rightarrow> hostsubnet \<Rightarrow> bool \<times> string" where
  "matchesHostSubnet x hs = matching_cidr (hs_hostIP hs) (CIDRAssignments x)"

definition HostSubnet_Create :: "goenv \<Rightarrow> kobject \<Rightarrow> history \<Rightarrow> string list" where
  "HostSubnet_Create E obj h =
     (case obj of KHostSubnet hs \<Rightarrow> enqueue_matching E (\<lambda>x. matchesHostSubnet x hs) h | _ \<Rightarrow> [])"

definition HostSubnet_Update :: "goenv \<Rightarrow> kobject \<Rightarrow> kobject \<Rightarrow> history \<Rightarrow> string list" where
  "HostSubnet_Update E old new h =
     (case new of KHostSubnet hs \<Rightarrow> enqueue_matching E (\<lambda>x. matchesHostSubnet x hs) h | _ \<Rightarrow> [])"

definition HostSubnet_Delete :: "goenv \<Rightarrow> kobject \<Rightarrow> history \<Rightarrow> string list" where
  "HostSubnet_Delete E obj h =
     (case obj of KHostSubnet hs \<Rightarrow> enqueue_matching E (\<lambda>x. matchesHostSubnet x hs) h | _ \<Rightarrow> [])"

section \<open>Operations\<close>

definition GetHostSubnetCIDRsAsStrings :: "slice \<Rightarrow> string list" where
  "GetHostSubnetCIDRsAsStrings CIDRs = map (\<lambda>cidr. cidr) (slice_elems CIDRs)"

definition GetHostSubnetCIDRs :: "string list \<Rightarrow> slice" where
  "GetHostSubnetCIDRs CIDRs = Some (map (\<lambda>cidr. cidr) CIDRs)"

definition GetHostHostSubnetEgressIPsAsStrings :: "slice \<Rightarrow> string list" where
  "GetHostHostSubnetEgressIPsAsStrings IPs = map (\<lambda>ip. ip) (slice_elems IPs)"

definition GetHostHostSubnetEgressIPs :: "string list \<Rightarrow> slice" where
  "GetHostHostSubnetEgressIPs IPs = Some (map (\<lambda>ip. ip) IPs)"

definition update_hostsubnet :: "goenv \<Rightarrow> rcontext \<Rightarrow> (string \<times> hostsubnet) goroutine" where
  "update_hostsubnet E rc = (\<lambda>(name, hs) h.
     let ips = gm_get [] (rc_FinallyAssignedIPsByNode rc) name in
     if \<not> str_is_equal E ips (GetHostHostSubnetEgressIPsAsStrings (hs_egressIPs hs))
     then perform E (UpdateHostSubnet
       (hs\<lparr>hs_egressCIDRs := Some [], hs_egressIPs := GetHostHostSubnetEgressIPs ips\<rparr>)) h
     else (None, h))"

definition reconcileHSAssignedIPs :: "goenv \<Rightarrow> rcontext \<Rightarrow> (history, unit) action" where
  "reconcileHSAssignedIPs E rc = go_all E 112 (update_hostsubnet E rc) (rc_SelectedHostSubnets rc)"

definition set_cidr :: "goenv \<Rightarrow> rcontext \<Rightarrow> string \<Rightarrow> string \<Rightarrow> unit \<Rightarrow> (history, unit) action" where
  "set_cidr E rc cidr node u h =
     (let hs = gm_get zero_hostsubnet (rc_AllHostSubnets rc) node in
      if \<not> str_is_equal E (GetHostSubnetCIDRsAsStrings (hs_egressCIDRs hs)) [cidr] then
        (case perform E (UpdateHostSubnet
            (hs\<lparr>hs_egressCIDRs := GetHostSubnetCIDRs [cidr], hs_egressIPs := Some []\<rparr>)) h of
           (Some e, h') \<Rightarrow> (Inl e, h')
         | (None, h') \<Rightarrow> (Inr (), h'))
      else (Inr (), h))"

definition assignCIDRsToHostSubnets :: "goenv \<Rightarrow> rcontext \<Rightarrow> (history, unit) action" where
  "assignCIDRsToHostSubnets E rc =
     go_for_w (\<lambda>cidr. go_for_w (set_cidr E rc cidr) (gm_get [] (rc_SelectedNodesByCIDR rc) cidr))
       (range_order E 138 (gm_keys (rc_SelectedNodesByCIDR rc))) ()"

definition getAllHostSubnets :: "goenv \<Rightarrow> history \<Rightarrow> err + (string, hostsubnet) gomap" where
  "getAllHostSubnets E h =
     (case list_hostsubnets E h of
        Inl e \<Rightarrow> Inl e
      | Inr items \<Rightarrow> Inr (fold (\<lambda>hs. gm_put (hs_name hs) hs) items []))"

definition clear_hostsubnet :: "goenv \<Rightarrow> (string \<times> hostsubnet) goroutine" where
  "clear_hostsubnet E = (\<lambda>(name, hs) h.
     if \<not> DeepEqual (HostSubnetEgressCIDRs (hs_egressCIDRs hs)) (StringSlice (Some [])) \<or>
        \<not> DeepEqual (HostSubnetEgressIPs (hs_egressIPs hs)) (StringSlice (Some []))
     then perform E (UpdateHostSubnet (hs\<lparr>hs_egressCIDRs := Some [], hs_egressIPs := Some []\<rparr>)) h
     else (None, h))"

definition removeHostsubnetAssignedIPsAndCIDRs :: "goenv \<Rightarrow> rcontext \<Rightarrow> (history, unit) action" where
  "removeHostsubnetAssignedIPsAndCIDRs E rc = go_all E 205 (clear_hostsubnet E) (rc_SelectedHostSubnets rc)"

definition getHostSubnetNames :: "goenv \<Rightarrow> (string, hostsubnet) gomap \<Rightarrow> string list" where
  "getHostSubnetNames E m = map (\<lambda>k. hs_name (gm_get zero_hostsubnet m k)) (range_order E 230 (gm_keys m))"

section \<open>The egress addresses of the HostSubnets\<close>

text \<open>What a HostSubnet is to become, and whether it has to change.\<close>

definition hs_with_ips :: "hostsubnet \<Rightarrow> string list \<Rightarrow> hostsubnet" where
  "hs_with_ips hs ips = hs\<lparr>hs_egressCIDRs := Some [], hs_egressIPs := Some ips\<rparr>"

definition hs_differs :: "rcontext \<Rightarrow> string \<times> hostsubnet \<Rightarrow> bool" where
  "hs_differs rc = (\<lambda>(name, hs).
     set (gm_get [] (rc_FinallyAssignedIPsByNode rc) name) \<noteq> set (slice_elems (hs_egressIPs hs)))"

definition hs_updates :: "rcontext \<Rightarrow> (string, hostsubnet) gomap \<Rightarrow> api_call list" where
  "hs_updates rc m = map (\<lambda>(name, hs). UpdateHostSubnet (hs_with_ips hs (gm_get [] (rc_FinallyAssignedIPsByNode rc) name)))
     (filter (hs_differs rc) m)"

text \<open>The HostSubnets after these updates.\<close>

definition hs_applied :: "rcontext \<Rightarrow> (string, hostsubnet) gomap \<Rightarrow> (string, hostsubnet) gomap" where
  "hs_applied rc m = map (\<lambda>(name, hs). (name, if hs_differs rc (name, hs)
     then hs_with_ips hs (gm_get [] (rc_FinallyAssignedIPsByNode rc) name) else hs)) m"

definition hs_plan :: "rcontext \<Rightarrow> string \<times> hostsubnet \<Rightarrow> err + api_call option" where
  "hs_plan rc x = Inr (if hs_differs rc x
     then Some (UpdateHostSubnet (hs_with_ips (snd x) (gm_get [] (rc_FinallyAssignedIPsByNode rc) (fst x)))) else None)"

lemma update_hostsubnet_follow:
  "strset_laws E \<Longrightarrow> update_hostsubnet E rc x = follow E (hs_plan rc) x"
  by (cases x, rule ext) (simp add: update_hostsubnet_def follow_def hs_plan_def hs_differs_def hs_with_ips_def
      strset_lawsD GetHostHostSubnetEgressIPsAsStrings_def GetHostHostSubnetEgressIPs_def Let_def)

lemma planned_hs: "concat (map (planned (hs_plan rc)) m) = hs_updates rc m"
  by (induction m) (auto simp: hs_updates_def planned_def hs_plan_def)

lemma reconcileHSAssignedIPs_run:
  assumes "schedule_laws E" "multierror_laws E" "strset_laws E"
  shows "\<exists>r h'. reconcileHSAssignedIPs E rc h = (r, h @ h') \<and>
    mset (calls h') = mset (hs_updates rc (rc_SelectedHostSubnets rc)) \<and>
    (r = Inr () \<longleftrightarrow> (\<forall>(c, q) \<in> set h'. q = None)) \<and>
    (\<forall>(name, hs) \<in> set (hs_applied rc (rc_SelectedHostSubnets rc)).
       set (slice_elems (hs_egressIPs hs)) = set (gm_get [] (rc_FinallyAssignedIPsByNode rc) name)) \<and>
    reconcileHSAssignedIPs E (rc\<lparr>rc_SelectedHostSubnets := hs_applied rc (rc_SelectedHostSubnets rc)\<rparr>) h = (Inr (), h)"
proof -
  let ?m = "rc_SelectedHostSubnets rc" and ?rc = "\<lambda>m. rc\<lparr>rc_SelectedHostSubnets := m\<rparr>"
  have run: "\<exists>r h'. reconcileHSAssignedIPs E (?rc m) h = (r, h @ h') \<and> mset (calls h') = mset (hs_updates rc m) \<and>
      (r = Inr () \<longleftrightarrow> (\<forall>(c, q) \<in> set h'. q = None))" for m
  proof -
    have plan: "hs_plan (?rc m) = hs_plan rc" by (rule ext) (simp add: hs_plan_def hs_differs_def)
    show ?thesis
      using go_all_plan [OF assms(1,2), where f = "update_hostsubnet E (?rc m)" and p = "hs_plan rc" and xs = m and l = 112 and h = h]
      unfolding planned_hs
      by (simp add: reconcileHSAssignedIPs_def update_hostsubnet_follow [OF assms(3)] plan hs_plan_def)
  qed
  have applied: "\<forall>(name, hs) \<in> set (hs_applied rc ?m).
      set (slice_elems (hs_egressIPs hs)) = set (gm_get [] (rc_FinallyAssignedIPsByNode rc) name)"
    by (auto simp: hs_applied_def hs_differs_def hs_with_ips_def split: if_splits)
  then have "hs_updates rc (hs_applied rc ?m) = []"
    by (auto simp: hs_updates_def hs_differs_def filter_empty_conv)
  with run [of "hs_applied rc ?m"] have again: "reconcileHSAssignedIPs E (?rc (hs_applied rc ?m)) h = (Inr (), h)"
    by (auto simp: calls_def)
  from run [of ?m] applied again show ?thesis by simp
qed

text \<open>An EgressIPAM matches by its first CIDR that contains the address, unless an earlier one does not parse.\<close>

lemma matching_cidr_iff:
  "fst (matching_cidr hostIP as) \<longleftrightarrow> (\<exists>as1 a as2 base net. as = as1 @ a # as2 \<and>
     (\<forall>b \<in> set as1. \<not> isl (ParseCIDR (CIDR b))) \<and> ParseCIDR (CIDR a) = Inr (base, net) \<and> net_contains net (ParseIP hostIP))"
proof (induction "as")
  case (Cons a "as")
  show ?case (is "_ \<longleftrightarrow> ?r (a # as)")
  proof (cases "ParseCIDR (CIDR a)")
    case (Inl e)
    have "\<not> ?r (a # as)"
    proof
      assume "?r (a # as)"
      then obtain as1 b as2 base net where r: "a # as = as1 @ b # as2" "\<forall>b \<in> set as1. \<not> isl (ParseCIDR (CIDR b))"
        "ParseCIDR (CIDR b) = Inr (base, net)" by blast
      with Inl show False by (cases as1) auto
    qed
    with Inl show ?thesis by simp
  next
    case (Inr q)
    obtain base net where q: "q = (base, net)" by fastforce
    show ?thesis
    proof (cases "net_contains net (ParseIP hostIP)")
      case True
      then have "?r (a # as)" using Inr q by (intro exI [of _ "[]"] exI [of _ a] exI [of _ "as"] exI [of _ base] exI [of _ net]) simp
      with True Inr q show ?thesis by (simp del: net_contains.simps)
    next
      case False
      have "?r (a # as) \<longleftrightarrow> ?r as"
      proof
        assume "?r (a # as)"
        then obtain as1 b as2 base' net' where r: "a # as = as1 @ b # as2" "\<forall>b \<in> set as1. \<not> isl (ParseCIDR (CIDR b))"
          "ParseCIDR (CIDR b) = Inr (base', net')" "net_contains net' (ParseIP hostIP)" by blast
        then obtain as1' where "as1 = a # as1'" using False Inr q by (cases as1) auto
        with r show "?r as" by (intro exI [of _ as1'] exI [of _ b] exI [of _ as2] exI [of _ base'] exI [of _ net']) simp
      next
        assume "?r as"
        then obtain as1 b as2 base' net' where r: "as = as1 @ b # as2" "\<forall>b \<in> set as1. \<not> isl (ParseCIDR (CIDR b))"
          "ParseCIDR (CIDR b) = Inr (base', net')" "net_contains net' (ParseIP hostIP)" by blast
        then show "?r (a # as)" using Inr
          by (intro exI [of _ "a # as1"] exI [of _ b] exI [of _ as2] exI [of _ base'] exI [of _ net']) simp
      qed
      with False Inr q Cons.IH show ?thesis by (simp del: net_contains.simps)
    qed
  qed
qed simp

text \<open>
  C23. The HostSubnets follow the node assignment: whatever the schedule of the goroutines,
  \<open>reconcileHSAssignedIPs\<close> updates exactly the selected HostSubnets whose set of egress
  addresses differs from the addresses assigned to the node, each once, to those addresses
  and to no egress CIDR; afterwards every selected HostSubnet has the assigned addresses, and
  a second run makes no call. It returns nil exactly when every update succeeded.
\<close>

theorem reconcileHSAssignedIPs_effect:
  assumes "schedule_laws E" "multierror_laws E" "strset_laws E"
  shows "\<exists>r h'. reconcileHSAssignedIPs E rc h = (r, h @ h') \<and>
    mset (calls h') = mset (hs_updates rc (rc_SelectedHostSubnets rc)) \<and>
    (r = Inr () \<longleftrightarrow> (\<forall>(c, q) \<in> set h'. q = None)) \<and>
    (\<forall>(name, hs) \<in> set (hs_applied rc (rc_SelectedHostSubnets rc)).
       set (slice_elems (hs_egressIPs hs)) = set (gm_get [] (rc_FinallyAssignedIPsByNode rc) name)) \<and>
    reconcileHSAssignedIPs E (rc\<lparr>rc_SelectedHostSubnets := hs_applied rc (rc_SelectedHostSubnets rc)\<rparr>) h = (Inr (), h)"
  using assms by (rule reconcileHSAssignedIPs_run)

lemma clear_hostsubnet_follow:
  "clear_hostsubnet E x = follow E (\<lambda>x. Inr (Some (UpdateHostSubnet (hs_with_ips (snd x) [])))) x"
  by (cases x, rule ext) (simp add: clear_hostsubnet_def follow_def hs_with_ips_def DeepEqual_def)

lemma removeHostsubnetAssignedIPsAndCIDRs_run:
  assumes "schedule_laws E" "multierror_laws E"
  shows "\<exists>r h'. removeHostsubnetAssignedIPsAndCIDRs E rc h = (r, h @ h') \<and>
    mset (calls h') = mset (map (\<lambda>(name, hs). UpdateHostSubnet (hs_with_ips hs [])) (rc_SelectedHostSubnets rc)) \<and>
    (r = Inr () \<longleftrightarrow> (\<forall>(c, q) \<in> set h'. q = None))"
proof -
  let ?p = "\<lambda>x :: string \<times> hostsubnet. Inr (Some (UpdateHostSubnet (hs_with_ips (snd x) [])))"
  have "concat (map (planned ?p) m) = map (\<lambda>(name, hs). UpdateHostSubnet (hs_with_ips hs [])) m" for m
    by (induction m) (auto simp: planned_def)
  then show ?thesis
    using clear_hostsubnet_follow go_all_plan [OF assms, where f = "clear_hostsubnet E" and p = ?p and xs = "rc_SelectedHostSubnets rc" and l = 205 and h = h]
    by (simp add: removeHostsubnetAssignedIPsAndCIDRs_def)
qed

section \<open>The egress CIDRs of the HostSubnets\<close>

definition needs_cidr :: "rcontext \<Rightarrow> string \<times> string \<Rightarrow> bool" where
  "needs_cidr rc = (\<lambda>(cidr, node).
     set (slice_elems (hs_egressCIDRs (gm_get zero_hostsubnet (rc_AllHostSubnets rc) node))) \<noteq> {cidr})"

definition cidr_update :: "rcontext \<Rightarrow> string \<times> string \<Rightarrow> api_call" where
  "cidr_update rc = (\<lambda>(cidr, node). UpdateHostSubnet
     ((gm_get zero_hostsubnet (rc_AllHostSubnets rc) node)\<lparr>hs_egressCIDRs := Some [cidr], hs_egressIPs := Some []\<rparr>))"

text \<open>The pairs of a CIDR and one of its nodes, in the order of the two loops.\<close>

definition cidr_nodes :: "goenv \<Rightarrow> rcontext \<Rightarrow> (string \<times> string) list" where
  "cidr_nodes E rc = concat (map (\<lambda>cidr. map (Pair cidr) (gm_get [] (rc_SelectedNodesByCIDR rc) cidr))
     (range_order E 138 (gm_keys (rc_SelectedNodesByCIDR rc))))"


lemma set_cidr_step:
  assumes "strset_laws E"
  shows "set_cidr E rc c n u h =
    (if needs_cidr rc (c, n) then
       (case map_option ApiError (api_reply E h (cidr_update rc (c, n))) of
          None \<Rightarrow> (Inr (), h @ [(cidr_update rc (c, n), None)])
        | Some e \<Rightarrow> (Inl e, h @ [(cidr_update rc (c, n), Some e)]))
     else (Inr (), h))"
  by (auto simp: set_cidr_def needs_cidr_def cidr_update_def perform_def Let_def strset_lawsD [OF assms]
      GetHostSubnetCIDRsAsStrings_def GetHostSubnetCIDRs_def split: option.splits)

lemma set_cidr_loop:
  assumes "strset_laws E"
  shows "\<exists>r h'. go_for_w (\<lambda>(c, n). set_cidr E rc c n) xs () h = (r, h @ h') \<and>
    in_order (cidr_update rc) (filter (needs_cidr rc) xs) r h'"
proof (induction xs arbitrary: h)
  case Nil
  then show ?case by simp
next
  case (Cons x xs)
  let ?loop = "go_for_w (\<lambda>(c, n). set_cidr E rc c n)"
  obtain c n where x: "x = (c, n)" by (cases x)
  note step = set_cidr_step [OF assms, of rc c n "()" h, folded x]
  show ?case
  proof (cases "needs_cidr rc x")
    case False
    with step have "?loop (x # xs) () h = ?loop xs () h" by (simp add: x)
    with Cons.IH [of h] False show ?thesis by simp
  next
    case True
    show ?thesis
    proof (cases "api_reply E h (cidr_update rc x)")
      case None
      obtain r h' where ih: "?loop xs () (h @ [(cidr_update rc x, None)]) = (r, (h @ [(cidr_update rc x, None)]) @ h')"
        "in_order (cidr_update rc) (filter (needs_cidr rc) xs) r h'"
        using Cons.IH by blast
      have "?loop (x # xs) () h = (r, h @ (cidr_update rc x, None) # h')"
        using None True ih(1) step by (simp add: x)
      with in_order_Cons [OF ih(2), of x] True show ?thesis by auto
    next
      case (Some e)
      then have "?loop (x # xs) () h = (Inl (ApiError e), h @ [(cidr_update rc x, Some (ApiError e))])"
        using True step by (simp add: x)
      with True show ?thesis by auto
    qed
  qed
qed

text \<open>
  C25. The egress CIDRs: \<open>assignCIDRsToHostSubnets\<close> visits every node of every CIDR and updates,
  in the order of the visit, the HostSubnets that do not have exactly that egress CIDR; it
  stops at the first update that fails and returns its error, and returns nil when none does.
\<close>

theorem assignCIDRsToHostSubnets_effect:
  assumes "strset_laws E"
  shows "\<exists>r h'. assignCIDRsToHostSubnets E rc h = (r, h @ h') \<and>
    in_order (cidr_update rc) (filter (needs_cidr rc) (cidr_nodes E rc)) r h'"
  unfolding assignCIDRsToHostSubnets_def go_for_w_nested cidr_nodes_def by (rule set_cidr_loop [OF assms])

section \<open>Witnesses\<close>

definition example_rc_placed :: rcontext where
  "example_rc_placed = example_rc\<lparr>rc_FinallyAssignedIPsByNode := [(''n1'', [''10.0.0.2'']), (''n2'', [''10.0.1.2''])]\<rparr>"

theorem reconcileHSAssignedIPs_effect_witness:
  "\<exists>r h'. reconcileHSAssignedIPs example_env example_rc_placed [] = (r, h') \<and>
     mset (calls h') = {#UpdateHostSubnet \<lparr>hs_name = ''n2'', hs_hostIP = ''10.0.1.1'',
       hs_egressIPs = Some [''10.0.1.2''], hs_egressCIDRs = Some []\<rparr>#} \<and>
     (r = Inr () \<longleftrightarrow> (\<forall>(c, q) \<in> set h'. q = None))"
proof -
  have "hs_updates example_rc_placed (rc_SelectedHostSubnets example_rc_placed) =
     [UpdateHostSubnet \<lparr>hs_name = ''n2'', hs_hostIP = ''10.0.1.1'',
       hs_egressIPs = Some [''10.0.1.2''], hs_egressCIDRs = Some []\<rparr>]" by code_simp
  then show ?thesis
    using reconcileHSAssignedIPs_effect [OF example_env_laws(2,7,6), of example_rc_placed "[]"] by auto
qed

theorem assignCIDRsToHostSubnets_effect_witness:
  "\<exists>r h'. assignCIDRsToHostSubnets example_env example_rc [] = (r, h') \<and>
     in_order (cidr_update example_rc) [(''10.0.0.0/29'', ''n1''), (''10.0.1.0/29'', ''n2'')] r h'"
proof -
  have "filter (needs_cidr example_rc) (cidr_nodes example_env example_rc) =
      [(''10.0.0.0/29'', ''n1''), (''10.0.1.0/29'', ''n2'')]" by code_simp
  then show ?thesis
    using assignCIDRsToHostSubnets_effect [OF example_env_laws(6), of example_rc "[]"] by simp
qed

end
