(* ===== verification/Controller.thy ===== *)
theory Controller
  imports NodeAssignment NetNamespaces HostSubnets
begin

text \<open>
  \<open>controllers/egressipam/egressipam_controller.go\<close>: validation and initialisation of an
  EgressIPAM, the reconcile context, the reconcile cycle and the clean-up, and the
  predicates of the watches. The constructors of the cloud platforms are a parameter
  (\<open>platforms\<close>).
\<close>

section \<open>Validation and initialisation\<close>

text \<open>The argument of \<open>IsValid\<close> and \<open>IsInitialized\<close>, before the type assertion.\<close>

datatype client_object = ClientEgressIPAM EgressIPAM | ClientOther

definition controllerName :: string where
  "controllerName = ''EgressIPAM_controller''"

definition credentialsSecretName :: string where
  "credentialsSecretName = ''egress-ipam-operator-cloud-credentials''"

definition valid_assignment :: "CIDRAssignment \<Rightarrow> unit \<Rightarrow> err + unit" where
  "valid_assignment a u =
     (case ParseCIDR (CIDR a) of
        Inl e \<Rightarrow> Inl e
      | Inr (_, cidr) \<Rightarrow>
          go_for (\<lambda>ipstr u.
            let IP = ParseIP ipstr in
            if IP = NilIP then Inl (ErrNew (''unable to parse IP: '' @ ipstr))
            else if \<not> net_contains cidr IP then
              Inl (ErrNew (''IP '' @ ipstr @ '' not contained in relative CIDR: '' @ CIDR a))
            else Inr ()) (ReservedIPs a) ())"

definition IsValid :: "client_object \<Rightarrow> bool \<times> err option" where
  "IsValid obj =
     (case obj of
        ClientOther \<Rightarrow> (False, Some (ErrNew ''unable to convert to egressIPAM''))
      | ClientEgressIPAM x \<Rightarrow>
          (case go_for valid_assignment (CIDRAssignments x) () of
             Inl e \<Rightarrow> (False, Some e)
           | Inr u \<Rightarrow> (True, None)))"

text \<open>\<open>IsInitialized\<close> returns its answer and the object, to which it may add the finalizer.\<close>

definition IsInitialized :: "goenv \<Rightarrow> client_object \<Rightarrow> bool \<times> client_object" where
  "IsInitialized E obj =
     (case obj of
        ClientOther \<Rightarrow> (False, ClientOther)
      | ClientEgressIPAM x \<Rightarrow>
          if \<not> has_finalizer E x controllerName
          then (False, ClientEgressIPAM (add_finalizer E x controllerName))
          else (True, ClientEgressIPAM x))"

definition GetCredentialSecret :: "goenv \<Rightarrow> history \<Rightarrow> err + labels" where
  "GetCredentialSecret E h =
     bind_err (get_operator_namespace E) (\<lambda>namespace. get_secret E namespace credentialsSecretName h)"

definition isCloudInfrastructure :: "platform \<Rightarrow> bool" where
  "isCloudInfrastructure p \<longleftrightarrow> p = AWSPlatformType \<or> p = AzurePlatformType \<or> p = GCPPlatformType"

section \<open>The reconcile context\<close>

record platforms =
  NewAWSInfra :: "rcontext \<Rightarrow> (history, infra) action"
  NewAzureInfra :: "rcontext \<Rightarrow> (history, infra) action"

definition empty_rc :: "platform \<Rightarrow> EgressIPAM \<Rightarrow> rcontext" where
  "empty_rc p x = \<lparr>rc_Infrastructure = p, rc_CloudCredentialsSecret = [], rc_EgressIPAM = x, rc_CIDRs = [],
     rc_NetCIDRByCIDR = [], rc_CIDRsByLabel = [], rc_ReservedIPsByCIDR = [], rc_AllNodes = [],
     rc_AllHostSubnets = [], rc_SelectedNodes = [], rc_SelectedNodesByCIDR = [], rc_SelectedHostSubnets = [],
     rc_SelectedHostSubnetsByCIDR = [], rc_ReferringNamespaces = [], rc_InitiallyAssignedNamespaces = [],
     rc_UnAssignedNamespaces = [], rc_NetNamespaces = [], rc_InitiallyAssignedIPsByNode = [],
     rc_UsedIPsByCIDR = [], rc_FinallyAssignedNamespaces = [], rc_FinallyAssignedIPsByNode = []\<rparr>"

text \<open>Lines 390 to 397.\<close>

definition load_secret :: "goenv \<Rightarrow> history \<Rightarrow> rcontext \<Rightarrow> err + rcontext" where
  "load_secret E h rc =
     (if isCloudInfrastructure (rc_Infrastructure rc)
      then bind_err (GetCredentialSecret E h) (\<lambda>s. Inr (rc\<lparr>rc_CloudCredentialsSecret := s\<rparr>))
      else Inr rc)"

text \<open>Lines 399 to 428.\<close>

definition parse_reserved :: "string \<Rightarrow> ip list \<Rightarrow> err + ip list" where
  "parse_reserved ipstr IPs =
     (let IP = ParseIP ipstr in
      if IP = NilIP then Inl (ErrNew (''unable to parse IP: '' @ ipstr)) else Inr (IPs @ [IP]))"

definition load_assignment :: "CIDRAssignment \<Rightarrow> rcontext \<Rightarrow> err + rcontext" where
  "load_assignment a rc =
     bind_err (go_for parse_reserved (ReservedIPs a) []) (\<lambda>IPs.
       (case ParseCIDR (CIDR a) of
          Inl e \<Rightarrow> Inl e
        | Inr (_, cidr) \<Rightarrow>
            Inr (rc\<lparr>rc_CIDRs := rc_CIDRs rc @ [CIDR a],
              rc_CIDRsByLabel := gm_put (LabelValue a) (CIDR a) (rc_CIDRsByLabel rc),
              rc_ReservedIPsByCIDR := gm_put (CIDR a) IPs (rc_ReservedIPsByCIDR rc),
              rc_NetCIDRByCIDR := gm_put (CIDR a) cidr (rc_NetCIDRByCIDR rc)\<rparr>)))"

text \<open>
  Lines 438 to 505: four goroutines read, and their results are collected. They write
  different fields, so the order in which they run shows only in the collected errors.
\<close>

definition error_of :: "err + 'a \<Rightarrow> err option" where
  "error_of r = (case r of Inl e \<Rightarrow> Some e | Inr x \<Rightarrow> None)"

definition load_objects :: "goenv \<Rightarrow> history \<Rightarrow> rcontext \<Rightarrow> err + rcontext" where
  "load_objects E h rc =
     (let nodes = getAllNodes E h; subnets = getAllHostSubnets E h;
          namespaces = getReferringNamespaces E rc h; netns = getAllNetNamespaces E h;
          results = [error_of nodes, error_of subnets, error_of namespaces, error_of netns] in
      (case multierror E (scheduled E 497 results) of
         Some e \<Rightarrow> Inl e
       | None \<Rightarrow>
           bind_err nodes (\<lambda>allNodes. bind_err subnets (\<lambda>allHostSubnets.
           bind_err namespaces (\<lambda>(referring, unassigned, assigned). bind_err netns (\<lambda>netNamespaces.
             Inr (rc\<lparr>rc_AllNodes := allNodes, rc_AllHostSubnets := allHostSubnets,
               rc_ReferringNamespaces := referring, rc_InitiallyAssignedNamespaces := assigned,
               rc_UnAssignedNamespaces := unassigned, rc_NetNamespaces := netNamespaces\<rparr>)))))))"

text \<open>Lines 507 to 536.\<close>

definition node_cidr :: "rcontext \<Rightarrow> node \<Rightarrow> string option" where
  "node_cidr rc n =
     (case map_of (node_labels n) (TopologyLabel (rc_EgressIPAM rc)) of
        None \<Rightarrow> None
      | Some value \<Rightarrow> map_of (rc_CIDRsByLabel rc) value)"

definition by_cidr :: "goenv \<Rightarrow> rcontext \<Rightarrow> (string, string list) gomap" where
  "by_cidr E rc =
     fold (\<lambda>name m.
         (case node_cidr rc (gm_get zero_node (rc_SelectedNodes rc) name) of
            None \<Rightarrow> m
          | Some cidr \<Rightarrow> gm_put cidr (gm_get [] m cidr @ [name]) m))
       (range_order E 527 (gm_keys (rc_SelectedNodes rc))) []"

definition select_nodes :: "goenv \<Rightarrow> rcontext \<Rightarrow> err + rcontext" where
  "select_nodes E rc =
     bind_err (getSelectedNodes E rc) (\<lambda>selected.
       let rc1 = rc\<lparr>rc_SelectedNodes := selected\<rparr>;
           rc2 = rc1\<lparr>rc_SelectedHostSubnets :=
             filter (\<lambda>(name, hs). map_of (rc_SelectedNodes rc1) name \<noteq> None) (rc_AllHostSubnets rc1)\<rparr>
       in Inr (rc2\<lparr>rc_SelectedNodesByCIDR := by_cidr E rc2, rc_SelectedHostSubnetsByCIDR := by_cidr E rc2\<rparr>))"

text \<open>Lines 541 to 575.\<close>

definition make_infra :: "goenv \<Rightarrow> platforms \<Rightarrow> rcontext \<Rightarrow> (history, infra) action" where
  "make_infra E P rc =
     (case rc_Infrastructure rc of
        AWSPlatformType \<Rightarrow> (case direct_client E of Some e \<Rightarrow> pure_w (Inl e) | None \<Rightarrow> NewAWSInfra P rc)
      | AzurePlatformType \<Rightarrow> (case direct_client E of Some e \<Rightarrow> pure_w (Inl e) | None \<Rightarrow> NewAzureInfra P rc)
      | _ \<Rightarrow> pure_w (Inr BareMetalInfra))"

text \<open>Lines 580 to 601: one goroutine.\<close>

definition load_used :: "goenv \<Rightarrow> infra \<Rightarrow> rcontext \<Rightarrow> (history, rcontext) action" where
  "load_used E infra rc h =
     (case GetUsedIPsByCIDR infra rc h of
        (Inl (GoPanic m), h') \<Rightarrow> (Inl (GoPanic m), h')
      | (r, h') \<Rightarrow>
          (case multierror E [error_of r] of
             Some e \<Rightarrow> (Inl e, h')
           | None \<Rightarrow> (case r of Inl e \<Rightarrow> (Inr rc, h') | Inr used \<Rightarrow> (Inr (rc\<lparr>rc_UsedIPsByCIDR := used\<rparr>), h'))))"

definition load_cluster :: "goenv \<Rightarrow> platform \<Rightarrow> EgressIPAM \<Rightarrow> history \<Rightarrow> err + rcontext" where
  "load_cluster E p x h =
     bind_err (load_secret E h (empty_rc p x)) (\<lambda>rc.
     bind_err (go_for load_assignment (CIDRAssignments x) rc) (\<lambda>rc.
     bind_err (load_objects E h rc) (select_nodes E)))"

definition loadReconcileContext ::
  "goenv \<Rightarrow> platforms \<Rightarrow> platform \<Rightarrow> EgressIPAM \<Rightarrow> (history, rcontext \<times> infra) action" where
  "loadReconcileContext E P p x h =
     bind_w (pure_w (load_cluster E p x h)) (\<lambda>rc.
     bind_w (make_infra E P rc) (\<lambda>infra.
     bind_w (load_used E infra rc) (\<lambda>rc. pure_w (Inr (rc, infra))))) h"

section \<open>The reconcile cycle\<close>

datatype gauge = IpAllocated string string int | IpCapacity string string "32 word"

text \<open>
  How a call of \<open>Reconcile\<close> ends: nothing more to do, an error returned to the work queue,
  the error or the success path of operator-utils (which record it in the status), or a
  panic that ends the process.
\<close>

datatype outcome = Done | Errored err | ManagedError err | ManagedSuccess "gauge list" | Panicked string

definition manage_error :: "err \<Rightarrow> outcome" where
  "manage_error e = (case e of GoPanic m \<Rightarrow> Panicked m | _ \<Rightarrow> ManagedError e)"

text \<open>On an error every platform returns 0 as the capacity, and the gauge is set to that.\<close>

definition capacity_gauge :: "infra \<Rightarrow> rcontext \<Rightarrow> string \<Rightarrow> gauge list \<Rightarrow> (history, gauge list) action" where
  "capacity_gauge infra rc name gs h =
     (case GetIPCapacity infra (gm_get zero_node (rc_AllNodes rc) name) h of
        (Inl (GoPanic m), h') \<Rightarrow> (Inl (GoPanic m), h')
      | (Inl e, h') \<Rightarrow> (Inr (gs @ [IpCapacity (ei_name (rc_EgressIPAM rc)) name 0]), h')
      | (Inr capacity, h') \<Rightarrow> (Inr (gs @ [IpCapacity (ei_name (rc_EgressIPAM rc)) name capacity]), h'))"

definition updateMetrics :: "goenv \<Rightarrow> infra \<Rightarrow> rcontext \<Rightarrow> (history, gauge list) action" where
  "updateMetrics E infra rc =
     go_for_w (capacity_gauge infra rc) (range_order E 253 (gm_keys (rc_AllNodes rc)))
       (map (\<lambda>name. IpAllocated (ei_name (rc_EgressIPAM rc)) name
           (int (length (gm_get [] (rc_FinallyAssignedIPsByNode rc) name)) + 1))
         (range_order E 248 (gm_keys (rc_FinallyAssignedIPsByNode rc))))"

definition processReconcileContext :: "goenv \<Rightarrow> infra \<Rightarrow> rcontext \<Rightarrow> (history, gauge list) action" where
  "processReconcileContext E infra rc =
     bind_w (assignIPsToNamespaces E infra rc) (\<lambda>newly.
       let rc1 = rc\<lparr>rc_FinallyAssignedNamespaces := rc_InitiallyAssignedNamespaces rc @ newly\<rparr> in
     bind_w (reconcileNetNamespaces E rc1) (\<lambda>u.
       let rc2 = rc1\<lparr>rc_InitiallyAssignedIPsByNode := getAssignedIPsByNode rc1\<rparr> in
     bind_w (pure_w (assignIPsToNodes E rc2)) (\<lambda>assigned.
       let rc3 = rc2\<lparr>rc_FinallyAssignedIPsByNode := assigned\<rparr> in
     bind_w (ReconcileInstanceSecondaryIPs infra rc3) (\<lambda>u.
     bind_w (if isCloudInfrastructure (rc_Infrastructure rc3) \<or> 1 < length (rc_CIDRs rc3)
             then reconcileHSAssignedIPs E rc3 else assignCIDRsToHostSubnets E rc3) (\<lambda>u.
     updateMetrics E infra rc3)))))"

definition manageCleanUpLogic :: "goenv \<Rightarrow> platforms \<Rightarrow> platform \<Rightarrow> EgressIPAM \<Rightarrow> (history, unit) action" where
  "manageCleanUpLogic E P p x =
     bind_w (loadReconcileContext E P p x) (\<lambda>(rc, infra).
     bind_w (removeNamespaceAssignedIPs E rc) (\<lambda>u.
     bind_w (removeNetnamespaceAssignedIPs E rc) (\<lambda>u.
     bind_w (removeHostsubnetAssignedIPsAndCIDRs E rc) (\<lambda>u.
     if isCloudInfrastructure (rc_Infrastructure rc) then RemoveAllAssignedIPs infra rc else pure_w (Inr ())))))"

definition update_instance :: "goenv \<Rightarrow> EgressIPAM \<Rightarrow> history \<Rightarrow> outcome \<times> history" where
  "update_instance E x h =
     (case perform E (UpdateEgressIPAM x) h of
        (Some e, h') \<Rightarrow> (manage_error e, h')
      | (None, h') \<Rightarrow> (Done, h'))"

definition Reconcile :: "goenv \<Rightarrow> platforms \<Rightarrow> platform \<Rightarrow> string \<Rightarrow> history \<Rightarrow> outcome \<times> history" where
  "Reconcile E P p name h =
     (case get_egressipam E name h of
        Inl (NotFound _) \<Rightarrow> (Done, h)
      | Inl e \<Rightarrow> (Errored e, h)
      | Inr x \<Rightarrow>
          (case IsValid (ClientEgressIPAM x) of
             (False, Some e) \<Rightarrow> (manage_error e, h)
           | (False, None) \<Rightarrow> (ManagedError (ErrNew ''''), h)  \<comment> \<open>not reached\<close>
           | (True, _) \<Rightarrow>
               (case IsInitialized E (ClientEgressIPAM x) of
                  (False, ClientEgressIPAM x') \<Rightarrow> update_instance E x' h
                | (False, ClientOther) \<Rightarrow> (Done, h)
                | (True, _) \<Rightarrow>
                    if is_being_deleted E x then
                      if \<not> has_finalizer E x controllerName then (Done, h)
                      else
                        (case manageCleanUpLogic E P p x h of
                           (Inl e, h1) \<Rightarrow> (manage_error e, h1)
                         | (Inr u, h1) \<Rightarrow> update_instance E (remove_finalizer E x controllerName) h1)
                    else
                      (case loadReconcileContext E P p x h of
                         (Inl e, h1) \<Rightarrow> (manage_error e, h1)
                       | (Inr (rc, infra), h1) \<Rightarrow>
                           (case processReconcileContext E infra rc h1 of
                              (Inl e, h2) \<Rightarrow> (manage_error e, h2)
                            | (Inr gs, h2) \<Rightarrow> (ManagedSuccess gs, h2))))))"

section \<open>The predicates of the watches\<close>

definition IsCreatedOrDeletedOrReadinessChanged :: "kobject \<Rightarrow> kobject \<Rightarrow> bool" where
  "IsCreatedOrDeletedOrReadinessChanged old new =
     (case (old, new) of
        (KNode o', KNode n') \<Rightarrow>
          \<not> DeepEqual_map (node_annotations o') (node_annotations n') \<or> is_ready o' \<noteq> is_ready n'
      | _ \<Rightarrow> False)"

definition IsCreatedORDeletedOrIsEgressCIDRsChanged :: "kobject \<Rightarrow> kobject \<Rightarrow> bool" where
  "IsCreatedORDeletedOrIsEgressCIDRsChanged old new =
     (case (old, new) of
        (KHostSubnet o', KHostSubnet n') \<Rightarrow>
          \<not> DeepEqual (HostSubnetEgressCIDRs (hs_egressCIDRs o')) (HostSubnetEgressCIDRs (hs_egressCIDRs n')) \<or>
          \<not> DeepEqual (HostSubnetEgressIPs (hs_egressIPs o')) (HostSubnetEgressIPs (hs_egressIPs n'))
      | _ \<Rightarrow> False)"

definition IsAnnotated_Update :: "annotations \<Rightarrow> annotations \<Rightarrow> bool" where
  "IsAnnotated_Update old new =
     (let okold = getAnnotation old NamespaceAnnotation \<noteq> None;
          oknew = getAnnotation new NamespaceAnnotation \<noteq> None;
          ipsold = getAnnotation old NamespaceAssociationAnnotation \<noteq> None;
          ipsnew = getAnnotation new NamespaceAssociationAnnotation \<noteq> None
      in (\<not> okold \<and> oknew) \<or> ipsnew \<noteq> ipsold)"

definition IsAnnotated_CreateDelete :: "annotations \<Rightarrow> bool" where
  "IsAnnotated_CreateDelete a = (getAnnotation a NamespaceAnnotation \<noteq> None)"

definition IsCreatedOrIsEgressIPsChanged :: "kobject \<Rightarrow> kobject \<Rightarrow> bool" where
  "IsCreatedOrIsEgressIPsChanged old new =
     (case (old, new) of
        (KNetNamespace o', KNetNamespace n') \<Rightarrow>
          \<not> DeepEqual (NetNamespaceEgressIPs (nn_egressIPs o')) (NetNamespaceEgressIPs (nn_egressIPs n'))
      | _ \<Rightarrow> False)"


section \<open>What validation checks\<close>

definition assignment_ok :: "CIDRAssignment \<Rightarrow> bool" where
  "assignment_ok a \<longleftrightarrow> (\<exists>base net. ParseCIDR (CIDR a) = Inr (base, net) \<and>
     (\<forall>s \<in> set (ReservedIPs a). net_contains net (ParseIP s)))"

lemma go_for_unit_iff:
  fixes f :: "'a \<Rightarrow> unit \<Rightarrow> err + unit"
  shows "go_for f xs () = Inr () \<longleftrightarrow> (\<forall>x \<in> set xs. f x () = Inr ())"
  by (induction xs) (auto split: sum.splits)

lemma valid_assignment_iff: "valid_assignment a () = Inr () \<longleftrightarrow> assignment_ok a"
proof (cases "ParseCIDR (CIDR a)")
  case (Inr r)
  then obtain base net where r: "ParseCIDR (CIDR a) = Inr (base, net)" by (cases r) auto
  have "(let IP = ParseIP s in if IP = NilIP then Inl (ErrNew (''unable to parse IP: '' @ s))
      else if \<not> net_contains net IP then
        Inl (ErrNew (''IP '' @ s @ '' not contained in relative CIDR: '' @ CIDR a)) else Inr ()) = Inr () \<longleftrightarrow>
      net_contains net (ParseIP s)" for s
    by (auto simp: Let_def)
  then show ?thesis by (simp add: valid_assignment_def assignment_ok_def r go_for_unit_iff)
qed (simp add: valid_assignment_def assignment_ok_def)

lemma IsValid_iff_ok: "IsValid (ClientEgressIPAM x) = (True, None) \<longleftrightarrow> (\<forall>a \<in> set (CIDRAssignments x). assignment_ok a)"
  unfolding valid_assignment_iff [symmetric] go_for_unit_iff [symmetric]
  by (auto simp: IsValid_def split: sum.splits)

text \<open>
  C27. \<open>IsValid\<close> accepts an EgressIPAM exactly when every CIDR parses and every reserved
  address parses and lies in its CIDR; when it refuses, it returns an error, never a panic.
\<close>

theorem IsValid_correct:
  "(case IsValid (ClientEgressIPAM x) of
      (True, e) \<Rightarrow> e = None \<and> (\<forall>a \<in> set (CIDRAssignments x). assignment_ok a)
    | (False, e) \<Rightarrow> e \<noteq> None \<and> \<not> (\<forall>a \<in> set (CIDRAssignments x). assignment_ok a))"
proof -
  have "fst (IsValid (ClientEgressIPAM x)) \<longleftrightarrow> snd (IsValid (ClientEgressIPAM x)) = None"
    by (simp add: IsValid_def split: sum.splits)
  then show ?thesis using IsValid_iff_ok [of x] by (cases "IsValid (ClientEgressIPAM x)") (auto split: bool.splits)
qed

section \<open>What the reconcile context holds\<close>

lemma parse_reserved_loop: "go_for parse_reserved ips acc = Inr r \<Longrightarrow> r = acc @ map ParseIP ips"
  by (induction ips arbitrary: acc) (fastforce simp: parse_reserved_def Let_def split: sum.splits if_splits)+

definition loaded_cidrs :: "CIDRAssignment list \<Rightarrow> rcontext \<Rightarrow> rcontext \<Rightarrow> bool" where
  "loaded_cidrs as rc0 rc \<longleftrightarrow> rc_CIDRs rc = map CIDR as \<and>
     rc_EgressIPAM rc = rc_EgressIPAM rc0 \<and> rc_Infrastructure rc = rc_Infrastructure rc0 \<and>
     (\<forall>a \<in> set as. \<exists>base net. ParseCIDR (CIDR a) = Inr (base, net) \<and> map_of (rc_NetCIDRByCIDR rc) (CIDR a) = Some net) \<and>
     (\<forall>c. \<forall>ip \<in> set (gm_get [] (rc_ReservedIPsByCIDR rc) c). \<exists>a \<in> set as. c = CIDR a \<and> ip \<in> ParseIP ` set (ReservedIPs a)) \<and>
     (distinct (map CIDR as) \<longrightarrow>
       (\<forall>a \<in> set as. gm_get [] (rc_ReservedIPsByCIDR rc) (CIDR a) = map ParseIP (ReservedIPs a)))"

lemma load_assignment_step:
  assumes "load_assignment a rc = Inr rc'" "loaded_cidrs as rc0 rc"
  shows "loaded_cidrs (as @ [a]) rc0 rc'"
proof -
  from assms(1) obtain base net where "ParseCIDR (CIDR a) = Inr (base, net)"
    and rc': "rc' = rc\<lparr>rc_CIDRs := rc_CIDRs rc @ [CIDR a],
       rc_CIDRsByLabel := gm_put (LabelValue a) (CIDR a) (rc_CIDRsByLabel rc),
       rc_ReservedIPsByCIDR := gm_put (CIDR a) (map ParseIP (ReservedIPs a)) (rc_ReservedIPsByCIDR rc),
       rc_NetCIDRByCIDR := gm_put (CIDR a) net (rc_NetCIDRByCIDR rc)\<rparr>"
    using parse_reserved_loop [of "ReservedIPs a" "[]"]
    by (cases "ParseCIDR (CIDR a)") (fastforce simp: load_assignment_def)+
  with assms(2) show ?thesis
    unfolding loaded_cidrs_def by (auto simp: gm_get_put) (metis image_eqI)
qed

lemma load_assignments:
  assumes "go_for load_assignment as rc = Inr rc'" "rc_CIDRs rc = []" "rc_ReservedIPsByCIDR rc = []"
  shows "loaded_cidrs as rc rc'"
proof (rule go_for_inv_prefix [OF assms(1), where I = "\<lambda>as. loaded_cidrs as rc"])
  show "loaded_cidrs [] rc rc" using assms(2,3) by (simp add: loaded_cidrs_def)
qed (rule load_assignment_step)

lemma by_cidr_loop:
  "gm_get [] (fold (\<lambda>name m. case f name of None \<Rightarrow> m
       | Some cidr \<Rightarrow> gm_put cidr (gm_get [] m cidr @ [name]) m) ks m) c =
     gm_get [] m c @ filter (\<lambda>name. f name = Some c) ks"
  "distinct (gm_keys m) \<Longrightarrow> distinct (gm_keys (fold (\<lambda>name m. case f name of None \<Rightarrow> m
       | Some cidr \<Rightarrow> gm_put cidr (gm_get [] m cidr @ [name]) m) ks m))"
  by (induction ks arbitrary: m) (auto simp: gm_get_put split: option.splits)

lemma node_lists_by_cidr:
  assumes "range_laws E" "distinct (gm_keys (rc_SelectedNodes rc))"
    and "rc_SelectedNodesByCIDR rc' = by_cidr E rc"
  shows "node_lists_ok rc'"
  using range_lawsD [OF assms(1,2)]
  unfolding node_lists_ok_def assms(3) by_cidr_def by (auto simp: by_cidr_loop)

lemma map_of_filter_Some:
  "distinct (map fst m) \<Longrightarrow> map_of (filter P m) k = Some v \<Longrightarrow> map_of m k = Some v"
  by (metis (no_types, lifting) distinct_map_filter filter_is_subset map_of_eq_Some_iff subsetD)


text \<open>What every cycle can rely on once the context has been loaded.\<close>

definition ctx_ok :: "rcontext \<Rightarrow> bool" where
  "ctx_ok rc \<longleftrightarrow> cidrs_ok rc \<and> nets_ok rc \<and> node_lists_ok rc \<and>
     distinct (gm_keys (rc_SelectedNodes rc)) \<and> distinct (gm_keys (rc_SelectedHostSubnets rc)) \<and>
     (\<forall>n \<in> set (gm_keys (rc_SelectedNodes rc)).
        map_of (rc_AllNodes rc) n = Some (gm_get zero_node (rc_SelectedNodes rc) n)) \<and>
     (\<forall>n \<in> set (rc_InitiallyAssignedNamespaces rc). ns_ips n \<noteq> None) \<and>
     (\<forall>n \<in> set (rc_UnAssignedNamespaces rc). ns_ips n = None)"

definition ipv4_cidrs :: "EgressIPAM \<Rightarrow> bool" where
  "ipv4_cidrs x \<longleftrightarrow> (\<forall>a \<in> set (CIDRAssignments x). \<exists>w b n. ParseCIDR (CIDR a) = Inr (IPv4 w, Net4 b n))"

lemma load_objects_Inr:
  assumes "multierror_laws E" "schedule_laws E" "load_objects E h rc = Inr rc'"
  obtains items where "list_namespaces E h = Inr items"
    "\<exists>nodes subnets ref netns. distinct (gm_keys nodes) \<and> distinct (gm_keys subnets) \<and>
      rc' = rc\<lparr>rc_AllNodes := nodes, rc_AllHostSubnets := subnets, rc_ReferringNamespaces := ref,
        rc_InitiallyAssignedNamespaces :=
          filter (\<lambda>n. ns_egressipam n = Some (ei_name (rc_EgressIPAM rc)) \<and> ns_ips n \<noteq> None) items,
        rc_UnAssignedNamespaces :=
          filter (\<lambda>n. ns_egressipam n = Some (ei_name (rc_EgressIPAM rc)) \<and> ns_ips n = None) items,
        rc_NetNamespaces := netns\<rparr>"
proof -
  obtain nodes subnets where nodes: "getAllNodes E h = Inr nodes" and subnets: "getAllHostSubnets E h = Inr subnets"
    and rest: "bind_err (getReferringNamespaces E rc h) (\<lambda>(referring, unassigned, assigned).
        bind_err (getAllNetNamespaces E h) (\<lambda>netNamespaces.
             Inr (rc\<lparr>rc_AllNodes := nodes, rc_AllHostSubnets := subnets,
               rc_ReferringNamespaces := referring, rc_InitiallyAssignedNamespaces := assigned,
               rc_UnAssignedNamespaces := unassigned, rc_NetNamespaces := netNamespaces\<rparr>))) = Inr rc'"
    using assms(3) by (auto simp: load_objects_def Let_def split: option.splits)
  from rest obtain items where items: "list_namespaces E h = Inr items"
    by (auto simp: getReferringNamespaces_def split: sum.splits)
  have "distinct (gm_keys nodes)" "distinct (gm_keys subnets)"
    using nodes subnets
    by (auto simp: getAllNodes_def getAllHostSubnets_def distinct_fold_put_by_name split: sum.splits)
  moreover from rest obtain netns where "rc' = rc\<lparr>rc_AllNodes := nodes, rc_AllHostSubnets := subnets,
        rc_ReferringNamespaces := fold (\<lambda>n. gm_put (ns_name n) n)
          (filter (\<lambda>n. ns_egressipam n = Some (ei_name (rc_EgressIPAM rc))) items) [],
        rc_InitiallyAssignedNamespaces :=
          filter (\<lambda>n. ns_egressipam n = Some (ei_name (rc_EgressIPAM rc)) \<and> ns_ips n \<noteq> None) items,
        rc_UnAssignedNamespaces :=
          filter (\<lambda>n. ns_egressipam n = Some (ei_name (rc_EgressIPAM rc)) \<and> ns_ips n = None) items,
        rc_NetNamespaces := netns\<rparr>"
    by (auto simp: getReferringNamespaces_def items fold_sort_namespace)
  ultimately show ?thesis using that [OF items] by blast
qed

lemma load_cluster_ok:
  assumes laws: "range_laws E" "multierror_laws E" "schedule_laws E"
    and valid: "\<forall>a \<in> set (CIDRAssignments x). assignment_ok a" and v4: "ipv4_cidrs x"
    and res: "load_cluster E p x h = Inr rc"
  shows "ctx_ok rc" "rc_CIDRs rc = map CIDR (CIDRAssignments x)" "rc_EgressIPAM rc = x" "rc_Infrastructure rc = p"
    "\<exists>items. list_namespaces E h = Inr items \<and>
      rc_InitiallyAssignedNamespaces rc = filter (\<lambda>n. ns_egressipam n = Some (ei_name x) \<and> ns_ips n \<noteq> None) items \<and>
      rc_UnAssignedNamespaces rc = filter (\<lambda>n. ns_egressipam n = Some (ei_name x) \<and> ns_ips n = None) items"
proof -
  from res obtain rc0 rc1 rc2 where rc0: "load_secret E h (empty_rc p x) = Inr rc0"
    and rc1: "go_for load_assignment (CIDRAssignments x) rc0 = Inr rc1"
    and rc2: "load_objects E h rc1 = Inr rc2" and rc: "select_nodes E rc2 = Inr rc"
    by (auto simp: load_cluster_def)
  have rc0_fields: "rc_CIDRs rc0 = []" "rc_ReservedIPsByCIDR rc0 = []" "rc_EgressIPAM rc0 = x" "rc_Infrastructure rc0 = p"
    using rc0 by (auto simp: load_secret_def empty_rc_def split: if_splits)
  note cidrs = load_assignments [OF rc1 rc0_fields(1,2), unfolded loaded_cidrs_def rc0_fields(3,4)]
  obtain items where items: "list_namespaces E h = Inr items"
    "\<exists>nodes subnets ref netns. distinct (gm_keys nodes) \<and> distinct (gm_keys subnets) \<and>
      rc2 = rc1\<lparr>rc_AllNodes := nodes, rc_AllHostSubnets := subnets, rc_ReferringNamespaces := ref,
        rc_InitiallyAssignedNamespaces := filter (\<lambda>n. ns_egressipam n = Some (ei_name (rc_EgressIPAM rc1)) \<and> ns_ips n \<noteq> None) items,
        rc_UnAssignedNamespaces := filter (\<lambda>n. ns_egressipam n = Some (ei_name (rc_EgressIPAM rc1)) \<and> ns_ips n = None) items,
        rc_NetNamespaces := netns\<rparr>"
    using load_objects_Inr [OF laws(2,3) rc2] by blast
  then have rc2_fields: "distinct (gm_keys (rc_AllNodes rc2))" "distinct (gm_keys (rc_AllHostSubnets rc2))"
    "rc_CIDRs rc2 = rc_CIDRs rc1" "rc_EgressIPAM rc2 = x" "rc_Infrastructure rc2 = p"
    "rc_NetCIDRByCIDR rc2 = rc_NetCIDRByCIDR rc1" "rc_ReservedIPsByCIDR rc2 = rc_ReservedIPsByCIDR rc1"
    "rc_InitiallyAssignedNamespaces rc2 = filter (\<lambda>n. ns_egressipam n = Some (ei_name x) \<and> ns_ips n \<noteq> None) items"
    "rc_UnAssignedNamespaces rc2 = filter (\<lambda>n. ns_egressipam n = Some (ei_name x) \<and> ns_ips n = None) items"
    using cidrs by auto
  from rc obtain sel where sel: "getSelectedNodes E rc2 = Inr sel"
    and rc_eq: "rc = (let rc' = rc2\<lparr>rc_SelectedNodes := sel, rc_SelectedHostSubnets :=
        filter (\<lambda>(name, hs). map_of sel name \<noteq> None) (rc_AllHostSubnets rc2)\<rparr>
      in rc'\<lparr>rc_SelectedNodesByCIDR := by_cidr E rc', rc_SelectedHostSubnetsByCIDR := by_cidr E rc'\<rparr>)"
    by (auto simp: select_nodes_def Let_def)
  from sel obtain Q where Q: "sel = filter Q (rc_AllNodes rc2)" by (auto simp: getSelectedNodes_def split: sum.splits)
  have rc_fields: "rc_AllNodes rc = rc_AllNodes rc2" "rc_SelectedNodes rc = sel" "rc_CIDRs rc = rc_CIDRs rc1"
    "rc_NetCIDRByCIDR rc = rc_NetCIDRByCIDR rc1" "rc_ReservedIPsByCIDR rc = rc_ReservedIPsByCIDR rc1"
    "rc_InitiallyAssignedNamespaces rc = rc_InitiallyAssignedNamespaces rc2"
    "rc_UnAssignedNamespaces rc = rc_UnAssignedNamespaces rc2"
    "rc_SelectedHostSubnets rc = filter (\<lambda>(name, hs). map_of sel name \<noteq> None) (rc_AllHostSubnets rc2)"
    by (simp_all add: rc_eq Let_def rc2_fields)
  have dsel: "distinct (gm_keys sel)" unfolding Q by (rule distinct_map_filter) (rule rc2_fields(1))
  show "rc_CIDRs rc = map CIDR (CIDRAssignments x)" using cidrs rc_fields by simp
  show "rc_EgressIPAM rc = x" "rc_Infrastructure rc = p" by (simp_all add: rc_eq Let_def rc2_fields)
  show "\<exists>items. list_namespaces E h = Inr items \<and>
      rc_InitiallyAssignedNamespaces rc = filter (\<lambda>n. ns_egressipam n = Some (ei_name x) \<and> ns_ips n \<noteq> None) items \<and>
      rc_UnAssignedNamespaces rc = filter (\<lambda>n. ns_egressipam n = Some (ei_name x) \<and> ns_ips n = None) items"
    using items(1) by (simp add: rc_fields rc2_fields)
  have "cidrs_ok rc" unfolding cidrs_ok_def
  proof (intro conjI ballI)
    show "distinct (gm_keys (rc_AllNodes rc))" using rc2_fields(1) rc_fields(1) by simp
    fix c assume "c \<in> set (rc_CIDRs rc)"
    then obtain a where a: "a \<in> set (CIDRAssignments x)" "c = CIDR a" using cidrs rc_fields(3) by auto
    from v4 a obtain w b n where p: "ParseCIDR c = Inr (IPv4 w, Net4 b n)" by (auto simp: ipv4_cidrs_def)
    have "map_of (rc_NetCIDRByCIDR rc) c = Some (Net4 b n)" using cidrs a p rc_fields(4) by fastforce
    moreover have "net_contains (Net4 b n) ip" if ip: "ip \<in> set (gm_get [] (rc_ReservedIPsByCIDR rc) c)" for ip
    proof -
      from ip cidrs obtain a' where "a' \<in> set (CIDRAssignments x)" "c = CIDR a'" "ip \<in> ParseIP ` set (ReservedIPs a')"
        unfolding rc_fields(5) by blast
      then show ?thesis using valid p by (fastforce simp: assignment_ok_def simp del: net_contains.simps)
    qed
    ultimately show "case ParseCIDR c of Inl e \<Rightarrow> False
      | Inr (IPv4 w, Net4 b n) \<Rightarrow> map_of (rc_NetCIDRByCIDR rc) c = Some (Net4 b n) \<and>
            (\<forall>a \<in> set (gm_get [] (rc_ReservedIPsByCIDR rc) c). net_contains (Net4 b n) a)
      | Inr _ \<Rightarrow> False" unfolding p by (simp del: net_contains.simps)
  qed
  moreover have "nets_ok rc" using cidrs rc_fields(3,4) unfolding nets_ok_def by auto
  moreover have "node_lists_ok rc"
    by (rule node_lists_by_cidr [OF laws(1), where rc = "rc2\<lparr>rc_SelectedNodes := sel, rc_SelectedHostSubnets :=
        filter (\<lambda>(name, hs). map_of sel name \<noteq> None) (rc_AllHostSubnets rc2)\<rparr>"])
      (simp_all add: dsel rc_eq Let_def)
  moreover have "map_of (rc_AllNodes rc) n = Some (gm_get zero_node sel n)" if "n \<in> set (gm_keys sel)" for n
    using map_of_filter_Some [OF rc2_fields(1)] map_of_gm_get [OF that] unfolding rc_fields(1) Q by blast
  ultimately show "ctx_ok rc"
    unfolding ctx_ok_def rc_fields(2,6-8) using dsel rc2_fields by (simp add: distinct_map_filter)
qed


lemma load_used_Inr:
  assumes "load_used E infra rc h = (Inr rc', h')"
  obtains used where "rc' = rc\<lparr>rc_UsedIPsByCIDR := used\<rparr>" | "rc' = rc"
  using assms by (auto simp: load_used_def split: prod.splits sum.splits err.splits option.splits)

lemma cidrs_ok_cong:
  assumes "rc_AllNodes rc' = rc_AllNodes rc" "rc_CIDRs rc' = rc_CIDRs rc"
    "rc_NetCIDRByCIDR rc' = rc_NetCIDRByCIDR rc" "rc_ReservedIPsByCIDR rc' = rc_ReservedIPsByCIDR rc"
  shows "cidrs_ok rc' = cidrs_ok rc"
  unfolding cidrs_ok_def assms ..

lemma ctx_ok_used [simp]: "ctx_ok (rc\<lparr>rc_UsedIPsByCIDR := used\<rparr>) = ctx_ok rc"
proof -
  have "cidrs_ok (rc\<lparr>rc_UsedIPsByCIDR := used\<rparr>) = cidrs_ok rc" by (rule cidrs_ok_cong) simp_all
  then show ?thesis by (simp add: ctx_ok_def nets_ok_def node_lists_ok_def)
qed

lemma loadReconcileContext_Inr:
  assumes "loadReconcileContext E P p x h = (Inr (rc, infra), h')"
  obtains rc0 h1 where "load_cluster E p x h = Inr rc0" "make_infra E P rc0 h = (Inr infra, h1)"
    "rc = rc0 \<or> (\<exists>used. rc = rc0\<lparr>rc_UsedIPsByCIDR := used\<rparr>)" "load_used E infra rc0 h1 = (Inr rc, h')"
proof -
  from assms obtain rc0 h1 where load: "load_cluster E p x h = Inr rc0" "make_infra E P rc0 h = (Inr infra, h1)"
    and used: "load_used E infra rc0 h1 = (Inr rc, h')"
    unfolding loadReconcileContext_def by (elim bind_w_Inr) (simp add: pure_w_def)
  from used have "rc = rc0 \<or> (\<exists>used. rc = rc0\<lparr>rc_UsedIPsByCIDR := used\<rparr>)" by (rule load_used_Inr) auto
  with load used show ?thesis by (intro that)
qed

lemma loadReconcileContext_ok:
  assumes laws: "range_laws E" "multierror_laws E" "schedule_laws E"
    and valid: "IsValid (ClientEgressIPAM x) = (True, None)" and v4: "ipv4_cidrs x"
    and res: "loadReconcileContext E P p x h = (Inr (rc, infra), h')"
  shows "ctx_ok rc \<and> rc_CIDRs rc = map CIDR (CIDRAssignments x) \<and> rc_Infrastructure rc = p \<and>
    (\<exists>items. list_namespaces E h = Inr items \<and>
      rc_InitiallyAssignedNamespaces rc = filter (\<lambda>n. ns_egressipam n = Some (ei_name x) \<and> ns_ips n \<noteq> None) items \<and>
      rc_UnAssignedNamespaces rc = filter (\<lambda>n. ns_egressipam n = Some (ei_name x) \<and> ns_ips n = None) items)"
proof -
  obtain rc0 h1 where load: "load_cluster E p x h = Inr rc0"
    and rc: "rc = rc0 \<or> (\<exists>used. rc = rc0\<lparr>rc_UsedIPsByCIDR := used\<rparr>)"
    using loadReconcileContext_Inr [OF res] by metis
  note facts = load_cluster_ok [OF laws valid [unfolded IsValid_iff_ok] v4 load]
  from rc show ?thesis using facts by auto
qed

text \<open>
  C19. What \<open>loadReconcileContext\<close> establishes for a valid IPv4 EgressIPAM, whatever the order
  in which maps are visited and goroutines answer: the CIDRs are those of the spec, each with
  its network and with reserved addresses that lie in it; a node is listed under at most one
  CIDR, and once; the namespaces that refer to the EgressIPAM are split into those that hold
  addresses and those that do not.
\<close>

theorem loadReconcileContext_establishes:
  assumes "range_laws E" "multierror_laws E" "schedule_laws E"
    and "IsValid (ClientEgressIPAM x) = (True, None)" and "ipv4_cidrs x"
    and "loadReconcileContext E P p x h = (Inr (rc, infra), h')"
  shows "ctx_ok rc \<and> rc_CIDRs rc = map CIDR (CIDRAssignments x) \<and> rc_Infrastructure rc = p \<and>
    (\<exists>items. list_namespaces E h = Inr items \<and>
      rc_InitiallyAssignedNamespaces rc = filter (\<lambda>n. ns_egressipam n = Some (ei_name x) \<and> ns_ips n \<noteq> None) items \<and>
      rc_UnAssignedNamespaces rc = filter (\<lambda>n. ns_egressipam n = Some (ei_name x) \<and> ns_ips n = None) items)"
  using assms by (rule loadReconcileContext_ok)

section \<open>A cluster for the witnesses\<close>

text \<open>The objects of \<open>example_rc\<close>, as the API server lists them.\<close>

definition example_instance :: EgressIPAM where
  "example_instance = example_egressipam\<lparr>ei_finalizers := [controllerName]\<rparr>"

definition example_cluster :: goenv where
  "example_cluster = example_env\<lparr>
     list_nodes := (\<lambda>h. Inr (map snd (rc_AllNodes example_rc))),
     list_hostsubnets := (\<lambda>h. Inr (map snd (rc_AllHostSubnets example_rc))),
     list_namespaces := (\<lambda>h. Inr (map snd (rc_ReferringNamespaces example_rc))),
     list_netnamespaces := (\<lambda>h. Inr (map snd (rc_NetNamespaces example_rc))),
     get_egressipam := (\<lambda>n h. if n = ''ipam'' then Inr example_instance else Inl (NotFound n))\<rparr>"

lemma example_cluster_same:
  "range_laws example_cluster = range_laws example_env" "schedule_laws example_cluster = schedule_laws example_env"
  "ipmath_laws example_cluster = ipmath_laws example_env" "size_law example_cluster = size_law example_env"
  "u32set_laws example_cluster = u32set_laws example_env" "strset_laws example_cluster = strset_laws example_env"
  "multierror_laws example_cluster = multierror_laws example_env"
  "finalizer_laws example_cluster = finalizer_laws example_env"
  by (simp_all add: range_laws_def schedule_laws_def ipmath_laws_def size_law_def u32set_laws_def strset_laws_def
      multierror_laws_def finalizer_laws_def example_cluster_def)

lemmas example_cluster_laws = example_env_laws [folded example_cluster_same]

definition example_platforms :: platforms where
  "example_platforms = \<lparr>NewAWSInfra = (\<lambda>rc. pure_w (Inl (ErrNew ''no cloud''))),
     NewAzureInfra = (\<lambda>rc. pure_w (Inl (ErrNew ''no cloud'')))\<rparr>"

definition example_loaded :: rcontext where
  "example_loaded = example_rc\<lparr>rc_EgressIPAM := example_instance, rc_InitiallyAssignedIPsByNode := [],
     rc_UsedIPsByCIDR := [(''10.0.0.0/29'', []), (''10.0.1.0/29'', [])]\<rparr>"

lemma example_loads:
  "loadReconcileContext example_cluster example_platforms (OtherPlatform ''None'') example_instance [] =
     (Inr (example_loaded, BareMetalInfra), [])"
proof -
  have 1: "load_cluster example_cluster (OtherPlatform ''None'') example_instance [] =
      Inr (example_loaded\<lparr>rc_UsedIPsByCIDR := []\<rparr>)" by code_simp
  have 2: "make_infra example_cluster example_platforms (example_loaded\<lparr>rc_UsedIPsByCIDR := []\<rparr>) h = (Inr BareMetalInfra, h)" for h
    by (simp add: make_infra_def example_loaded_def example_rc_def Let_def pure_w_def)
  have 3: "load_used example_cluster BareMetalInfra (example_loaded\<lparr>rc_UsedIPsByCIDR := []\<rparr>) [] = (Inr example_loaded, [])"
    by code_simp
  show ?thesis by (simp add: loadReconcileContext_def bind_w_def pure_w_def 1 2 3)
qed

lemma example_loaded_ok: "ctx_ok example_loaded"
proof -
  have "ParseCIDR ''10.0.0.0/29'' = Inr (IPv4 0x0A000000, Net4 0x0A000000 29)"
    "ParseCIDR ''10.0.1.0/29'' = Inr (IPv4 0x0A000100, Net4 0x0A000100 29)" by code_simp+
  then have "ipv4_cidrs example_instance" by (simp add: ipv4_cidrs_def example_instance_def example_egressipam_def)
  moreover have "IsValid (ClientEgressIPAM example_instance) = (True, None)" by code_simp
  ultimately show ?thesis
    using loadReconcileContext_ok [OF example_cluster_laws(1,7,2) _ _ example_loads] by blast
qed

theorem loadReconcileContext_establishes_witness:
  "ctx_ok example_loaded \<and> rc_CIDRs example_loaded = map CIDR (CIDRAssignments example_instance)"
proof -
  have "ParseCIDR ''10.0.0.0/29'' = Inr (IPv4 0x0A000000, Net4 0x0A000000 29)"
    "ParseCIDR ''10.0.1.0/29'' = Inr (IPv4 0x0A000100, Net4 0x0A000100 29)" by code_simp+
  then have "ipv4_cidrs example_instance" by (simp add: ipv4_cidrs_def example_instance_def example_egressipam_def)
  moreover have "IsValid (ClientEgressIPAM example_instance) = (True, None)" by code_simp
  ultimately show ?thesis
    using loadReconcileContext_establishes [OF example_cluster_laws(1,7,2) _ _ example_loads] by blast
qed

theorem IsValid_correct_witness:
  "IsValid (ClientEgressIPAM example_instance) = (True, None) \<and> assignment_ok (hd (CIDRAssignments example_instance))"
proof -
  have "IsValid (ClientEgressIPAM example_instance) = (True, None)"
    "hd (CIDRAssignments example_instance) \<in> set (CIDRAssignments example_instance)" by code_simp+
  then show ?thesis using IsValid_correct [of example_instance] by simp
qed

end
