(* ===== verification/Cycle.thy ===== *)
theory Cycle
  imports Controller
begin

text \<open>
  The reconcile cycle as a whole: the order of its calls on every platform that meets the
  contract of \<open>Infra\<close>, and what a successful cycle has established.
\<close>

section \<open>The phases of a cycle\<close>

fun is_namespace_call :: "api_call \<Rightarrow> bool" where
  "is_namespace_call (UpdateNamespace _) = True" | "is_namespace_call _ = False"

fun is_netnamespace_call :: "api_call \<Rightarrow> bool" where
  "is_netnamespace_call (UpdateNetNamespace _) = True" | "is_netnamespace_call _ = False"

fun is_hostsubnet_call :: "api_call \<Rightarrow> bool" where
  "is_hostsubnet_call (UpdateHostSubnet _) = True" | "is_hostsubnet_call _ = False"

lemma emits_perform [simp]: "P c \<Longrightarrow> perform E c h = (r, h') \<Longrightarrow> emits P h h'"
  by (auto simp: perform_def emits_def Let_def)

lemma emits_mset:
  assumes "\<exists>r h1. a h = (r, h @ h1) \<and> mset (calls h1) = mset cs \<and> Q r h1" "a h = (r, h')" "\<forall>c \<in> set cs. P c"
  shows "emits P h h'"
  using assms by (auto simp: emits_def dest: mset_eq_setD)

lemma assignNamespace_emits:
  "assignNamespace E rc n s h = (r, h') \<Longrightarrow> emits is_namespace_call h h'"
  by (cases s) (auto simp: assignNamespace_def Let_def perform_def emits_def split: sum.splits option.splits prod.splits)

lemma assignIPsToNamespaces_emits:
  assumes "\<And>r h1. GetUsedIPsByCIDR infra rc h = (r, h1) \<Longrightarrow> h1 = h"
    and "assignIPsToNamespaces E infra rc h = (r, h')"
  shows "emits is_namespace_call h h'"
proof -
  have loop: "emits is_namespace_call h h2"
    if "go_for_w (assignNamespace E rc) ns s h = (r, h2)" for ns s r h2
    using go_for_w_emits [OF _ that] assignNamespace_emits by blast
  show ?thesis using assms
    by (fastforce simp: assignIPsToNamespaces_def Let_def split: sum.splits prod.splits dest: loop)
qed


definition all_ok :: "history \<Rightarrow> bool" where
  "all_ok h \<longleftrightarrow> (\<forall>(c, q) \<in> set h. q = None)"

lemma all_ok_simps [simp]: "all_ok []" "all_ok (h @ h') \<longleftrightarrow> all_ok h \<and> all_ok h'"
  "all_ok (map (\<lambda>x. (f x, None)) xs)"
  by (auto simp: all_ok_def)

text \<open>
  The calls of a cycle come in phases, and a phase begins only when every call before it
  succeeded.
\<close>

definition in_phases :: "(api_call \<Rightarrow> bool) list \<Rightarrow> history \<Rightarrow> history \<Rightarrow> bool" where
  "in_phases Ps h h' \<longleftrightarrow> (\<exists>hs. length hs = length Ps \<and> h' = h @ concat hs \<and>
     (\<forall>i < length Ps. \<forall>c \<in> set (calls (hs ! i)). (Ps ! i) c) \<and>
     (\<forall>i < length Ps. hs ! i \<noteq> [] \<longrightarrow> all_ok (concat (take i hs))))"

lemma in_phases_stop:
  assumes "emits P h h'"
  shows "in_phases (P # Ps) h h'"
proof -
  from assms obtain h1 where h1: "h' = h @ h1" "\<forall>c \<in> set (calls h1). P c" by (auto simp: emits_def)
  let ?hs = "h1 # replicate (length Ps) []"
  have "concat ?hs = h1" by simp
  moreover have "\<forall>i < length (P # Ps). \<forall>c \<in> set (calls (?hs ! i)). ((P # Ps) ! i) c"
    using h1(2) by (auto simp: nth_Cons split: nat.splits)
  moreover have "\<forall>i < length (P # Ps). ?hs ! i \<noteq> [] \<longrightarrow> all_ok (concat (take i ?hs))"
    by (auto simp: nth_Cons split: nat.splits)
  ultimately show ?thesis unfolding in_phases_def using h1(1)
    by (intro exI [of _ ?hs]) auto
qed

lemma in_phases_next:
  assumes "h1 = h @ k" "\<forall>c \<in> set (calls k). P c" "all_ok k" "in_phases Ps h1 h2"
  shows "in_phases (P # Ps) h h2"
proof -
  from assms(4) obtain hs where hs: "length hs = length Ps" "h2 = h1 @ concat hs"
    "\<forall>i < length Ps. \<forall>c \<in> set (calls (hs ! i)). (Ps ! i) c"
    "\<forall>i < length Ps. hs ! i \<noteq> [] \<longrightarrow> all_ok (concat (take i hs))" by (auto simp: in_phases_def)
  have "\<forall>i < length (P # Ps). \<forall>c \<in> set (calls ((k # hs) ! i)). ((P # Ps) ! i) c"
    using assms(2) hs(3) by (auto simp: nth_Cons split: nat.splits)
  moreover have "\<forall>i < length (P # Ps). (k # hs) ! i \<noteq> [] \<longrightarrow> all_ok (concat (take i (k # hs)))"
    using assms(3) hs(4) by (auto simp: nth_Cons split: nat.splits)
  ultimately show ?thesis unfolding in_phases_def using assms(1) hs(1,2)
    by (intro exI [of _ "k # hs"]) simp
qed

lemma in_phases_refl: "in_phases Ps h h"
  unfolding in_phases_def
  by (intro exI [of _ "replicate (length Ps) []"]) auto

lemma assignIPsToNamespaces_calls:
  assumes "assignIPsToNamespaces E infra rc h = (Inr newly, h2)"
  obtains used h1 where "GetUsedIPsByCIDR infra rc h = (Inr used, h1)"
    "h2 = h1 @ map (\<lambda>n. (UpdateNamespace n, None)) newly" "\<forall>n \<in> set newly. ns_ips n \<noteq> None"
proof -
  from assms obtain used h1 m mf where used: "GetUsedIPsByCIDR infra rc h = (Inr used, h1)"
    and loop: "go_for_w (assignNamespace E rc) (rc_UnAssignedNamespaces rc) (m, []) h1 = (Inr (mf, newly), h2)"
    by (auto simp: assignIPsToNamespaces_def Let_def split: sum.splits prod.splits)
  from assignNamespace_loop [OF loop] obtain ps where h2: "h2 = h1 @ map (\<lambda>n. (UpdateNamespace n, None)) newly"
    and ann: "\<forall>j < length (rc_UnAssignedNamespaces rc). annotated rc (rc_UnAssignedNamespaces rc ! j) (ps ! j) (newly ! j)"
    and len: "length newly = length (rc_UnAssignedNamespaces rc)" by auto
  have "ns_ips n' \<noteq> None" if "annotated rc n p n'" for n p n'
    using that by (auto simp: annotated_def ns_ips_def getAnnotation_set)
  then have "\<forall>n \<in> set newly. ns_ips n \<noteq> None" using ann len by (metis in_set_conv_nth)
  with used h2 show ?thesis by (rule that)
qed

lemma assigned_names:
  assumes "assignIPsToNamespaces E infra rc h = (Inr newly, h2)"
  shows "map ns_name newly = map ns_name (rc_UnAssignedNamespaces rc)"
proof -
  from assms obtain used h1 m mf where "go_for_w (assignNamespace E rc) (rc_UnAssignedNamespaces rc) (m, []) h1 = (Inr (mf, newly), h2)"
    by (auto simp: assignIPsToNamespaces_def Let_def split: sum.splits prod.splits)
  from assignNamespace_loop [OF this] obtain ps where
    len: "length newly = length (rc_UnAssignedNamespaces rc)"
    and ann: "\<forall>j < length (rc_UnAssignedNamespaces rc). annotated rc (rc_UnAssignedNamespaces rc ! j) (ps ! j) (newly ! j)"
    by auto
  then show ?thesis by (auto simp: annotated_def list_eq_iff_nth_eq)
qed

lemma reconcileNetNamespaces_phase:
  assumes "schedule_laws E" "multierror_laws E" "reconcileNetNamespaces E rc h = (r, h')"
  obtains k where "h' = h @ k" "\<forall>c \<in> set (calls k). is_netnamespace_call c" "r = Inr () \<longrightarrow> all_ok k"
proof -
  obtain k where k: "h' = h @ k" "mset (calls k) = mset (List.map_filter (\<lambda>n. map_option
      (\<lambda>v. netnamespace_with rc (split_on (CHR '','') v) n) (ns_ips n)) (rc_FinallyAssignedNamespaces rc))"
    "r = Inr () \<longrightarrow> all_ok k"
    using reconcileNetNamespaces_run [OF assms(1,2), of rc h] assms(3) by (auto simp: all_ok_def)
  have "is_netnamespace_call c" if "c \<in> set (calls k)" for c
  proof -
    have "c \<in> set (List.map_filter (\<lambda>n. map_option (\<lambda>v. netnamespace_with rc (split_on (CHR '','') v) n) (ns_ips n))
        (rc_FinallyAssignedNamespaces rc))" using that mset_eq_setD [OF k(2)] by simp
    then show ?thesis by (auto simp: List.map_filter_def netnamespace_with_def)
  qed
  with k show ?thesis by (intro that) auto
qed

lemma hostsubnet_phase:
  assumes "schedule_laws E" "multierror_laws E" "strset_laws E"
    and "(if b then reconcileHSAssignedIPs E rc else assignCIDRsToHostSubnets E rc) h = (r, h')"
  shows "emits is_hostsubnet_call h h'" "r = Inr () \<Longrightarrow> \<exists>k. h' = h @ k \<and> all_ok k"
proof -
  obtain k where k: "h' = h @ k" "\<forall>c \<in> set (calls k). is_hostsubnet_call c" "r = Inr () \<longrightarrow> all_ok k"
  proof (cases b)
    case True
    with reconcileHSAssignedIPs_run [OF assms(1-3), of rc h] assms(4) obtain k where k: "h' = h @ k"
      "mset (calls k) = mset (hs_updates rc (rc_SelectedHostSubnets rc))" "r = Inr () \<longrightarrow> all_ok k"
      by (auto simp: all_ok_def)
    moreover have "\<forall>c \<in> set (calls k). is_hostsubnet_call c"
      using mset_eq_setD [OF k(2)] by (auto simp: hs_updates_def)
    ultimately show ?thesis by (intro that)
  next
    case False
    with assms(4) have "assignCIDRsToHostSubnets E rc h = (r, h')" by simp
    then obtain k where k: "h' = h @ k" "in_order (cidr_update rc) (filter (needs_cidr rc) (cidr_nodes E rc)) r k"
      using set_cidr_loop [OF assms(3), of rc "cidr_nodes E rc" h]
      unfolding assignCIDRsToHostSubnets_def go_for_w_nested cidr_nodes_def by auto
    moreover have "\<forall>c \<in> set (calls k). is_hostsubnet_call c"
      using k(2) by (auto simp: in_order_def calls_def cidr_update_def split: sum.splits)
    moreover have "r = Inr () \<longrightarrow> all_ok k" using k(2) by (auto simp: in_order_def)
    ultimately show ?thesis by (intro that)
  qed
  then show "emits is_hostsubnet_call h h'" "r = Inr () \<Longrightarrow> \<exists>k. h' = h @ k \<and> all_ok k"
    by (auto simp: emits_def)
qed


section \<open>The cycle on any platform that meets the contract\<close>

context infra_contract
begin

lemma updateMetrics_reads: "updateMetrics E infra rc h = (r, h') \<Longrightarrow> h' = h"
proof -
  have step: "h1 = h" if "capacity_gauge infra rc n gs h = (r, h1)" for n gs h r h1
    using that capacity_reads [of "gm_get zero_node (rc_AllNodes rc) n" h]
    by (auto simp: capacity_gauge_def split: prod.splits sum.splits err.splits)
  have "h' = h" if "go_for_w (capacity_gauge infra rc) ks gs h = (r, h')" for ks gs h r h'
    using that
  proof (induction ks arbitrary: gs h)
    case (Cons k ks)
    show ?case
    proof (cases "capacity_gauge infra rc k gs h")
      case (Pair q h1)
      then have "h1 = h" by (rule step)
      with Pair Cons.IH Cons.prems show ?thesis by (cases q) auto
    qed
  qed simp
  then show "updateMetrics E infra rc h = (r, h') \<Longrightarrow> h' = h" unfolding updateMetrics_def by blast
qed

lemma assign_emits:
  assumes "assignIPsToNamespaces E infra rc h = (r, h')"
  shows "emits is_namespace_call h h'"
  using assms by (intro assignIPsToNamespaces_emits) (rule used_ips_reads)

lemma process_in_phases:
  assumes laws: "schedule_laws E" "multierror_laws E" "strset_laws E" and assured: "assured (rc_CIDRs rc)"
    and run: "processReconcileContext E infra rc h = (r, h')"
  shows "in_phases [is_namespace_call, is_netnamespace_call, is_cloud_call, is_hostsubnet_call] h h'"
proof -
  note reads = used_ips_reads [of rc h]
  from run [unfolded processReconcileContext_def] show ?thesis
  proof (cases rule: bind_w_cases)
    case 1
    then show ?thesis using in_phases_stop assign_emits by blast
  next
    case (2 newly h1)
    let ?rc1 = "rc\<lparr>rc_FinallyAssignedNamespaces := rc_InitiallyAssignedNamespaces rc @ newly\<rparr>"
    let ?rc2 = "?rc1\<lparr>rc_InitiallyAssignedIPsByNode := getAssignedIPsByNode ?rc1\<rparr>"
    obtain used where h1: "h1 = h @ map (\<lambda>n. (UpdateNamespace n, None)) newly"
      using assignIPsToNamespaces_calls [OF 2(1)] reads by metis
    have "in_phases [is_netnamespace_call, is_cloud_call, is_hostsubnet_call] h1 h'"
      using 2(2) [unfolded Let_def]
    proof (cases rule: bind_w_cases)
      case (1 e)
      then show ?thesis
        by (elim reconcileNetNamespaces_phase [OF laws(1,2)]) (auto intro!: in_phases_stop simp: emits_def)
    next
      case (2 u h2)
      then obtain k where k: "h2 = h1 @ k" "\<forall>c \<in> set (calls k). is_netnamespace_call c" "all_ok k"
        by (elim reconcileNetNamespaces_phase [OF laws(1,2)]) auto
      have "in_phases [is_cloud_call, is_hostsubnet_call] h2 h'"
        using 2(2)
      proof (cases rule: bind_w_cases)
        case (1 e)
        then show ?thesis by (simp add: pure_w_def in_phases_refl)
      next
        case (2 assigned h3)
        let ?rc3 = "?rc2\<lparr>rc_FinallyAssignedIPsByNode := assigned\<rparr>"
        have h3: "h3 = h2" using 2(1) by (simp add: pure_w_def)
        from 2(2) show ?thesis unfolding h3
        proof (cases rule: bind_w_cases)
          case (1 e)
          then show ?thesis using in_phases_stop secondary_cloud by blast
        next
          case (2 u h4)
          from secondary_cloud [OF 2(1)] obtain k where k: "h4 = h2 @ k" "\<forall>c \<in> set (calls k). is_cloud_call c"
            by (auto simp: emits_def)
          then have "all_ok k" using secondary_ok [of ?rc3 h2 u k] 2(1) assured by (auto simp: all_ok_def)
          moreover have "in_phases [is_hostsubnet_call] h4 h'"
            using 2(2)
          proof (cases rule: bind_w_cases)
            case (1 e)
            then show ?thesis using in_phases_stop hostsubnet_phase(1) [OF laws] by blast
          next
            case (2 u h5)
            then show ?thesis
              using in_phases_stop hostsubnet_phase(1) [OF laws 2(1)] updateMetrics_reads [OF 2(2)] by blast
          qed
          ultimately show ?thesis using in_phases_next [OF k] by blast
        qed
      qed
      then show ?thesis by (rule in_phases_next [OF k])
    qed
    moreover have "\<forall>c \<in> set (calls (map (\<lambda>n. (UpdateNamespace n, None)) newly)). is_namespace_call c"
      by (auto simp: calls_def)
    ultimately show ?thesis using in_phases_next [OF h1] by simp
  qed
qed

end

text \<open>
  C10. Ordering: on every platform that meets the contract of \<open>Infra\<close>, whether the cycle
  succeeds or fails, its calls are updates of namespaces, then of NetNamespaces, then calls
  to the cloud, then updates of HostSubnets, and a phase begins only when every call of the
  phases before it succeeded. (So an address is in the annotation of a namespace, the source
  of truth, before anything carries traffic with it.)
\<close>

theorem processReconcileContext_ordered:
  assumes "infra_contract assured infra" "schedule_laws E" "multierror_laws E" "strset_laws E" "assured (rc_CIDRs rc)"
    and "processReconcileContext E infra rc h = (r, h')"
  shows "in_phases [is_namespace_call, is_netnamespace_call, is_cloud_call, is_hostsubnet_call] h h'"
  using assms by (rule infra_contract.process_in_phases)

section \<open>What a successful cycle has established\<close>

text \<open>The context at the end of the cycle, as lines 194 to 222 fill it in.\<close>

definition cycle_rc :: "rcontext \<Rightarrow> namespace list \<Rightarrow> ips_by \<Rightarrow> rcontext" where
  "cycle_rc rc newly assigned =
     (let rc1 = rc\<lparr>rc_FinallyAssignedNamespaces := rc_InitiallyAssignedNamespaces rc @ newly\<rparr> in
      rc1\<lparr>rc_InitiallyAssignedIPsByNode := getAssignedIPsByNode rc1, rc_FinallyAssignedIPsByNode := assigned\<rparr>)"

lemma cycle_rc_CIDRs [simp]: "rc_CIDRs (cycle_rc rc newly assigned) = rc_CIDRs rc"
  by (simp add: cycle_rc_def Let_def)

text \<open>The steps of a cycle that succeeded.\<close>

lemma processReconcileContext_steps:
  assumes "processReconcileContext E infra rc h = (Inr gs, h')"
  obtains newly h1 h2 assigned h3 h4 rc1 rc2 where
    "rc1 = rc\<lparr>rc_FinallyAssignedNamespaces := rc_InitiallyAssignedNamespaces rc @ newly\<rparr>"
    "rc2 = rc1\<lparr>rc_InitiallyAssignedIPsByNode := getAssignedIPsByNode rc1\<rparr>"
    "assignIPsToNamespaces E infra rc h = (Inr newly, h1)"
    "reconcileNetNamespaces E rc1 h1 = (Inr (), h2)"
    "assignIPsToNodes E rc2 = Inr assigned"
    "ReconcileInstanceSecondaryIPs infra (cycle_rc rc newly assigned) h2 = (Inr (), h3)"
    "(if isCloudInfrastructure (rc_Infrastructure (cycle_rc rc newly assigned)) \<or> 1 < length (rc_CIDRs (cycle_rc rc newly assigned))
      then reconcileHSAssignedIPs E (cycle_rc rc newly assigned) else assignCIDRsToHostSubnets E (cycle_rc rc newly assigned)) h3 = (Inr (), h4)"
    "updateMetrics E infra (cycle_rc rc newly assigned) h4 = (Inr gs, h')"
  using assms unfolding processReconcileContext_def Let_def cycle_rc_def by (elim bind_w_Inr) (simp add: pure_w_def)

lemma ctx_ok_initial:
  assumes "ctx_ok rc"
  shows "node_lists_ok (cycle_rc rc newly assigned)" "initial_ok (cycle_rc rc newly assigned)"
proof -
  show "node_lists_ok (cycle_rc rc newly assigned)"
    using assms by (simp add: ctx_ok_def node_lists_ok_def cycle_rc_def Let_def)
  let ?rc1 = "rc\<lparr>rc_FinallyAssignedNamespaces := rc_InitiallyAssignedNamespaces rc @ newly\<rparr>"
  have d: "distinct (gm_keys (rc_SelectedHostSubnets ?rc1))" using assms by (simp add: ctx_ok_def)
  have "distinct (gm_keys (getAssignedIPsByNode ?rc1))"
    unfolding getAssignedIPsByNode_def by (rule distinct_gm_filter_map [OF d])
  moreover have "node_ready rc n" if n: "n \<in> set (gm_keys (getAssignedIPsByNode ?rc1))" for n
  proof -
    from n obtain v where "map_of (getAssignedIPsByNode ?rc1) n = Some v"
      by (metis map_of_eq_None_iff not_None_eq set_map)
    then show ?thesis
      by (auto simp: getAssignedIPsByNode_get [OF d] node_ready_def split: option.splits if_splits)
  qed
  ultimately show "initial_ok (cycle_rc rc newly assigned)"
    using assms by (simp add: ctx_ok_def initial_ok_def cycle_rc_def Let_def node_ready_def)
qed

lemma reconcileNetNamespaces_Inr:
  assumes "schedule_laws E" "multierror_laws E" "reconcileNetNamespaces E rc h = (Inr (), h')"
  obtains k where "h' = h @ k" "all_ok k" "\<forall>n \<in> set (rc_FinallyAssignedNamespaces rc). ns_ips n \<noteq> None"
    "mset (calls k) = mset (map (\<lambda>n. netnamespace_with rc (split_on (CHR '','') (the (ns_ips n))) n)
      (rc_FinallyAssignedNamespaces rc))"
proof -
  let ?ns = "rc_FinallyAssignedNamespaces rc"
  obtain k where k: "h' = h @ k" "all_ok k" "\<forall>n \<in> set ?ns. ns_ips n \<noteq> None"
    "mset (calls k) = mset (List.map_filter (\<lambda>n. map_option (\<lambda>v. netnamespace_with rc (split_on (CHR '','') v) n) (ns_ips n)) ?ns)"
    using reconcileNetNamespaces_run [OF assms(1,2), of rc h] assms(3) by (auto simp: all_ok_def)
  have "List.map_filter (\<lambda>n. map_option (\<lambda>v. netnamespace_with rc (split_on (CHR '','') v) n) (ns_ips n)) ns =
      map (\<lambda>n. netnamespace_with rc (split_on (CHR '','') (the (ns_ips n))) n) ns" if "\<forall>n \<in> set ns. ns_ips n \<noteq> None" for ns
    using that by (induction ns) (auto simp: List.map_filter_simps)
  with k show ?thesis by (intro that) simp_all
qed

text \<open>The calls of the last phase, when it succeeds.\<close>

definition hostsubnet_calls_ok :: "goenv \<Rightarrow> rcontext \<Rightarrow> history \<Rightarrow> bool" where
  "hostsubnet_calls_ok E rc k \<longleftrightarrow> all_ok k \<and>
     (if isCloudInfrastructure (rc_Infrastructure rc) \<or> 1 < length (rc_CIDRs rc)
      then mset (calls k) = mset (hs_updates rc (rc_SelectedHostSubnets rc))
      else calls k = map (cidr_update rc) (filter (needs_cidr rc) (cidr_nodes E rc)))"

lemma hostsubnet_Inr:
  assumes "schedule_laws E" "multierror_laws E" "strset_laws E"
    and "(if isCloudInfrastructure (rc_Infrastructure rc) \<or> 1 < length (rc_CIDRs rc)
      then reconcileHSAssignedIPs E rc else assignCIDRsToHostSubnets E rc) h = (Inr u, h')"
  obtains k where "h' = h @ k" "hostsubnet_calls_ok E rc k"
proof (cases "isCloudInfrastructure (rc_Infrastructure rc) \<or> 1 < length (rc_CIDRs rc)")
  case True
  with reconcileHSAssignedIPs_run [OF assms(1-3), of rc h] assms(4) obtain k where "h' = h @ k" "all_ok k"
    "mset (calls k) = mset (hs_updates rc (rc_SelectedHostSubnets rc))" by (auto simp: all_ok_def)
  with True show ?thesis by (intro that) (simp_all add: hostsubnet_calls_ok_def)
next
  case False
  then have "assignCIDRsToHostSubnets E rc h = (Inr u, h')" using assms(4) by simp
  then obtain k where "h' = h @ k" "in_order (cidr_update rc) (filter (needs_cidr rc) (cidr_nodes E rc)) (Inr u) k"
    using set_cidr_loop [OF assms(3), of rc "cidr_nodes E rc" h]
    unfolding assignCIDRsToHostSubnets_def go_for_w_nested cidr_nodes_def by auto
  with False show ?thesis
    by (intro that) (auto simp: hostsubnet_calls_ok_def in_order_def calls_def)
qed

definition cycle_calls :: "goenv \<Rightarrow> rcontext \<Rightarrow> namespace list \<Rightarrow> ips_by \<Rightarrow> history \<Rightarrow> bool" where
  "cycle_calls E rc newly assigned h \<longleftrightarrow>
     (\<exists>nn cloud hs. h = map (\<lambda>n. (UpdateNamespace n, None)) newly @ nn @ cloud @ hs \<and>
        all_ok nn \<and> all_ok cloud \<and> (\<forall>c \<in> set (calls cloud). is_cloud_call c) \<and>
        mset (calls nn) = mset (map (\<lambda>n. netnamespace_with rc (split_on (CHR '','') (the (ns_ips n))) n)
          (rc_InitiallyAssignedNamespaces rc @ newly)) \<and>
        hostsubnet_calls_ok E (cycle_rc rc newly assigned) hs)"

context infra_contract
begin

lemma process_success:
  assumes laws: "range_laws E" "ipmath_laws E" "u32set_laws E" "strset_laws E" "schedule_laws E" "multierror_laws E"
    and assured: "assured (rc_CIDRs rc)" and ok: "ctx_ok rc" and run: "processReconcileContext E infra rc h = (Inr gs, h')"
  obtains newly used assigned k where "h' = h @ k" "cycle_calls E rc newly assigned k"
    "map ns_name newly = map ns_name (rc_UnAssignedNamespaces rc)"
    "GetUsedIPsByCIDR infra rc h = (Inr used, h)"
    "\<And>i. i < length (rc_CIDRs rc) \<Longrightarrow> distinct (map (\<lambda>n. ns_addr n i) newly) \<and>
       (\<forall>n \<in> set newly. in_cidr (rc_CIDRs rc ! i) (ns_addr n i) \<and> \<not> taken rc used i (ns_addr n i))"
    "\<And>ip. (\<exists>n. ip \<in> set (gm_get [] assigned n)) \<longleftrightarrow>
       (\<exists>c \<in> set (rc_CIDRs rc). wanted (cycle_rc rc newly assigned) c ip)"
proof -
  let ?rc1 = "\<lambda>newly. rc\<lparr>rc_FinallyAssignedNamespaces := rc_InitiallyAssignedNamespaces rc @ newly\<rparr>"
  let ?rc2 = "\<lambda>newly. (?rc1 newly)\<lparr>rc_InitiallyAssignedIPsByNode := getAssignedIPsByNode (?rc1 newly)\<rparr>"
  obtain newly h1 h2 assigned h3 h4 where
    s1: "assignIPsToNamespaces E infra rc h = (Inr newly, h1)" and
    s2: "reconcileNetNamespaces E (?rc1 newly) h1 = (Inr (), h2)" and
    s3: "assignIPsToNodes E (?rc2 newly) = Inr assigned" and
    s4: "ReconcileInstanceSecondaryIPs infra (cycle_rc rc newly assigned) h2 = (Inr (), h3)" and
    s5: "(if isCloudInfrastructure (rc_Infrastructure (cycle_rc rc newly assigned)) \<or> 1 < length (rc_CIDRs (cycle_rc rc newly assigned))
      then reconcileHSAssignedIPs E (cycle_rc rc newly assigned) else assignCIDRsToHostSubnets E (cycle_rc rc newly assigned)) h3 = (Inr (), h4)" and
    s6: "updateMetrics E infra (cycle_rc rc newly assigned) h4 = (Inr gs, h')"
    by (rule processReconcileContext_steps [OF run]) blast
  obtain used where used: "GetUsedIPsByCIDR infra rc h = (Inr used, h)"
    and h1: "h1 = h @ map (\<lambda>n. (UpdateNamespace n, None)) newly"
    using assignIPsToNamespaces_calls [OF s1] used_ips_reads by metis
  obtain nn where nn: "h2 = h1 @ nn" "all_ok nn"
    "mset (calls nn) = mset (map (\<lambda>n. netnamespace_with rc (split_on (CHR '','') (the (ns_ips n))) n)
      (rc_InitiallyAssignedNamespaces rc @ newly))"
    using s2 by (auto elim!: reconcileNetNamespaces_Inr [OF laws(5,6)] simp: netnamespace_with_def)
  from secondary_cloud [OF s4] obtain cloud where cloud: "h3 = h2 @ cloud" "\<forall>c \<in> set (calls cloud). is_cloud_call c"
    by (auto simp: emits_def)
  then have "all_ok cloud" using secondary_ok [of "cycle_rc rc newly assigned" h2 "()" cloud] s4 assured by (auto simp: all_ok_def)
  obtain hs where hs: "h4 = h3 @ hs" "hostsubnet_calls_ok E (cycle_rc rc newly assigned) hs"
    using hostsubnet_Inr [OF laws(5,6,4) s5] .
  have h': "h' = h4" by (rule updateMetrics_reads [OF s6])
  let ?k = "map (\<lambda>n. (UpdateNamespace n, None)) newly @ nn @ cloud @ hs"
  note alloc = assignIPsToNamespaces_Inr [OF laws(1-4) _ used _ s1]
  have cidrs: "cidrs_ok rc" "used_ips_ok (rc_CIDRs rc) used" using ok used_ips [OF assured _ used] by (simp_all add: ctx_ok_def)
  have same: "wanted (?rc2 newly) = wanted (cycle_rc rc newly assigned)"
    "node_lists_ok (?rc2 newly) = node_lists_ok (cycle_rc rc newly assigned)"
    "initial_ok (?rc2 newly) = initial_ok (cycle_rc rc newly assigned)"
    by (simp_all add: fun_eq_iff wanted_def node_lists_ok_def initial_ok_def node_ready_def cycle_rc_def Let_def)
  show ?thesis
  proof (rule that)
    show "h' = h @ ?k" using h1 nn(1) cloud(1) hs(1) h' by simp
    show "cycle_calls E rc newly assigned ?k"
      unfolding cycle_calls_def using nn cloud(2) \<open>all_ok cloud\<close> hs(2) by blast
    show "map ns_name newly = map ns_name (rc_UnAssignedNamespaces rc)" by (rule assigned_names [OF s1])
    show "distinct (map (\<lambda>n. ns_addr n i) newly) \<and>
       (\<forall>n \<in> set newly. in_cidr (rc_CIDRs rc ! i) (ns_addr n i) \<and> \<not> taken rc used i (ns_addr n i))"
      if "i < length (rc_CIDRs rc)" for i using alloc [OF cidrs that] by blast
    show "(\<exists>n. ip \<in> set (gm_get [] assigned n)) \<longleftrightarrow>
       (\<exists>c \<in> set (rc_CIDRs rc). wanted (cycle_rc rc newly assigned) c ip)" for ip
      using assignIPsToNodes_serves [OF laws(1,4) _ _ s3, unfolded same] ctx_ok_initial [OF ok] by simp
  qed (rule used)
qed

end

lemma process_established:
  assumes "infra_contract assured infra"
    and "range_laws E" "ipmath_laws E" "u32set_laws E" "strset_laws E" "schedule_laws E" "multierror_laws E"
    and "assured (rc_CIDRs rc)" "ctx_ok rc" "processReconcileContext E infra rc h = (Inr gs, h')"
  shows "\<exists>newly used assigned k. h' = h @ k \<and> cycle_calls E rc newly assigned k \<and>
    map ns_name newly = map ns_name (rc_UnAssignedNamespaces rc) \<and>
    GetUsedIPsByCIDR infra rc h = (Inr used, h) \<and>
    (\<forall>i < length (rc_CIDRs rc). distinct (map (\<lambda>n. ns_addr n i) newly) \<and>
       (\<forall>n \<in> set newly. in_cidr (rc_CIDRs rc ! i) (ns_addr n i) \<and> \<not> taken rc used i (ns_addr n i))) \<and>
    (\<forall>ip. (\<exists>n. ip \<in> set (gm_get [] assigned n)) \<longleftrightarrow>
       (\<exists>c \<in> set (rc_CIDRs rc). wanted (cycle_rc rc newly assigned) c ip))"
  by (rule infra_contract.process_success [OF assms]) blast

text \<open>
  C2. What a successful cycle has established. On every platform that meets the contract of
  \<open>Infra\<close>, from every loaded context and for every schedule: the namespaces that had no
  addresses have been updated, and exactly those; the address each of them got in a CIDR is in
  the CIDR, differs from the other ones handed out and was not taken; the NetNamespace of
  every namespace has been set to the addresses of its annotation; every address of a
  namespace has been placed on a node, and only those; the HostSubnets have been updated to
  that placement (or to their CIDR, with one CIDR on bare metal); every call succeeded.
\<close>

theorem processReconcileContext_establishes:
  assumes "infra_contract assured infra"
    and "range_laws E" "ipmath_laws E" "u32set_laws E" "strset_laws E" "schedule_laws E" "multierror_laws E"
    and "assured (rc_CIDRs rc)" "ctx_ok rc" "processReconcileContext E infra rc h = (Inr gs, h')"
  shows "\<exists>newly used assigned k. h' = h @ k \<and> cycle_calls E rc newly assigned k \<and>
    map ns_name newly = map ns_name (rc_UnAssignedNamespaces rc) \<and>
    GetUsedIPsByCIDR infra rc h = (Inr used, h) \<and>
    (\<forall>i < length (rc_CIDRs rc). distinct (map (\<lambda>n. ns_addr n i) newly) \<and>
       (\<forall>n \<in> set newly. in_cidr (rc_CIDRs rc ! i) (ns_addr n i) \<and> \<not> taken rc used i (ns_addr n i))) \<and>
    (\<forall>ip. (\<exists>n. ip \<in> set (gm_get [] assigned n)) \<longleftrightarrow>
       (\<exists>c \<in> set (rc_CIDRs rc). wanted (cycle_rc rc newly assigned) c ip))"
  using assms by (rule process_established)

section \<open>Witnesses\<close>


definition example_gauges :: "gauge list" where
  "example_gauges = [IpAllocated ''ipam'' ''n1'' 4, IpAllocated ''ipam'' ''n2'' 4,
     IpCapacity ''ipam'' ''n1'' 4294967295, IpCapacity ''ipam'' ''n2'' 4294967295]"

definition example_cycle :: "api_call list" where
  "example_cycle = [
     UpdateNamespace (example_ns ''ns2'' (Some ''10.0.0.4,10.0.1.3'')),
     UpdateNamespace (example_ns ''ns3'' (Some ''10.0.0.5,10.0.1.4'')),
     UpdateNetNamespace \<lparr>nn_name = ''ns1'', nn_egressIPs = Some [''10.0.0.2'', ''10.0.1.2'']\<rparr>,
     UpdateNetNamespace \<lparr>nn_name = ''ns2'', nn_egressIPs = Some [''10.0.0.4'', ''10.0.1.3'']\<rparr>,
     UpdateNetNamespace \<lparr>nn_name = ''ns3'', nn_egressIPs = Some [''10.0.0.5'', ''10.0.1.4'']\<rparr>,
     UpdateHostSubnet \<lparr>hs_name = ''n1'', hs_hostIP = ''10.0.0.1'',
       hs_egressIPs = Some [''10.0.0.2'', ''10.0.0.4'', ''10.0.0.5''], hs_egressCIDRs = Some []\<rparr>,
     UpdateHostSubnet \<lparr>hs_name = ''n2'', hs_hostIP = ''10.0.1.1'',
       hs_egressIPs = Some [''10.0.1.2'', ''10.0.1.3'', ''10.0.1.4''], hs_egressCIDRs = Some []\<rparr>]"

lemma example_processes:
  "processReconcileContext example_cluster BareMetalInfra example_loaded [] =
     (Inr example_gauges, map (\<lambda>c. (c, None)) example_cycle)"
  by code_simp

theorem processReconcileContext_ordered_witness:
  "in_phases [is_namespace_call, is_netnamespace_call, is_cloud_call, is_hostsubnet_call] []
     (map (\<lambda>c. (c, None)) example_cycle)"
  by (rule processReconcileContext_ordered
      [OF bare_metal.infra_contract_axioms example_cluster_laws(2,7,6) TrueI example_processes])

theorem processReconcileContext_establishes_witness:
  "\<exists>newly assigned. map ns_name newly = [''ns2'', ''ns3''] \<and>
    cycle_calls example_cluster example_loaded newly assigned (map (\<lambda>c. (c, None)) example_cycle) \<and>
    (\<forall>ip. (\<exists>n. ip \<in> set (gm_get [] assigned n)) \<longleftrightarrow>
      (\<exists>c \<in> set (rc_CIDRs example_loaded). wanted (cycle_rc example_loaded newly assigned) c ip))"
proof -
  have "map ns_name (rc_UnAssignedNamespaces example_loaded) = [''ns2'', ''ns3'']" by code_simp
  then show ?thesis
    using processReconcileContext_establishes [OF bare_metal.infra_contract_axioms
        example_cluster_laws(1,3,5,6,2,7) TrueI example_loaded_ok example_processes]
    by (simp only: append_Nil) (elim exE conjE, hypsubst, intro exI conjI, assumption+)
qed

end
