(* ===== verification/Lifecycle.thy ===== *)
theory Lifecycle
  imports Cycle
begin

text \<open>
  The life of an EgressIPAM: what \<open>Reconcile\<close> does with an instance that is missing, invalid,
  not initialised, being deleted or to be served, and the clean-up before its finalizer is
  removed.
\<close>

section \<open>Clean-up\<close>

text \<open>The platforms a controller is built with give what the contract of \<open>Infra\<close> asks for.\<close>

definition platforms_ok :: "(string list \<Rightarrow> bool) \<Rightarrow> goenv \<Rightarrow> platforms \<Rightarrow> bool" where
  "platforms_ok assured E P \<longleftrightarrow> (\<forall>rc h r h1. make_infra E P rc h = (r, h1) \<longrightarrow>
     h1 = h \<and> (\<forall>infra. r = Inr infra \<longrightarrow> infra_contract assured infra))"

lemma loadReconcileContext_reads:
  assumes "platforms_ok assured E P" "loadReconcileContext E P p x h = (r, h')"
  shows "h' = h" "r = Inr (rc, infra) \<Longrightarrow> infra_contract assured infra"
proof -
  have used: "h2 = h" if "infra_contract assured infra" "load_used E infra rc h = (r, h2)" for infra rc h r h2
  proof (cases "GetUsedIPsByCIDR infra rc h")
    case (Pair q h3)
    then have "h3 = h" by (rule infra_contract.used_ips_reads [OF that(1)])
    with Pair that(2) show ?thesis
      by (auto simp: load_used_def split: sum.splits err.splits option.splits)
  qed
  from assms(2) [unfolded loadReconcileContext_def]
  have "h' = h \<and> (r = Inr (rc, infra) \<longrightarrow> infra_contract assured infra)"
  proof (cases rule: bind_w_cases)
    case 1
    then show ?thesis by (simp add: pure_w_def)
  next
    case (2 rc1 h1)
    then have h1: "h1 = h" by (simp add: pure_w_def)
    from 2(2) show ?thesis unfolding h1
    proof (cases rule: bind_w_cases)
      case (1 e)
      then show ?thesis using assms(1) unfolding platforms_ok_def by blast
    next
      case (2 infra1 h2)
      then have i: "h2 = h" "infra_contract assured infra1" using assms(1) unfolding platforms_ok_def by blast+
      from 2(2) show ?thesis unfolding i(1)
        by (cases rule: bind_w_cases) (use i(2) used in \<open>auto simp: pure_w_def\<close>)
    qed
  qed
  then show "h' = h" "r = Inr (rc, infra) \<Longrightarrow> infra_contract assured infra" by simp_all
qed

lemma loadReconcileContext_CIDRs:
  assumes "loadReconcileContext E P p x h = (Inr (rc, infra), h')"
  shows "rc_CIDRs rc = map CIDR (CIDRAssignments x)"
proof -
  obtain rc0 where "load_cluster E p x h = Inr rc0" and rc: "rc = rc0 \<or> (\<exists>used. rc = rc0\<lparr>rc_UsedIPsByCIDR := used\<rparr>)"
    using loadReconcileContext_Inr [OF assms] by metis
  then obtain rc1 rc2 rc3 where rc1: "load_secret E h (empty_rc p x) = Inr rc1"
    and rc2: "go_for load_assignment (CIDRAssignments x) rc1 = Inr rc2"
    and rc3: "load_objects E h rc2 = Inr rc3" and rc0: "select_nodes E rc3 = Inr rc0"
    by (auto simp: load_cluster_def)
  have "rc_CIDRs rc1 = []" "rc_ReservedIPsByCIDR rc1 = []"
    using rc1 by (auto simp: load_secret_def empty_rc_def split: if_splits)
  then have "rc_CIDRs rc2 = map CIDR (CIDRAssignments x)"
    using load_assignments [OF rc2] by (simp add: loaded_cidrs_def)
  moreover have "rc_CIDRs rc3 = rc_CIDRs rc2"
    using rc3 by (auto simp: load_objects_def Let_def split: option.splits)
  moreover have "rc_CIDRs rc0 = rc_CIDRs rc3" using rc0 by (auto simp: select_nodes_def Let_def)
  ultimately show ?thesis using rc by auto
qed

lemma run_phase:
  assumes "f h = (r, h1)"
    and "\<exists>r h'. f h = (r, h @ h') \<and> mset (calls h') = mset cs \<and> (r = Inr () \<longleftrightarrow> (\<forall>(c, q) \<in> set h'. q = None))"
    and "\<forall>c \<in> set cs. P c"
  obtains k where "h1 = h @ k" "mset (calls k) = mset cs" "\<forall>c \<in> set (calls k). P c" "r = Inr () \<longleftrightarrow> all_ok k"
proof -
  from assms(1,2) obtain k where k: "h1 = h @ k" "mset (calls k) = mset cs" "r = Inr () \<longleftrightarrow> all_ok k"
    by (auto simp: all_ok_def)
  moreover have "\<forall>c \<in> set (calls k). P c" using mset_eq_setD [OF k(2)] assms(3) by simp
  ultimately show ?thesis by (intro that)
qed

text \<open>The calls of a clean-up that succeeded.\<close>

definition cleanup_calls :: "rcontext \<Rightarrow> history \<Rightarrow> bool" where
  "cleanup_calls rc h \<longleftrightarrow> (\<exists>ns nn hs cloud. h = ns @ nn @ hs @ cloud \<and> all_ok h \<and>
     mset (calls ns) = mset (map (\<lambda>n. UpdateNamespace (without_ips n)) (rc_InitiallyAssignedNamespaces rc)) \<and>
     mset (calls nn) = mset (map (netnamespace_with rc []) (map snd (rc_ReferringNamespaces rc))) \<and>
     mset (calls hs) = mset (map (\<lambda>(name, hs). UpdateHostSubnet (hs_with_ips hs [])) (rc_SelectedHostSubnets rc)) \<and>
     (\<forall>c \<in> set (calls cloud). is_cloud_call c) \<and> (\<not> isCloudInfrastructure (rc_Infrastructure rc) \<longrightarrow> cloud = []))"

lemma manageCleanUpLogic_run:
  assumes laws: "schedule_laws E" "multierror_laws E" and P: "platforms_ok assured E P"
    and run: "manageCleanUpLogic E P p x h = (r, h')"
  shows "in_phases [is_namespace_call, is_netnamespace_call, is_hostsubnet_call, is_cloud_call] h h'"
    "r = Inr () \<Longrightarrow> assured (map CIDR (CIDRAssignments x)) \<Longrightarrow> \<exists>rc infra k. loadReconcileContext E P p x h = (Inr (rc, infra), h) \<and> h' = h @ k \<and> cleanup_calls rc k"
proof -
  let ?phases = "in_phases [is_namespace_call, is_netnamespace_call, is_hostsubnet_call, is_cloud_call] h h'"
  let ?effect = "\<exists>rc infra k. loadReconcileContext E P p x h = (Inr (rc, infra), h) \<and> h' = h @ k \<and> cleanup_calls rc k"
  from run [unfolded manageCleanUpLogic_def] have "?phases \<and> (r = Inr () \<longrightarrow> assured (map CIDR (CIDRAssignments x)) \<longrightarrow> ?effect)"
  proof (cases rule: bind_w_cases)
    case (1 e)
    then have "h' = h" using loadReconcileContext_reads(1) [OF P] by blast
    with 1 show ?thesis by (simp add: in_phases_refl)
  next
    case (2 rci h0)
    obtain rc infra where rci: "rci = (rc, infra)" by (cases rci)
    have load: "loadReconcileContext E P p x h = (Inr (rc, infra), h)" and infra: "infra_contract assured infra"
      using loadReconcileContext_reads [OF P 2(1)] 2(1) rci by auto
    have h0: "h0 = h" using loadReconcileContext_reads(1) [OF P 2(1)] .
    obtain r1 h1 where s1: "removeNamespaceAssignedIPs E rc h = (r1, h1)" by fastforce
    obtain r2 h2 where s2: "removeNetnamespaceAssignedIPs E rc h1 = (r2, h2)" by fastforce
    obtain r3 h3 where s3: "removeHostsubnetAssignedIPsAndCIDRs E rc h2 = (r3, h3)" by fastforce
    let ?cloud = "if isCloudInfrastructure (rc_Infrastructure rc) then RemoveAllAssignedIPs infra rc else pure_w (Inr ())"
    obtain r4 h4 where s4: "?cloud h3 = (r4, h4)" by fastforce
    obtain ns where ns: "h1 = h @ ns" "mset (calls ns) = mset (map (\<lambda>n. UpdateNamespace (without_ips n)) (rc_InitiallyAssignedNamespaces rc))"
      "\<forall>c \<in> set (calls ns). is_namespace_call c" "r1 = Inr () \<longleftrightarrow> all_ok ns"
      by (rule run_phase [where f = "removeNamespaceAssignedIPs E rc", OF s1 removeNamespaceAssignedIPs_run [OF laws], of is_namespace_call]) auto
    obtain nn where nn: "h2 = h1 @ nn" "mset (calls nn) = mset (map (netnamespace_with rc []) (map snd (rc_ReferringNamespaces rc)))"
      "\<forall>c \<in> set (calls nn). is_netnamespace_call c" "r2 = Inr () \<longleftrightarrow> all_ok nn"
      by (rule run_phase [where f = "removeNetnamespaceAssignedIPs E rc", OF s2 removeNetnamespaceAssignedIPs_run [OF laws], of is_netnamespace_call])
        (auto simp: netnamespace_with_def)
    obtain hs where hs: "h3 = h2 @ hs" "mset (calls hs) = mset (map (\<lambda>(name, hs). UpdateHostSubnet (hs_with_ips hs [])) (rc_SelectedHostSubnets rc))"
      "\<forall>c \<in> set (calls hs). is_hostsubnet_call c" "r3 = Inr () \<longleftrightarrow> all_ok hs"
      by (rule run_phase [where f = "removeHostsubnetAssignedIPsAndCIDRs E rc", OF s3 removeHostsubnetAssignedIPsAndCIDRs_run [OF laws], of is_hostsubnet_call]) auto
    have cloud: "emits is_cloud_call h3 h4"
      using s4 infra_contract.remove_cloud [OF infra] by (auto simp: pure_w_def split: if_splits)
    have result: "(r, h') = (case r1 of Inl e \<Rightarrow> (Inl e, h1) | Inr u \<Rightarrow> (case r2 of Inl e \<Rightarrow> (Inl e, h2)
        | Inr u \<Rightarrow> (case r3 of Inl e \<Rightarrow> (Inl e, h3) | Inr u \<Rightarrow> (r4, h4))))"
      using 2(2) s1 s2 s3 s4 unfolding rci h0 by (auto simp: bind_w_def split: sum.splits)
    have stop: "emits is_namespace_call h h1" "emits is_netnamespace_call h1 h2" "emits is_hostsubnet_call h2 h3"
      using ns nn hs by (auto simp: emits_def)
    show ?thesis
    proof (cases "r1 = Inr () \<and> r2 = Inr () \<and> r3 = Inr ()")
      case True
      with result have r: "r = r4" "h' = h4" by auto
      have ok: "all_ok ns" "all_ok nn" "all_ok hs" using True ns(4) nn(4) hs(4) by simp_all
      have ?phases unfolding r(2)
        by (rule in_phases_next [OF ns(1,3) ok(1)], rule in_phases_next [OF nn(1,3) ok(2)],
            rule in_phases_next [OF hs(1,3) ok(3)], rule in_phases_stop [OF cloud])
      moreover have ?effect if r4: "r4 = Inr ()" and assured: "assured (map CIDR (CIDRAssignments x))"
      proof -
        from cloud obtain k where k: "h4 = h3 @ k" "\<forall>c \<in> set (calls k). is_cloud_call c" by (auto simp: emits_def)
        then have "\<not> isCloudInfrastructure (rc_Infrastructure rc) \<longrightarrow> k = []" using s4 by (auto simp: pure_w_def)
        moreover have "all_ok k"
          using infra_contract.remove_ok [OF infra, of rc h3 "()" k] s4 k(1) r4 assured loadReconcileContext_CIDRs [OF load]
          by (cases "isCloudInfrastructure (rc_Infrastructure rc)") (auto simp: all_ok_def pure_w_def)
        ultimately have "cleanup_calls rc (ns @ nn @ hs @ k)"
          unfolding cleanup_calls_def using k ok ns(2) nn(2) hs(2) by (intro exI conjI) simp_all
        moreover have "h' = h @ ns @ nn @ hs @ k" using r(2) k(1) ns(1) nn(1) hs(1) by simp
        ultimately show ?thesis using load by blast
      qed
      ultimately show ?thesis using r(1) by blast
    next
      case False
      then consider e where "r1 = Inl e" | e where "r1 = Inr ()" "r2 = Inl e" | e where "r1 = Inr ()" "r2 = Inr ()" "r3 = Inl e"
        by (cases r1; cases r2; cases r3) auto
      then show ?thesis
      proof cases
        case 1
        with result stop(1) show ?thesis by (auto intro: in_phases_stop)
      next
        case (2 e)
        with result have "r = Inl e" "h' = h2" by auto
        moreover have "in_phases [is_netnamespace_call, is_hostsubnet_call, is_cloud_call] h1 h2"
          by (rule in_phases_stop [OF stop(2)])
        ultimately show ?thesis using in_phases_next [OF ns(1,3)] ns(4) 2 by simp
      next
        case (3 e)
        with result have "r = Inl e" "h' = h3" by auto
        moreover have "in_phases [is_netnamespace_call, is_hostsubnet_call, is_cloud_call] h1 h3"
          using 3 nn(4) by (intro in_phases_next [OF nn(1,3)] in_phases_stop [OF stop(3)]) simp
        ultimately show ?thesis using in_phases_next [OF ns(1,3)] ns(4) 3 by simp
      qed
    qed
  qed
  then show ?phases "r = Inr () \<Longrightarrow> assured (map CIDR (CIDRAssignments x)) \<Longrightarrow> ?effect" by simp_all
qed

text \<open>
  C26. Order of the clean-up: the calls of \<open>manageCleanUpLogic\<close> are updates of namespaces, then
  of NetNamespaces, then of HostSubnets, then calls to the cloud; a phase begins only when
  every call of the phases before it succeeded, so an error leaves the later ones untouched.
\<close>

theorem manageCleanUpLogic_ordered:
  assumes "schedule_laws E" "multierror_laws E" "platforms_ok assured E P" "manageCleanUpLogic E P p x h = (r, h')"
  shows "in_phases [is_namespace_call, is_netnamespace_call, is_hostsubnet_call, is_cloud_call] h h'"
  using assms by (rule manageCleanUpLogic_run(1))

section \<open>What Reconcile does\<close>

lemma in_phases_calls:
  assumes "in_phases Ps h (h @ k)" "c \<in> set (calls k)"
  shows "\<exists>P \<in> set Ps. P c"
proof -
  from assms(1) obtain hs where hs: "length hs = length Ps" "k = concat hs"
    "\<forall>i < length Ps. \<forall>c \<in> set (calls (hs ! i)). (Ps ! i) c" by (auto simp: in_phases_def)
  from assms(2) hs(2) obtain l where "l \<in> set hs" "c \<in> set (calls l)" by (auto simp: calls_def)
  with hs(1,3) show ?thesis by (metis in_set_conv_nth nth_mem)
qed

lemma IsValid_no_panic:
  assumes "IsValid (ClientEgressIPAM x) = (b, Some e)"
  shows "\<not> is_panic e"
proof -
  have valid: "\<not> is_panic e" if a: "valid_assignment a u = Inl e" for a u e
  proof (cases "ParseCIDR (CIDR a)")
    case (Inl e')
    with a show ?thesis by (auto simp: valid_assignment_def dest: ParseCIDR_error)
  next
    case (Inr q)
    with a show ?thesis
      by (cases q) (auto simp: valid_assignment_def Let_def dest!: go_for_Inl split: if_splits)
  qed
  from assms have "go_for valid_assignment (CIDRAssignments x) () = Inl e"
    by (simp add: IsValid_def split: sum.splits)
  then show ?thesis by (auto dest!: go_for_Inl dest: valid)
qed

text \<open>
  C28. Nothing is done for an EgressIPAM that is gone or not valid: a missing instance ends the
  call without an error, and an instance one of whose CIDRs does not parse, or has a reserved
  address that does not parse or lies outside, is reported through \<open>ManageError\<close>; in both
  cases no object is updated and the cloud is not called.
\<close>

theorem Reconcile_refuses:
  assumes "case get_egressipam E name h of Inl e \<Rightarrow> \<exists>m. e = NotFound m
    | Inr x \<Rightarrow> \<exists>a \<in> set (CIDRAssignments x). \<not> assignment_ok a"
  shows "snd (Reconcile E P p name h) = h \<and>
    (case get_egressipam E name h of Inl e \<Rightarrow> fst (Reconcile E P p name h) = Done
     | Inr x \<Rightarrow> \<exists>e. IsValid (ClientEgressIPAM x) = (False, Some e) \<and> fst (Reconcile E P p name h) = ManagedError e)"
proof (cases "get_egressipam E name h")
  case (Inl e)
  with assms show ?thesis by (auto simp: Reconcile_def)
next
  case (Inr x)
  with assms have "IsValid (ClientEgressIPAM x) \<noteq> (True, None)" by (auto simp: IsValid_iff_ok)
  then obtain e where e: "IsValid (ClientEgressIPAM x) = (False, Some e)"
    by (auto simp: IsValid_def split: sum.splits)
  have "manage_error e = ManagedError e" using IsValid_no_panic [OF e] by (cases e) (simp_all add: manage_error_def)
  with e Inr show ?thesis by (simp add: Reconcile_def)
qed

text \<open>
  C29. The finalizer is on an EgressIPAM before anything is done for it: a valid instance
  without it is updated to carry it, and that is the only call. This includes an instance that
  is being deleted, so the branch of line 152, which is to ignore such an instance, is never
  reached (and the API server refuses to add a finalizer to an object that is being deleted).
\<close>

theorem Reconcile_initialises_first:
  assumes "finalizer_laws E" "get_egressipam E name h = Inr x"
    and "\<forall>a \<in> set (CIDRAssignments x). assignment_ok a" "controllerName \<notin> set (ei_finalizers x)"
  shows "\<exists>x' q. Reconcile E P p name h = ((case q of None \<Rightarrow> Done | Some e \<Rightarrow> manage_error e), h @ [(UpdateEgressIPAM x', q)]) \<and>
    x' = add_finalizer E x controllerName \<and> controllerName \<in> set (ei_finalizers x')"
proof -
  have "IsValid (ClientEgressIPAM x) = (True, None)" using assms(3) by (simp add: IsValid_iff_ok)
  moreover have "\<not> has_finalizer E x controllerName" "controllerName \<in> set (ei_finalizers (add_finalizer E x controllerName))"
    using assms(1,4) by (auto simp: finalizer_laws_def)
  ultimately show ?thesis
    by (auto simp: Reconcile_def assms(2) IsInitialized_def update_instance_def perform_def Let_def split: option.splits)
qed

text \<open>
  C11. The finalizer is removed last. \<open>Reconcile\<close> updates an EgressIPAM to one without the
  finalizer only when the instance is being deleted and its clean-up has succeeded: every call
  of the clean-up (the addresses gone from every namespace, NetNamespace and selected
  HostSubnet) was made before, and the update is the last call.
\<close>

theorem Reconcile_finalizer_last:
  assumes "schedule_laws E" "multierror_laws E" "strset_laws E" "finalizer_laws E" "platforms_ok assured E P"
    and "\<forall>x. get_egressipam E name h = Inr x \<longrightarrow> assured (map CIDR (CIDRAssignments x))"
    and "Reconcile E P p name h = (out, h @ k)" "UpdateEgressIPAM x' \<in> set (calls k)"
    and "controllerName \<notin> set (ei_finalizers x')"
  shows "\<exists>x rc infra k' q. get_egressipam E name h = Inr x \<and> is_being_deleted E x \<and>
    x' = remove_finalizer E x controllerName \<and> loadReconcileContext E P p x h = (Inr (rc, infra), h) \<and>
    cleanup_calls rc k' \<and> k = k' @ [(UpdateEgressIPAM x', q)]"
proof -
  note laws = assms(1-3) and P = assms(5) and run = assms(7) and upd = assms(8)
  have no: "UpdateEgressIPAM x' \<notin> set (calls k1)"
    if "in_phases Ps h (h @ k1)" "\<forall>P \<in> set Ps. \<not> P (UpdateEgressIPAM x')" for Ps k1
    using in_phases_calls [OF that(1)] that(2) by blast
  obtain x where x: "get_egressipam E name h = Inr x"
    using run upd by (cases "get_egressipam E name h") (auto simp: Reconcile_def split: err.splits)
  have assured: "assured (map CIDR (CIDRAssignments x))" using assms(6) x by blast
  have valid: "IsValid (ClientEgressIPAM x) = (True, None)"
    using run upd x by (auto simp: Reconcile_def IsValid_def split: sum.splits)
  have init: "has_finalizer E x controllerName"
  proof (rule ccontr)
    assume "\<not> has_finalizer E x controllerName"
    then have "calls k = [UpdateEgressIPAM (add_finalizer E x controllerName)]"
      using run by (auto simp: Reconcile_def x valid IsInitialized_def update_instance_def perform_def Let_def
          split: option.splits)
    then show False using assms(4,9) upd by (auto simp: finalizer_laws_def)
  qed
  note R = run [unfolded Reconcile_def x, simplified, unfolded valid IsInitialized_def, simplified init, simplified]
  show ?thesis
  proof (cases "is_being_deleted E x")
    case False
    obtain r h1 where load: "loadReconcileContext E P p x h = (r, h1)" by fastforce
    have h1: "h1 = h" using loadReconcileContext_reads(1) [OF P load] .
    then obtain rc infra where r: "r = Inr (rc, infra)"
      using R upd load False by (cases r) (auto simp: init)
    have infra: "infra_contract assured infra" using loadReconcileContext_reads(2) [OF P load r] .
    have rc: "assured (rc_CIDRs rc)" using assured loadReconcileContext_CIDRs [OF load [unfolded r]] by simp
    obtain r2 h2 where process: "processReconcileContext E infra rc h = (r2, h2)" by fastforce
    then have h2: "h2 = h @ k" using R load False r h1 by (cases r2) (auto simp: init)
    from infra_contract.process_in_phases [OF infra laws rc process] h2 have False using no upd by fastforce
    then show ?thesis ..
  next
    case True
    obtain r h1 where clean: "manageCleanUpLogic E P p x h = (r, h1)" by fastforce
    note phases = manageCleanUpLogic_run [OF laws(1,2) P clean]
    have r: "r = Inr ()"
    proof (cases r)
      case (Inl e)
      then have "h1 = h @ k" using R clean True by (simp add: init)
      with phases(1) no upd have False by fastforce
      then show ?thesis ..
    qed simp
    from phases(2) [OF r assured] obtain rc infra k' where k': "loadReconcileContext E P p x h = (Inr (rc, infra), h)"
      "h1 = h @ k'" "cleanup_calls rc k'" by blast
    obtain q where q: "k = k' @ [(UpdateEgressIPAM (remove_finalizer E x controllerName), q)]"
      using R clean True r k'(2) by (auto simp: init update_instance_def perform_def Let_def split: option.splits)
    moreover have "UpdateEgressIPAM x' \<notin> set (calls k')" using no [OF phases(1) [unfolded k'(2)]] by simp
    ultimately have "x' = remove_finalizer E x controllerName" using upd by auto
    with x True k' q show ?thesis by blast
  qed
qed

section \<open>Witnesses\<close>

lemma example_platforms_ok: "platforms_ok (\<lambda>cidrs. True) E example_platforms"
  by (auto simp: platforms_ok_def make_infra_def example_platforms_def pure_w_def bare_metal.infra_contract_axioms
      split: platform.splits option.splits)

definition example_cleanup :: "api_call list" where
  "example_cleanup = [UpdateNamespace (example_ns ''ns1'' None),
     UpdateNetNamespace \<lparr>nn_name = ''ns1'', nn_egressIPs = Some []\<rparr>,
     UpdateNetNamespace \<lparr>nn_name = ''ns2'', nn_egressIPs = Some []\<rparr>,
     UpdateNetNamespace \<lparr>nn_name = ''ns3'', nn_egressIPs = Some []\<rparr>,
     UpdateHostSubnet \<lparr>hs_name = ''n1'', hs_hostIP = ''10.0.0.1'', hs_egressIPs = Some [], hs_egressCIDRs = Some []\<rparr>,
     UpdateHostSubnet \<lparr>hs_name = ''n2'', hs_hostIP = ''10.0.1.1'', hs_egressIPs = Some [], hs_egressCIDRs = Some []\<rparr>]"

theorem manageCleanUpLogic_ordered_witness:
  "in_phases [is_namespace_call, is_netnamespace_call, is_hostsubnet_call, is_cloud_call] []
     (map (\<lambda>c. (c, None)) example_cleanup)"
proof (rule manageCleanUpLogic_ordered [OF example_cluster_laws(2,7) example_platforms_ok])
  show "manageCleanUpLogic example_cluster example_platforms (OtherPlatform ''None'') example_instance [] =
      (Inr (), map (\<lambda>c. (c, None)) example_cleanup)" by code_simp
qed

text \<open>An instance with a reserved address outside its CIDR, one without finalizer, one being deleted.\<close>

definition example_invalid :: EgressIPAM where
  "example_invalid = example_instance\<lparr>CIDRAssignments :=
     [\<lparr>CIDR = ''10.0.0.0/29'', LabelValue = ''a'', ReservedIPs = [''10.0.1.3'']\<rparr>]\<rparr>"

definition example_deleting :: EgressIPAM where
  "example_deleting = example_instance\<lparr>ei_deletionTimestamp := Some ''2020-01-01T00:00:00Z''\<rparr>"

definition cluster_with :: "EgressIPAM \<Rightarrow> goenv" where
  "cluster_with x = example_cluster\<lparr>get_egressipam := (\<lambda>n h. Inr x)\<rparr>"

lemma cluster_with_same:
  "schedule_laws (cluster_with x) = schedule_laws example_cluster" "strset_laws (cluster_with x) = strset_laws example_cluster"
  "multierror_laws (cluster_with x) = multierror_laws example_cluster"
  "finalizer_laws (cluster_with x) = finalizer_laws example_cluster"
  by (simp_all add: schedule_laws_def strset_laws_def multierror_laws_def finalizer_laws_def cluster_with_def)

lemma cluster_with_laws:
  "schedule_laws (cluster_with x)" "strset_laws (cluster_with x)" "multierror_laws (cluster_with x)" "finalizer_laws (cluster_with x)"
  by (simp_all only: cluster_with_same example_cluster_laws)

theorem Reconcile_refuses_witness:
  "\<exists>e. Reconcile (cluster_with example_invalid) example_platforms (OtherPlatform ''None'') ''ipam'' [] = (ManagedError e, [])"
proof -
  have "ParseCIDR ''10.0.0.0/29'' = Inr (IPv4 0x0A000000, Net4 0x0A000000 29)"
    "\<not> net_contains (Net4 0x0A000000 29) (ParseIP ''10.0.1.3'')" by code_simp+
  then have "\<exists>a \<in> set (CIDRAssignments example_invalid). \<not> assignment_ok a"
    by (simp add: example_invalid_def assignment_ok_def del: net_contains.simps)
  then have "\<exists>e. fst (Reconcile (cluster_with example_invalid) example_platforms (OtherPlatform ''None'') ''ipam'' []) = ManagedError e \<and>
      snd (Reconcile (cluster_with example_invalid) example_platforms (OtherPlatform ''None'') ''ipam'' []) = []"
    using Reconcile_refuses [of "cluster_with example_invalid" "''ipam''" "[]"] by (auto simp: cluster_with_def)
  then show ?thesis by (metis prod.collapse)
qed

theorem Reconcile_initialises_first_witness:
  "\<exists>x' q. snd (Reconcile (cluster_with example_egressipam) example_platforms (OtherPlatform ''None'') ''ipam'' []) =
     [(UpdateEgressIPAM x', q)] \<and> controllerName \<in> set (ei_finalizers x')"
proof -
  have "IsValid (ClientEgressIPAM example_egressipam) = (True, None)" by code_simp
  then have "\<forall>a \<in> set (CIDRAssignments example_egressipam). assignment_ok a" by (simp only: IsValid_iff_ok)
  then show ?thesis
    using Reconcile_initialises_first [OF cluster_with_laws(4), of example_egressipam "''ipam''" "[]" example_egressipam
        example_platforms "OtherPlatform ''None''"]
    by (fastforce simp: cluster_with_def example_egressipam_def)
qed

theorem Reconcile_finalizer_last_witness:
  "\<exists>rc k' q. cleanup_calls rc k' \<and>
     map (\<lambda>c. (c, None)) (example_cleanup @ [UpdateEgressIPAM (example_deleting\<lparr>ei_finalizers := []\<rparr>)]) =
       k' @ [(UpdateEgressIPAM (example_deleting\<lparr>ei_finalizers := []\<rparr>), q)]"
proof -
  let ?k = "map (\<lambda>c. (c, None)) (example_cleanup @ [UpdateEgressIPAM (example_deleting\<lparr>ei_finalizers := []\<rparr>)])"
  have run: "Reconcile (cluster_with example_deleting) example_platforms (OtherPlatform ''None'') ''ipam'' [] = (Done, [] @ ?k)"
    by code_simp
  have "UpdateEgressIPAM (example_deleting\<lparr>ei_finalizers := []\<rparr>) \<in> set (calls ?k)"
    "controllerName \<notin> set (ei_finalizers (example_deleting\<lparr>ei_finalizers := []\<rparr>))" by (simp_all add: calls_def)
  from Reconcile_finalizer_last [OF cluster_with_laws(1,3,2,4) example_platforms_ok _ run this] show ?thesis by blast
qed

end
