(* ===== verification/NamespaceController.thy ===== *)
theory NamespaceController
  imports Lifecycle
begin

text \<open>
  \<open>controllers/namespace/namespace_controller.go\<close>: when a namespace no longer names an
  EgressIPAM, its NetNamespace is cleared and the annotation with its addresses is removed.
\<close>

section \<open>Operations\<close>

definition cleanUpNamespaceAndNetNamespace :: "goenv \<Rightarrow> namespace \<Rightarrow> (history, unit) action" where
  "cleanUpNamespaceAndNetNamespace E n h =
     bind_w (pure_w (get_netnamespace E (ns_name n) h)) (\<lambda>nn.
     bind_w (if \<not> DeepEqual (NetNamespaceEgressIPs (nn_egressIPs nn)) (StringSlice (Some []))
             then perform_w E (UpdateNetNamespace (nn\<lparr>nn_egressIPs := Some []\<rparr>))
             else pure_w (Inr ())) (\<lambda>u.
     if ns_ips n \<noteq> None then perform_w E (UpdateNamespace (without_ips n)) else pure_w (Inr ()))) h"

definition Namespace_Reconcile :: "goenv \<Rightarrow> string \<Rightarrow> history \<Rightarrow> outcome \<times> history" where
  "Namespace_Reconcile E name h =
     (case get_namespace E name h of
        Inl (NotFound _) \<Rightarrow> (Done, h)
      | Inl e \<Rightarrow> (Errored e, h)
      | Inr instance' \<Rightarrow>
          (case cleanUpNamespaceAndNetNamespace E instance' h of
             (Inl e, h') \<Rightarrow> (manage_error e, h')
           | (Inr u, h') \<Rightarrow> (ManagedSuccess [], h')))"

text \<open>The predicate of the watch; only update events pass.\<close>

definition IsAnnotated_namespace :: "annotations \<Rightarrow> annotations \<Rightarrow> bool" where
  "IsAnnotated_namespace old new =
     (let okold = getAnnotation old NamespaceAnnotation \<noteq> None;
          oknew = getAnnotation new NamespaceAnnotation \<noteq> None
      in okold \<and> \<not> oknew)"

section \<open>What the clean-up does\<close>

text \<open>The calls it is to make, in order; the guard on the NetNamespace always holds.\<close>

definition cleanup_plan :: "netnamespace \<Rightarrow> namespace \<Rightarrow> api_call list" where
  "cleanup_plan nn n = UpdateNetNamespace (nn\<lparr>nn_egressIPs := Some []\<rparr>) #
     (if ns_ips n \<noteq> None then [UpdateNamespace (without_ips n)] else [])"

lemma cleanUp_run:
  "\<exists>r k. cleanUpNamespaceAndNetNamespace E n h = (r, h @ k) \<and>
     (case get_netnamespace E (ns_name n) h of
        Inl e \<Rightarrow> r = Inl e \<and> k = []
      | Inr nn \<Rightarrow> in_order id (cleanup_plan nn n) r k)"
proof (cases "get_netnamespace E (ns_name n) h")
  case (Inl e)
  then show ?thesis by (simp add: cleanUpNamespaceAndNetNamespace_def bind_w_def pure_w_def)
next
  case (Inr nn)
  let ?c = "UpdateNetNamespace (nn\<lparr>nn_egressIPs := Some []\<rparr>)" and ?d = "UpdateNamespace (without_ips n)"
  have last: "\<exists>r k. (if ns_ips n \<noteq> None then perform_w E ?d else pure_w (Inr ())) h1 = (r, h1 @ k) \<and>
      in_order id (if ns_ips n \<noteq> None then [?d] else []) r k" for h1
    using perform_w_in_order [of E ?d h1] by (auto simp: pure_w_def)
  have run: "cleanUpNamespaceAndNetNamespace E n h =
      bind_w (perform_w E ?c) (\<lambda>u. if ns_ips n \<noteq> None then perform_w E ?d else pure_w (Inr ())) h"
    by (simp add: cleanUpNamespaceAndNetNamespace_def Inr DeepEqual_def bind_w_def pure_w_def)
  show ?thesis
  proof (cases "api_reply E h ?c")
    case None
    obtain r k where rk: "(if ns_ips n \<noteq> None then perform_w E ?d else pure_w (Inr ())) (h @ [(?c, None)]) =
        (r, (h @ [(?c, None)]) @ k)" "in_order id (if ns_ips n \<noteq> None then [?d] else []) r k"
      using last by blast
    have "cleanUpNamespaceAndNetNamespace E n h = (r, h @ (?c, None) # k)"
      unfolding run using None rk(1) by (simp add: bind_w_def perform_w_def perform_def Let_def)
    moreover have "in_order id (cleanup_plan nn n) r ((?c, None) # k)"
      using in_order_Cons [OF rk(2), of ?c] by (simp add: cleanup_plan_def)
    ultimately show ?thesis using Inr by auto
  next
    case (Some m)
    then have "cleanUpNamespaceAndNetNamespace E n h = (Inl (ApiError m), h @ [(?c, Some (ApiError m))])"
      unfolding run by (simp add: bind_w_def perform_w_def perform_def Let_def)
    moreover have "in_order id (cleanup_plan nn n) (Inl (ApiError m)) [(?c, Some (ApiError m))]"
      unfolding cleanup_plan_def using in_order_stop [of id ?c] by simp
    ultimately show ?thesis using Inr by auto
  qed
qed

text \<open>
  C36. The clean-up of a namespace: the NetNamespace is cleared first, then the annotation with
  the addresses is removed from the namespace, if it has one, and nothing else is called. It
  stops at the first error, which it returns: a NetNamespace that cannot be read causes no
  call, and one that cannot be updated leaves the namespace as it is (so that a later attempt
  still knows its addresses).
\<close>

theorem cleanUpNamespaceAndNetNamespace_effect:
  "\<exists>r k. cleanUpNamespaceAndNetNamespace E n h = (r, h @ k) \<and>
     (case get_netnamespace E (ns_name n) h of
        Inl e \<Rightarrow> r = Inl e \<and> k = []
      | Inr nn \<Rightarrow> in_order id (cleanup_plan nn n) r k)"
  by (rule cleanUp_run)

end
