(* ===== verification/Goroutines.thy ===== *)
theory Goroutines
  imports Externals
begin

text \<open>
  Parallel loops, continued from \<open>Externals\<close>: what holds of the loops whose goroutines make
  at most one call also when one of them panics, and loops whose goroutines make several
  calls, one after the other, which interleave.
\<close>

section \<open>Goroutines that make one call\<close>

lemma follow_emits:
  assumes "follow E p x h = (r, h')" "\<forall>c \<in> set (planned p x). P c"
  shows "emits P h h'" "r = None \<Longrightarrow> \<exists>k. h' = h @ k \<and> (\<forall>(c, q) \<in> set k. q = None)"
  using assms by (auto simp: follow_def planned_def perform_def emits_def Let_def split: sum.splits option.splits)

lemma run_goroutines_emits:
  assumes "run_goroutines (follow E p) xs h = (r, h')" "\<forall>x \<in> set xs. \<forall>c \<in> set (planned p x). P c"
  shows "emits P h h' \<and> (\<forall>rs. r = Inr rs \<longrightarrow> (\<forall>q \<in> set rs. q = None) \<longrightarrow> (\<exists>k. h' = h @ k \<and> (\<forall>(c, q) \<in> set k. q = None)))"
  using assms
proof (induction xs arbitrary: h r h')
  case Nil
  then show ?case by simp
next
  case (Cons x xs)
  obtain q h1 where x: "follow E p x h = (q, h1)" by fastforce
  note step = follow_emits [OF x, of P]
  show ?case
  proof (cases "\<exists>m. q = Some (GoPanic m)")
    case True
    with Cons.prems x step show ?thesis by auto
  next
    case False
    obtain r1 h2 where xs: "run_goroutines (follow E p) xs h1 = (r1, h2)" by fastforce
    have run: "(r, h') = (case r1 of Inl e \<Rightarrow> (Inl e, h2) | Inr rs \<Rightarrow> (Inr (q # rs), h2))"
      using Cons.prems(1) False x xs by (cases q; cases r1) (auto split: err.splits)
    have ih: "emits P h1 h2 \<and> (\<forall>rs. r1 = Inr rs \<longrightarrow> (\<forall>q \<in> set rs. q = None) \<longrightarrow>
        (\<exists>k. h2 = h1 @ k \<and> (\<forall>(c, q) \<in> set k. q = None)))"
      using Cons.IH [OF xs] Cons.prems(2) by simp
    have "emits P h h'" using run ih step(1) Cons.prems(2) by (cases r1) (auto intro: emits_trans)
    moreover have "\<exists>k. h' = h @ k \<and> (\<forall>(c, q) \<in> set k. q = None)" if rs: "r = Inr rs" "\<forall>q \<in> set rs. q = None" for rs
    proof -
      from rs run obtain rs1 where "r1 = Inr rs1" "rs = q # rs1" "h' = h2" by (cases r1) auto
      with rs(2) ih step(2) Cons.prems(2) show ?thesis by (force simp: ball_Un)
    qed
    ultimately show ?thesis by blast
  qed
qed

lemma go_all_emits:
  assumes "go_all E l (follow E p) xs h = (r, h')" "\<forall>x \<in> set xs. \<forall>c \<in> set (planned p x). P c"
  shows "emits P h h'"
    and "multierror_laws E \<Longrightarrow> r = Inr () \<Longrightarrow> \<exists>k. h' = h @ k \<and> (\<forall>(c, q) \<in> set k. q = None)"
proof -
  obtain r1 h1 where run: "run_goroutines (follow E p) (scheduled E l xs) h = (r1, h1)" by fastforce
  have "\<forall>x \<in> set (scheduled E l xs). \<forall>c \<in> set (planned p x). P c"
    using assms(2) scheduled_subset by fast
  note facts = run_goroutines_emits [OF run this]
  have h': "h' = h1" using assms(1) run by (auto simp: go_all_def split: sum.splits option.splits)
  with facts show "emits P h h'" by blast
  assume m: "multierror_laws E" and r: "r = Inr ()"
  from r assms(1) run obtain rs where "r1 = Inr rs" "multierror E rs = None"
    by (auto simp: go_all_def split: sum.splits option.splits)
  with m facts h' show "\<exists>k. h' = h @ k \<and> (\<forall>(c, q) \<in> set k. q = None)" by (auto simp: multierror_laws_def)
qed

section \<open>Goroutines of several steps\<close>

text \<open>
  A goroutine that reads and calls: it sends its result into the channel (a panic when that is
  one), reads something that may depend on all calls made so far, or makes a call and goes on
  with its answer.
\<close>

datatype proc =
    Send "err option"
  | Read "history \<Rightarrow> proc"
  | Call api_call "err option \<Rightarrow> proc"

text \<open>
  The state of a loop: the goroutines (\<open>None\<close> when the result is sent) and the results
  received. A turn is one step of one goroutine. When the schedule is exhausted, the
  goroutines that are left are completed one by one; since the schedule may be any list, every
  interleaving is covered.
\<close>

type_synonym gostate = "proc option list \<times> err option list"

definition turn :: "goenv \<Rightarrow> nat \<Rightarrow> gostate \<Rightarrow> (history, gostate) action" where
  "turn E i = (\<lambda>(gs, rs) h.
     (case gs ! i of
        None \<Rightarrow> (Inr (gs, rs), h)
      | Some (Send r) \<Rightarrow>
          (case r of Some (GoPanic m) \<Rightarrow> (Inl (GoPanic m), h) | _ \<Rightarrow> (Inr (gs[i := None], rs @ [r]), h))
      | Some (Read f) \<Rightarrow> (Inr (gs[i := Some (f h)], rs), h)
      | Some (Call c f) \<Rightarrow> (case perform E c h of (q, h') \<Rightarrow> (Inr (gs[i := Some (f q)], rs), h'))))"

primrec complete :: "goenv \<Rightarrow> proc \<Rightarrow> (history, err option) action" where
  "complete E (Send r) = (\<lambda>h. case r of Some (GoPanic m) \<Rightarrow> (Inl (GoPanic m), h) | _ \<Rightarrow> (Inr r, h))"
| "complete E (Read f) = (\<lambda>h. complete E (f h) h)"
| "complete E (Call c f) = (\<lambda>h. case perform E c h of (q, h') \<Rightarrow> complete E (f q) h')"

definition last_turn :: "goenv \<Rightarrow> nat \<Rightarrow> gostate \<Rightarrow> (history, gostate) action" where
  "last_turn E i = (\<lambda>(gs, rs) h.
     (case gs ! i of
        None \<Rightarrow> (Inr (gs, rs), h)
      | Some p \<Rightarrow> (case complete E p h of
          (Inl e, h') \<Rightarrow> (Inl e, h')
        | (Inr r, h') \<Rightarrow> (Inr (gs[i := None], rs @ [r]), h'))))"

definition go_procs :: "goenv \<Rightarrow> nat \<Rightarrow> ('a \<Rightarrow> proc) \<Rightarrow> 'a list \<Rightarrow> (history, unit) action" where
  "go_procs E l f xs =
     bind_w (go_for_w (turn E) (filter (\<lambda>i. i < length xs) (go_interleave E l (length xs)))
               (map (\<lambda>x. Some (f x)) xs, [])) (\<lambda>gs.
     bind_w (go_for_w (last_turn E) [0..<length xs] gs) (\<lambda>(gs, rs) h.
       (case multierror E rs of None \<Rightarrow> (Inr (), h) | Some e \<Rightarrow> (Inl e, h))))"

section \<open>Invariants of such a loop\<close>

text \<open>
  An invariant of the history, the goroutines and the results that every step keeps holds at
  the end, when all results are in, or when a goroutine panics.
\<close>

abbreviation not_panic :: "err option \<Rightarrow> bool" where
  "not_panic r \<equiv> \<forall>m. r \<noteq> Some (GoPanic m)"

definition kept_by_steps :: "nat \<Rightarrow> (history \<Rightarrow> gostate \<Rightarrow> bool) \<Rightarrow> bool" where
  "kept_by_steps n I \<longleftrightarrow> (\<forall>h gs rs i. length gs = n \<longrightarrow> i < n \<longrightarrow> I h (gs, rs) \<longrightarrow>
     (\<forall>f. gs ! i = Some (Read f) \<longrightarrow> I h (gs[i := Some (f h)], rs)) \<and>
     (\<forall>c f q. gs ! i = Some (Call c f) \<longrightarrow> not_panic q \<longrightarrow> I (h @ [(c, q)]) (gs[i := Some (f q)], rs)) \<and>
     (\<forall>r. gs ! i = Some (Send r) \<longrightarrow> not_panic r \<longrightarrow> I h (gs[i := None], rs @ [r])))"

lemma kept_by_stepsI:
  assumes "\<And>h gs rs i f. length gs = n \<Longrightarrow> i < n \<Longrightarrow> I h (gs, rs) \<Longrightarrow> gs ! i = Some (Read f) \<Longrightarrow> I h (gs[i := Some (f h)], rs)"
    and "\<And>h gs rs i c f q. length gs = n \<Longrightarrow> i < n \<Longrightarrow> I h (gs, rs) \<Longrightarrow> gs ! i = Some (Call c f) \<Longrightarrow> not_panic q \<Longrightarrow>
      I (h @ [(c, q)]) (gs[i := Some (f q)], rs)"
    and "\<And>h gs rs i r. length gs = n \<Longrightarrow> i < n \<Longrightarrow> I h (gs, rs) \<Longrightarrow> gs ! i = Some (Send r) \<Longrightarrow> not_panic r \<Longrightarrow>
      I h (gs[i := None], rs @ [r])"
  shows "kept_by_steps n I"
  using assms unfolding kept_by_steps_def by blast

text \<open>What the invariant gives after some steps: it still holds, or a goroutine panics.\<close>

definition panics :: "nat \<Rightarrow> (history \<Rightarrow> gostate \<Rightarrow> bool) \<Rightarrow> err \<Rightarrow> history \<Rightarrow> bool" where
  "panics n I e h \<longleftrightarrow> (\<exists>gs rs i m. I h (gs, rs) \<and> length gs = n \<and> i < n \<and> e = GoPanic m \<and>
     gs ! i = Some (Send (Some (GoPanic m))))"

lemma panicsI:
  "I h (gs, rs) \<Longrightarrow> length gs = n \<Longrightarrow> i < n \<Longrightarrow> gs ! i = Some (Send (Some (GoPanic m))) \<Longrightarrow> panics n I (GoPanic m) h"
  unfolding panics_def by blast

definition continues :: "nat \<Rightarrow> (history \<Rightarrow> gostate \<Rightarrow> bool) \<Rightarrow> err + gostate \<Rightarrow> history \<Rightarrow> bool" where
  "continues n I r h \<longleftrightarrow> (case r of Inl e \<Rightarrow> panics n I e h | Inr s \<Rightarrow> I h s \<and> length (fst s) = n)"

lemma perform_answer: "perform E c h = (q, h') \<Longrightarrow> h' = h @ [(c, q)] \<and> not_panic q"
  by (auto simp: perform_def Let_def)

lemma turn_continues:
  assumes "kept_by_steps n I" "I h s" "length (fst s) = n" "i < n" "turn E i s h = (r, h')"
  shows "continues n I r h'"
proof -
  obtain gs rs where s: "s = (gs, rs)" by fastforce
  note keep = assms(1) [unfolded kept_by_steps_def, rule_format, of gs i h rs]
  show ?thesis
  proof (cases "gs ! i")
    case None
    with assms s show ?thesis by (auto simp: turn_def continues_def)
  next
    case (Some p)
    show ?thesis
    proof (cases p)
      case (Send q)
      show ?thesis
      proof (cases "not_panic q")
        case True
        then have "(r, h') = (Inr (gs[i := None], rs @ [q]), h)"
          using assms(5) Some Send s by (auto simp: turn_def split: option.splits err.splits)
        with keep True Some Send assms s show ?thesis by (auto simp: continues_def)
      next
        case False
        then obtain m where "q = Some (GoPanic m)" by blast
        with assms Some Send s have "panics n I (GoPanic m) h" by (intro panicsI [of I h gs rs n i]) simp_all
      with \<open>q = Some (GoPanic m)\<close> assms Some Send s show ?thesis by (auto simp: turn_def continues_def)
      qed
    next
      case (Read f)
      with keep Some assms s show ?thesis by (auto simp: turn_def continues_def)
    next
      case (Call c f)
      obtain q h1 where q: "perform E c h = (q, h1)" by fastforce
      then have "(r, h') = (Inr (gs[i := Some (f q)], rs), h1)" using assms(5) Some Call s by (simp add: turn_def)
      moreover have "I h1 (gs[i := Some (f q)], rs)" using keep perform_answer [OF q] Some Call assms s by simp
      ultimately show ?thesis using assms(3) s by (simp add: continues_def)
    qed
  qed
qed

lemma complete_continues:
  assumes "kept_by_steps n I" "I h (gs, rs)" "length gs = n" "i < n" "gs ! i = Some p" "complete E p h = (r, h')"
  shows "case r of Inl e \<Rightarrow> panics n I e h' | Inr q \<Rightarrow> \<exists>gs'. I h' (gs', rs @ [q]) \<and> gs' = gs[i := None]"
  using assms(2-)
proof (induction p arbitrary: h gs)
  case (Send q)
  note keep = assms(1) [unfolded kept_by_steps_def, rule_format, of gs i h rs]
  show ?case
  proof (cases "not_panic q")
    case True
    then have "(r, h') = (Inr q, h)" using Send by (auto split: option.splits err.splits)
    with keep True Send show ?thesis by simp
  next
    case False
    then obtain m where "q = Some (GoPanic m)" by blast
    with Send have "panics n I (GoPanic m) h" by (intro panicsI [of I h gs rs n i]) simp_all
    with \<open>q = Some (GoPanic m)\<close> Send show ?thesis by auto
  qed
next
  case (Read f)
  note keep = assms(1) [unfolded kept_by_steps_def, rule_format, of gs i h rs]
  from Read.IH [of "f h" h "gs[i := Some (f h)]"] keep Read.prems show ?case by (cases r) simp_all
next
  case (Call c f)
  note keep = assms(1) [unfolded kept_by_steps_def, rule_format, of gs i h rs]
  obtain q h1 where q: "perform E c h = (q, h1)" by fastforce
  have "I h1 (gs[i := Some (f q)], rs)" using keep perform_answer [OF q] Call.prems by blast
  moreover have "complete E (f q) h1 = (r, h')" using Call.prems q by simp
  ultimately show ?case using Call.IH [of "f q" h1 "gs[i := Some (f q)]"] Call.prems by (cases r) simp_all
qed

lemma last_turn_continues:
  assumes "kept_by_steps n I" "I h s" "length (fst s) = n" "i < n" "last_turn E i s h = (r, h')"
  shows "continues n I r h' \<and> (\<forall>s'. r = Inr s' \<longrightarrow> fst s' = (fst s)[i := None])"
proof -
  obtain gs rs where s: "s = (gs, rs)" by fastforce
  show ?thesis
  proof (cases "gs ! i")
    case None
    then have "gs[i := None] = gs" by (metis list_update_id)
    with None assms s show ?thesis by (auto simp: last_turn_def continues_def)
  next
    case (Some p)
    obtain r1 h1 where p: "complete E p h = (r1, h1)" by fastforce
    note c = complete_continues [OF assms(1) assms(2) [unfolded s] _ assms(4) Some p]
    show ?thesis
    proof (cases r1)
      case (Inl e)
      with c p Some assms s show ?thesis by (auto simp: last_turn_def continues_def)
    next
      case (Inr q)
      with c p Some assms s show ?thesis by (auto simp: last_turn_def continues_def)
    qed
  qed
qed

lemma go_for_w_continues:
  assumes "\<And>i s h r h'. i \<in> set js \<Longrightarrow> I h s \<Longrightarrow> length (fst s) = n \<Longrightarrow> f i s h = (r, h') \<Longrightarrow> continues n I r h'"
    and "I h s" "length (fst s) = n" "go_for_w f js s h = (r, h')"
  shows "continues n I r h'"
  using assms
proof (induction js arbitrary: s h)
  case Nil
  then show ?case by (auto simp: continues_def)
next
  case (Cons j js)
  obtain r1 h1 where 1: "f j s h = (r1, h1)" by fastforce
  have c: "continues n I r1 h1" using Cons.prems(1) [OF _ Cons.prems(2,3) 1] by simp
  show ?case
  proof (cases r1)
    case (Inl e)
    with 1 c Cons.prems(4) show ?thesis by (auto simp: continues_def)
  next
    case (Inr s1)
    then have "go_for_w f js s1 h1 = (r, h')" using 1 Cons.prems(4) by simp
    moreover have "I h1 s1" "length (fst s1) = n" using Inr c by (simp_all add: continues_def)
    moreover have "continues n I r h'" if "i \<in> set js" "I h s" "length (fst s) = n" "f i s h = (r, h')" for i s h r h'
      by (rule Cons.prems(1) [OF _ that(2-4)]) (use that(1) in simp)
    ultimately show ?thesis using Cons.IH by blast
  qed
qed

lemma last_turns_done:
  assumes "kept_by_steps n I" "I h s" "length (fst s) = n" "go_for_w (last_turn E) [0..<m] s h = (Inr s', h')" "m \<le> n"
  shows "\<forall>i < m. fst s' ! i = None"
proof -
  have "\<forall>i. i \<in> set seen \<longrightarrow> fst s' ! i = None"
    if "go_for_w (last_turn E) js s h = (Inr s', h')" "I h s" "length (fst s) = n"
      "set js \<subseteq> {..<n}" "seen = seen0 @ js" "\<forall>i \<in> set seen0. fst s ! i = None" for js seen seen0 s h
    using that
  proof (induction js arbitrary: s h seen0)
    case (Cons j js)
    obtain r1 h1 where 1: "last_turn E j s h = (r1, h1)" by fastforce
    obtain s1 where r1: "r1 = Inr s1" using 1 Cons.prems(1) by (cases r1) auto
    have "j < n" using Cons.prems(4) by simp
    from last_turn_continues [OF assms(1) Cons.prems(2,3) this 1] r1
    have s1: "I h1 s1" "length (fst s1) = n" "fst s1 = (fst s)[j := None]"
      using Cons.prems(3) by (simp_all add: continues_def)
    moreover have "\<forall>i \<in> set (seen0 @ [j]). fst s1 ! i = None"
      using s1(3) Cons.prems(3,6) \<open>j < n\<close> by (auto simp: nth_list_update)
    ultimately show ?case using Cons.IH [of s1 h1 "seen0 @ [j]"] Cons.prems 1 r1 by simp
  qed simp
  from this [OF assms(4,2,3), of "[0..<m]" "[]"] assms(5)
  show ?thesis by (simp add: subset_iff)
qed

lemma go_procs_inv:
  assumes "kept_by_steps (length xs) I" "I h (map (\<lambda>x. Some (f x)) xs, [])" "go_procs E l f xs h = (r, h')"
  obtains e where "r = Inl e" "panics (length xs) I e h'"
  | rs where "I h' (replicate (length xs) None, rs)" "r = (case multierror E rs of None \<Rightarrow> Inr () | Some e \<Rightarrow> Inl e)"
proof -
  let ?n = "length xs" and ?s0 = "(map (\<lambda>x. Some (f x)) xs, []) :: gostate"
  obtain r1 h1 where 1: "go_for_w (turn E) (filter (\<lambda>i. i < ?n) (go_interleave E l ?n)) ?s0 h = (r1, h1)" by fastforce
  have c1: "continues ?n I r1 h1"
    by (rule go_for_w_continues [where f = "turn E" and s = "?s0" and h = h and I = I, OF _ assms(2) _ 1]) (auto intro: turn_continues [OF assms(1)])
  show thesis
  proof (cases r1)
    case (Inl e)
    with 1 c1 assms(3) show ?thesis by (intro that(1) [of e]) (simp_all add: go_procs_def bind_w_def continues_def)
  next
    case (Inr s1)
    with c1 have s1: "I h1 s1" "length (fst s1) = ?n" by (simp_all add: continues_def)
    obtain r2 h2 where 2: "go_for_w (last_turn E) [0..<?n] s1 h1 = (r2, h2)" by fastforce
    have c2: "continues ?n I r2 h2"
      by (rule go_for_w_continues [where f = "last_turn E" and I = I, OF _ s1 2]) (auto dest: last_turn_continues [OF assms(1)])
    show ?thesis
    proof (cases r2)
      case (Inl e)
      with 1 2 \<open>r1 = Inr s1\<close> c2 assms(3) show ?thesis
        by (intro that(1) [of e]) (simp_all add: go_procs_def bind_w_def continues_def)
    next
      case (Inr s2)
      obtain gs rs where s2: "s2 = (gs, rs)" by fastforce
      have "\<forall>i < ?n. gs ! i = None" using last_turns_done [OF assms(1) s1] 2 Inr s2 by fastforce
      moreover have "length gs = ?n" "I h2 (gs, rs)" using c2 Inr s2 by (simp_all add: continues_def)
      ultimately have "I h2 (replicate ?n None, rs)" by (metis nth_equalityI length_replicate nth_replicate)
      moreover have "h' = h2" "r = (case multierror E rs of None \<Rightarrow> Inr () | Some e \<Rightarrow> Inl e)"
        using 1 2 \<open>r1 = Inr s1\<close> Inr s2 assms(3) by (auto simp: go_procs_def bind_w_def split: option.splits)
      ultimately show ?thesis by (intro that(2)) auto
    qed
  qed
qed

text \<open>A property of the goroutines that have not sent their result.\<close>

definition alive :: "(proc \<Rightarrow> bool) \<Rightarrow> proc option list \<Rightarrow> bool" where
  "alive A gs \<longleftrightarrow> (\<forall>i < length gs. \<forall>p. gs ! i = Some p \<longrightarrow> A p)"

lemma alive_start [simp]: "alive A (map (\<lambda>x. Some (f x)) xs) \<longleftrightarrow> (\<forall>x \<in> set xs. A (f x))"
  by (auto simp: alive_def all_set_conv_all_nth)

lemma alive_end [simp]: "alive A (replicate n None)"
  by (simp add: alive_def)

lemma alive_nth: "alive A gs \<Longrightarrow> i < length gs \<Longrightarrow> gs ! i = Some p \<Longrightarrow> A p"
  by (simp add: alive_def)

lemma alive_update:
  assumes "i < length gs"
  shows "alive A (gs[i := Some p]) \<longleftrightarrow> A p \<and> alive A (gs[i := None])"
    and "alive A gs \<Longrightarrow> alive A (gs[i := None])"
    and "gs ! i = Some p \<Longrightarrow> alive A gs \<longleftrightarrow> A p \<and> alive A (gs[i := None])"
proof -
  show 1: "alive A (gs[i := Some p]) \<longleftrightarrow> A p \<and> alive A (gs[i := None])" for p
  proof (intro iffI conjI)
    assume "A p \<and> alive A (gs[i := None])"
    then show "alive A (gs[i := Some p])" using assms unfolding alive_def by (metis length_list_update nth_list_update option.inject)
  qed (use assms in \<open>auto simp: alive_def nth_list_update\<close>)
  show "gs ! i = Some p \<Longrightarrow> alive A gs \<longleftrightarrow> A p \<and> alive A (gs[i := None])" using 1 [of p] by (metis list_update_id)
  show "alive A gs \<Longrightarrow> alive A (gs[i := None])" using assms by (auto simp: alive_def nth_list_update)
qed

section \<open>Calls and success of such a loop\<close>

lemma multierror_nil:
  "multierror_laws E \<Longrightarrow> (case multierror E rs of None \<Rightarrow> Inr () | Some e \<Rightarrow> Inl e) = Inr () \<longleftrightarrow> (\<forall>r \<in> set rs. r = None)"
proof -
  assume "multierror_laws E"
  then have "multierror E rs = None \<longleftrightarrow> (\<forall>r \<in> set rs. r = None)" unfolding multierror_laws_def by blast
  then show ?thesis by (auto split: option.splits)
qed

primrec all_calls :: "(api_call \<Rightarrow> bool) \<Rightarrow> proc \<Rightarrow> bool" where
  "all_calls P (Send r) = True"
| "all_calls P (Read f) = (\<forall>h. all_calls P (f h))"
| "all_calls P (Call c f) = (P c \<and> (\<forall>q. all_calls P (f q)))"

lemma go_procs_emits:
  assumes "go_procs E l f xs h = (r, h')" "\<forall>x \<in> set xs. all_calls P (f x)"
  shows "emits P h h'"
proof -
  let ?I = "\<lambda>h1 (gs, rs). emits P h h1 \<and> alive (all_calls P) gs"
  have keep: "kept_by_steps (length xs) ?I"
  proof (rule kept_by_stepsI, goal_cases read call send)
    case (read h1 gs rs i f)
    then have "all_calls P (Read f)" by (auto dest: alive_nth)
    with read show ?case by (simp add: alive_update(1,2))
  next
    case (call h1 gs rs i c f q)
    then have "all_calls P (Call c f)" by (auto dest: alive_nth)
    moreover from this call have "emits P h (h1 @ [(c, q)])" by (auto simp: emits_def)
    ultimately show ?case using call by (simp add: alive_update(1,2))
  next
    case (send h1 gs rs i r)
    then show ?case by (simp add: alive_update(2))
  qed
  have start: "?I h (map (\<lambda>x. Some (f x)) xs, [])" using assms(2) by (simp add: emits_def)
  show ?thesis by (cases rule: go_procs_inv [OF keep start assms(1)]) (auto simp: panics_def)
qed

text \<open>A goroutine is honest when a call that fails makes it send an error at once.\<close>

primrec honest :: "proc \<Rightarrow> bool" where
  "honest (Send r) = True"
| "honest (Read f) = (\<forall>h. honest (f h))"
| "honest (Call c f) = ((\<forall>e. \<exists>e'. f (Some e) = Send (Some e')) \<and> honest (f None))"

text \<open>Nothing has failed so far: no goroutine is about to send an error, none has.\<close>

definition quiet :: "proc option list \<Rightarrow> err option list \<Rightarrow> bool" where
  "quiet gs rs \<longleftrightarrow> alive (\<lambda>p. \<forall>e. p \<noteq> Send (Some e)) gs \<and> (\<forall>r \<in> set rs. r = None)"

lemma quiet_simps [simp]: "quiet (replicate n None) rs \<longleftrightarrow> (\<forall>r \<in> set rs. r = None)"
  by (simp add: quiet_def)

lemma quiet_update:
  assumes "i < length gs" "gs ! i = Some p"
  shows "(\<And>e. p \<noteq> Send (Some e)) \<Longrightarrow> quiet (gs[i := Some p']) rs \<longleftrightarrow> quiet gs rs \<and> (\<forall>e. p' \<noteq> Send (Some e))"
    and "p = Send r \<Longrightarrow> quiet (gs[i := None]) (rs @ [r]) \<longleftrightarrow> quiet gs rs"
  using alive_update(1) [OF assms(1), of "\<lambda>p. \<forall>e. p \<noteq> Send (Some e)" p']
    alive_update(3) [OF assms, of "\<lambda>p. \<forall>e. p \<noteq> Send (Some e)"] by (auto simp: quiet_def)

lemma go_procs_Inr:
  assumes "multierror_laws E" "go_procs E l f xs h = (Inr u, h')" "\<forall>x \<in> set xs. honest (f x)"
  shows "\<exists>k. h' = h @ k \<and> (\<forall>(c, q) \<in> set k. q = None)"
proof -
  let ?I = "\<lambda>h1 (gs, rs). alive honest gs \<and> (\<exists>k. h1 = h @ k \<and> (quiet gs rs \<longrightarrow> (\<forall>(c, q) \<in> set k. q = None)))"
  have keep: "kept_by_steps (length xs) ?I"
  proof (rule kept_by_stepsI, goal_cases read call send)
    case (read h1 gs rs i f)
    then have "honest (Read f)" by (auto dest: alive_nth)
    with read show ?case using quiet_update(1) [OF _ read(4)] by (auto simp: alive_update(1,2))
  next
    case (call h1 gs rs i c f q)
    then have "honest (Call c f)" by (auto dest: alive_nth)
    then have f: "\<And>e. q = Some e \<Longrightarrow> \<exists>e'. f q = Send (Some e')" and "q = None \<Longrightarrow> honest (f q)" by auto
    have h: "honest (f q)"
    proof (cases q)
      case (Some e)
      with f obtain e' where "f q = Send (Some e')" by blast
      then show ?thesis by simp
    qed fact
    from call obtain k where k: "h1 = h @ k" "quiet gs rs \<Longrightarrow> (\<forall>(c, q) \<in> set k. q = None)" by auto
    have "quiet (gs[i := Some (f q)]) rs \<longleftrightarrow> quiet gs rs \<and> (\<forall>e. f q \<noteq> Send (Some e))"
      by (rule quiet_update(1) [OF _ call(4)]) (use call(1,2) in simp_all)
    moreover have "q = None" if no: "\<forall>e. f q \<noteq> Send (Some e)"
    proof (cases q)
      case (Some e)
      from f(1) [OF this] no show ?thesis by simp
    qed
    ultimately have "quiet (gs[i := Some (f q)]) rs \<longrightarrow> (\<forall>(c, q) \<in> set (k @ [(c, q)]). q = None)"
      using k(2) by simp
    moreover have "alive honest (gs[i := Some (f q)])" using h call(1-3) by (simp add: alive_update(1,2))
    ultimately show ?case unfolding case_prod_conv k(1) append_assoc by (intro conjI exI [of _ "k @ [(c, q)]"]) (assumption | rule refl)+
  next
    case (send h1 gs rs i r)
    then show ?case using quiet_update(2) [OF _ send(4) refl] by (simp add: alive_update(2))
  qed
  have start: "?I h (map (\<lambda>x. Some (f x)) xs, [])" using assms(3) by simp
  show ?thesis
  proof (cases rule: go_procs_inv [OF keep start assms(2)])
    case (2 rs)
    then have "\<forall>r \<in> set rs. r = None" using multierror_nil [OF assms(1)] by (metis old.unit.exhaust)
    with 2 show ?thesis by auto
  qed simp
qed

section \<open>Goroutines that only call\<close>

text \<open>
  Goroutines whose calls do not depend on anything they read: without a failing call they make
  their \<open>remaining\<close> calls and then send \<open>final\<close>.
\<close>

primrec remaining :: "proc \<Rightarrow> api_call list" where
  "remaining (Send r) = []"
| "remaining (Read f) = []"
| "remaining (Call c f) = c # remaining (f None)"

primrec final :: "proc \<Rightarrow> err option" where
  "final (Send r) = r"
| "final (Read f) = None"
| "final (Call c f) = final (f None)"

primrec straight :: "proc \<Rightarrow> bool" where
  "straight (Send r) = not_panic r"
| "straight (Read f) = False"
| "straight (Call c f) = ((\<forall>e. (\<forall>m. e \<noteq> GoPanic m) \<longrightarrow> (\<exists>e'. f (Some e) = Send (Some e') \<and> (\<forall>m. e' \<noteq> GoPanic m))) \<and> straight (f None))"

definition open_calls :: "proc option list \<Rightarrow> api_call multiset" where
  "open_calls gs = mset (concat (map (\<lambda>g. case g of None \<Rightarrow> [] | Some p \<Rightarrow> remaining p) gs))"

lemma open_calls_update:
  assumes "i < length gs" "gs ! i = Some p"
  shows "open_calls gs = open_calls (gs[i := None]) + mset (remaining p)"
    and "open_calls (gs[i := Some p']) = open_calls (gs[i := None]) + mset (remaining p')"
proof -
  have "open_calls (gs[i := g]) =
      open_calls (gs[i := None]) + mset (case g of None \<Rightarrow> [] | Some p \<Rightarrow> remaining p)" for g
    using assms(1) by (simp add: open_calls_def upd_conv_take_nth_drop)
  from this [of "Some p"] this [of "Some p'"] show "open_calls gs = open_calls (gs[i := None]) + mset (remaining p)"
    "open_calls (gs[i := Some p']) = open_calls (gs[i := None]) + mset (remaining p')"
    using assms(2) by (simp_all) (metis list_update_id)
qed

text \<open>Everything goes well so far.\<close>

definition on_track :: "proc option list \<Rightarrow> err option list \<Rightarrow> bool" where
  "on_track gs rs \<longleftrightarrow> alive (\<lambda>p. final p = None) gs \<and> (\<forall>r \<in> set rs. r = None)"

lemma on_track_update:
  assumes "i < length gs" "gs ! i = Some p"
  shows "final p' = final p \<Longrightarrow> on_track (gs[i := Some p']) rs = on_track gs rs"
    and "final p' \<noteq> None \<Longrightarrow> \<not> on_track (gs[i := Some p']) rs"
    and "p = Send r \<Longrightarrow> on_track (gs[i := None]) (rs @ [r]) = on_track gs rs"
  using alive_update(1) [OF assms(1), of "\<lambda>p. final p = None" p'] alive_update(3) [OF assms, of "\<lambda>p. final p = None"]
  by (auto simp: on_track_def)

lemma go_procs_straight:
  assumes "multierror_laws E" "\<forall>x \<in> set xs. straight (f x)"
  shows "\<exists>r k. go_procs E l f xs h = (r, h @ k) \<and>
    (r = Inr () \<longleftrightarrow> (\<forall>x \<in> set xs. final (f x) = None) \<and> (\<forall>(c, q) \<in> set k. q = None)) \<and>
    (r = Inr () \<longrightarrow> mset (calls k) = mset (concat (map (\<lambda>x. remaining (f x)) xs)))"
proof -
  let ?g0 = "map (\<lambda>x. Some (f x)) xs"
  let ?K = "\<lambda>k gs rs.
    (on_track gs rs \<longrightarrow> (\<forall>(c, q) \<in> set k. q = None) \<and> mset (calls k) + open_calls gs = open_calls ?g0) \<and>
    ((\<forall>(c, q) \<in> set k. q = None) \<longrightarrow> (on_track gs rs \<longleftrightarrow> on_track ?g0 []))"
  let ?I = "\<lambda>h1 (gs, rs). alive straight gs \<and> (\<exists>k. h1 = h @ k \<and> ?K k gs rs)"
  have keep: "kept_by_steps (length xs) ?I"
  proof (rule kept_by_stepsI, goal_cases read call send)
    case (read h1 gs rs i f)
    then have "straight (Read f)" by (auto dest: alive_nth)
    then show ?case by simp
  next
    case (call h1 gs rs i c f q)
    then have i: "i < length gs" and s: "straight (Call c f)" by (auto dest: alive_nth)
    from call obtain k where k: "h1 = h @ k" "?K k gs rs" by auto
    have "straight (f q) \<and> ?K (k @ [(c, q)]) (gs[i := Some (f q)]) rs"
    proof (cases q)
      case None
      have "on_track (gs[i := Some (f q)]) rs = on_track gs rs"
        by (rule on_track_update(1) [OF i call(4)]) (simp add: None)
      with k(2) s None show ?thesis
        using open_calls_update(1) [OF i call(4)] open_calls_update(2) [OF i call(4), of "f q"] by auto
    next
      case (Some e)
      then obtain e' where e': "f q = Send (Some e')" "\<forall>m. e' \<noteq> GoPanic m" using s call(5) by auto
      then have "\<not> on_track (gs[i := Some (f q)]) rs" by (intro on_track_update(2) [OF i call(4)]) simp
      with e' Some show ?thesis by simp
    qed
    then show ?case using k(1) call i by (auto simp: alive_update(1,2) intro!: exI [of _ "k @ [(c, q)]"])
  next
    case (send h1 gs rs i r)
    then have i: "i < length gs" by simp
    show ?case using send open_calls_update(1) [OF i send(4)] on_track_update(3) [OF i send(4) refl]
      by (simp add: alive_update(2))
  qed
  have start: "?I h (?g0, [])" using assms(2) by simp
  obtain r h' where run: "go_procs E l f xs h = (r, h')" by fastforce
  show ?thesis
  proof (cases rule: go_procs_inv [OF keep start run])
    case (1 e)
    then show ?thesis by (auto simp: panics_def dest!: alive_nth)
  next
    case (2 rs)
    then obtain k where k: "h' = h @ k" "?K k (replicate (length xs) None) rs" by auto
    have "on_track (replicate (length xs) None) rs \<longleftrightarrow> r = Inr ()"
      using 2(2) assms(1) by (simp add: on_track_def multierror_nil)
    moreover have "on_track ?g0 [] \<longleftrightarrow> (\<forall>x \<in> set xs. final (f x) = None)" by (simp add: on_track_def)
    moreover have "open_calls (replicate (length xs) None) = {#}" by (simp add: open_calls_def)
    moreover have "open_calls ?g0 = mset (concat (map (\<lambda>x. remaining (f x)) xs))" by (simp add: open_calls_def comp_def)
    ultimately show ?thesis using k run by auto
  qed
qed

section \<open>Goroutines that do not interfere\<close>

text \<open>
  A goroutine owns some of the calls. It is \<open>safe\<close> after a history when, whatever calls it does
  not own happen in between, it makes only calls it owns, does not panic, and \<open>Q\<close> holds from
  the time it sends nil.
\<close>

definition foreign :: "(api_call \<Rightarrow> bool) \<Rightarrow> history \<Rightarrow> bool" where
  "foreign own k \<longleftrightarrow> (\<forall>(c, q) \<in> set k. \<not> own c)"

lemma foreign_simps [simp]: "foreign own []" "foreign own (k @ k') \<longleftrightarrow> foreign own k \<and> foreign own k'"
  "foreign own [(c, q)] \<longleftrightarrow> \<not> own c"
  by (auto simp: foreign_def)

primrec safe :: "(api_call \<Rightarrow> bool) \<Rightarrow> (history \<Rightarrow> bool) \<Rightarrow> proc \<Rightarrow> history \<Rightarrow> bool" where
  "safe own Q (Send r) = (\<lambda>h. not_panic r \<and> (r = None \<longrightarrow> (\<forall>k. foreign own k \<longrightarrow> Q (h @ k))))"
| "safe own Q (Read f) = (\<lambda>h. \<forall>k. foreign own k \<longrightarrow> safe own Q (f (h @ k)) (h @ k))"
| "safe own Q (Call c f) = (\<lambda>h. own c \<and>
     (\<forall>k q. foreign own k \<longrightarrow> not_panic q \<longrightarrow> safe own Q (f q) (h @ k @ [(c, q)])))"

lemma safe_frame: "safe own Q p h \<Longrightarrow> foreign own k \<Longrightarrow> safe own Q p (h @ k)"
  by (cases p) (simp_all, metis append_assoc foreign_simps(2))

lemma safe_step:
  "safe own Q (Read f) h \<Longrightarrow> safe own Q (f h) h"
  "safe own Q (Call c g) h \<Longrightarrow> not_panic q \<Longrightarrow> safe own Q (g q) (h @ [(c, q)])"
proof -
  assume "safe own Q (Read f) h"
  then have "foreign own [] \<longrightarrow> safe own Q (f (h @ [])) (h @ [])" unfolding safe.simps by blast
  then show "safe own Q (f h) h" by simp
next
  assume "safe own Q (Call c g) h" "not_panic q"
  then have "foreign own [] \<longrightarrow> safe own Q (g q) (h @ [] @ [(c, q)])" unfolding safe.simps by blast
  then show "safe own Q (g q) (h @ [(c, q)])" by simp
qed

definition safe_at :: "(api_call \<Rightarrow> bool) \<Rightarrow> (history \<Rightarrow> bool) \<Rightarrow> proc option \<Rightarrow> err option list \<Rightarrow> history \<Rightarrow> bool" where
  "safe_at own Q g rs h \<longleftrightarrow> (case g of
     None \<Rightarrow> (\<forall>r \<in> set rs. r = None) \<longrightarrow> safe own Q (Send None) h
   | Some p \<Rightarrow> safe own Q p h)"

lemma safe_at_frame: "safe_at own Q g rs h \<Longrightarrow> foreign own k \<Longrightarrow> safe_at own Q g rs (h @ k)"
  using safe_frame unfolding safe_at_def by (cases g) (simp_all only: option.case, blast+)

lemma go_procs_safe:
  assumes "multierror_laws E"
    and "\<And>i. i < length xs \<Longrightarrow> safe (own i) (Q i) (f (xs ! i)) h"
    and disjoint: "\<And>i j c. i < length xs \<Longrightarrow> j < length xs \<Longrightarrow> i \<noteq> j \<Longrightarrow> own i c \<Longrightarrow> \<not> own j c"
  shows "\<exists>r k. go_procs E l f xs h = (r, h @ k) \<and> (\<forall>m. r \<noteq> Inl (GoPanic m)) \<and>
    (r = Inr () \<longrightarrow> (\<forall>i < length xs. Q i (h @ k)))"
proof -
  let ?I = "\<lambda>h1 (gs, rs). (\<exists>k. h1 = h @ k) \<and> (\<forall>i < length xs. safe_at (own i) (Q i) (gs ! i) rs h1)"
  have keep: "kept_by_steps (length xs) ?I"
  proof (rule kept_by_stepsI, goal_cases read call send)
    case (read h1 gs rs i f)
    then have "safe (own i) (Q i) (Read f) h1" by (auto simp: safe_at_def split: option.splits)
    from safe_step(1) [OF this] read show ?case by (auto simp: nth_list_update safe_at_def)
  next
    case (call h1 gs rs i c f q)
    then have safe: "safe (own i) (Q i) (Call c f) h1" by (auto simp: safe_at_def split: option.splits)
    note step = safe_step(2) [OF this call(5)]
    have "safe_at (own j) (Q j) (gs ! j) rs (h1 @ [(c, q)])" if "j < length xs" "j \<noteq> i" for j
      using call that safe disjoint [of i j c] by (intro safe_at_frame) auto
    with step call(1-3) show ?case by (auto simp: nth_list_update safe_at_def)
  next
    case (send h1 gs rs i r)
    then have "safe (own i) (Q i) (Send r) h1" by (auto simp: safe_at_def split: option.splits)
    then have "safe_at (own i) (Q i) None (rs @ [r]) h1" by (auto simp: safe_at_def)
    moreover have "safe_at (own j) (Q j) (gs ! j) (rs @ [r]) h1" if "j < length xs" for j
      using send that by (auto simp: safe_at_def split: option.splits)
    ultimately show ?case using send by (auto simp: nth_list_update)
  qed
  have start: "?I h (map (\<lambda>x. Some (f x)) xs, [])" using assms(2) by (simp add: safe_at_def)
  obtain r h' where run: "go_procs E l f xs h = (r, h')" by fastforce
  show ?thesis
  proof (cases rule: go_procs_inv [OF keep start run])
    case (1 e)
    then show ?thesis by (fastforce simp: panics_def safe_at_def)
  next
    case (2 rs)
    then obtain k where k: "h' = h @ k" "\<forall>i < length xs. safe_at (own i) (Q i) None rs h'" by auto
    have "Q i h'" if "r = Inr ()" "i < length xs" for i
    proof -
      have "\<forall>r \<in> set rs. r = None" using that(1) 2(2) multierror_nil [OF assms(1)] by metis
      then have "safe (own i) (Q i) (Send None) h'" using k(2) that(2) by (simp add: safe_at_def)
      then show ?thesis using foreign_simps(1) by (metis append_Nil2 safe.simps(1))
    qed
    moreover have "\<forall>m. r \<noteq> Inl (GoPanic m)"
    proof (cases "multierror E rs")
      case (Some e)
      then have "\<not> is_panic e" using assms(1) by (simp add: multierror_laws_def)
      with Some 2(2) show ?thesis by auto
    qed (use 2(2) in simp)
    ultimately show ?thesis using k(1) run by auto
  qed
qed

end
