(* ===== verification/Aws.thy ===== *)
theory Aws
  imports BareMetal Goroutines
begin

text \<open>
  \<open>controllers/egressipam/aws/aws.go\<close>: the AWS platform. The SDK, the machine API and the JSON
  decoder are the parameter \<open>ec2\<close>; the pointers in the answers of EC2 are non-nil, as its API
  documents.
\<close>

section \<open>Data\<close>

record ec2_address =
  PrivateIpAddress :: string
  Primary :: bool

record ec2_nic =
  NetworkInterfaceId :: string
  PrivateIpAddresses :: "ec2_address list"

record ec2_instance =
  InstanceId :: string
  NetworkInterfaces :: "ec2_nic list"

record aws_filter =
  filter_Name :: string
  filter_Values :: "string list"

record AWSResourceReference =
  aws_ID :: "string option"
  aws_ARN :: "string option"
  aws_Filters :: "aws_filter list"

record AWSMachineProviderConfig =
  Subnet :: AWSResourceReference

text \<open>The credentials and the region a client was made with.\<close>

type_synonym aws_client = "string \<times> string \<times> string"

record ec2 =
  aws_Region :: "string option"    \<comment> \<open>\<open>Status.PlatformStatus.AWS.Region\<close>; \<open>None\<close> when \<open>AWS\<close> is nil\<close>
  new_session :: "err option"      \<comment> \<open>the error of \<open>session.NewSession\<close>\<close>
  DescribeInstances :: "aws_client \<Rightarrow> string list \<Rightarrow> history \<Rightarrow> err + ec2_instance list list"
    \<comment> \<open>reservations of instances\<close>
  list_machinesets :: "history \<Rightarrow> err + string option list"
    \<comment> \<open>the raw provider spec of every machine set; \<open>None\<close> when \<open>Value\<close> is nil\<close>
  unmarshal_provider :: "string \<Rightarrow> err + AWSMachineProviderConfig"
  DescribeSubnets :: "aws_client \<Rightarrow> string list \<Rightarrow> history \<Rightarrow> err + string list"
    \<comment> \<open>by the tag \<open>Name\<close>; the subnet ids\<close>
  DescribeNetworkInterfaces :: "aws_client \<Rightarrow> string list \<Rightarrow> history \<Rightarrow> err + ec2_nic list"
    \<comment> \<open>by subnet id\<close>
  DescribeInstanceTypes :: "aws_client \<Rightarrow> history \<Rightarrow> err + (string \<times> int) list"
    \<comment> \<open>all pages: instance type and \<open>Ipv4AddressesPerInterface\<close>\<close>

section \<open>Instances\<close>

definition getAWSIDFromProviderID :: "string \<Rightarrow> string" where
  "getAWSIDFromProviderID providerID = last (split_on (CHR ''/'') providerID)"

definition getAWSIDFromNode :: "node \<Rightarrow> string" where
  "getAWSIDFromNode n = getAWSIDFromProviderID (node_providerID n)"

type_synonym instances = "(string, ec2_instance) gomap"

definition getAWSInstances :: "goenv \<Rightarrow> ec2 \<Rightarrow> aws_client \<Rightarrow> (string, node) gomap \<Rightarrow> history \<Rightarrow> err + instances" where
  "getAWSInstances E X c nodes h =
     (let instanceIds = map (\<lambda>name. getAWSIDFromProviderID (node_providerID (gm_get zero_node nodes name)))
            (range_order E 102 (gm_keys nodes)) in
      bind_err (DescribeInstances X c instanceIds h) (\<lambda>reservations.
        Inr (fold (fold (\<lambda>inst. gm_put (InstanceId inst) inst)) reservations [])))"

text \<open>
  \<open>instance.NetworkInterfaces[0]\<close> of the instance of a node: the element of a map that is not
  there is a nil pointer.
\<close>

definition first_nic :: "ec2_instance option \<Rightarrow> err + ec2_nic" where
  "first_nic i =
     (case i of
        None \<Rightarrow> Inl (GoPanic ''nil pointer dereference'')
      | Some inst \<Rightarrow>
          (case NetworkInterfaces inst of
             [] \<Rightarrow> Inl (GoPanic ''index out of range'')
           | nic # _ \<Rightarrow> Inr nic))"

definition node_nic :: "instances \<Rightarrow> rcontext \<Rightarrow> string \<Rightarrow> err + ec2_nic" where
  "node_nic inst rc name = first_nic (map_of inst (getAWSIDFromNode (gm_get zero_node (rc_AllNodes rc) name)))"

definition awsAssignedIPs :: "ec2_nic \<Rightarrow> string list" where
  "awsAssignedIPs nic = map PrivateIpAddress (filter (\<lambda>a. \<not> Primary a) (PrivateIpAddresses nic))"

section \<open>Secondary addresses\<close>

text \<open>What a goroutine of each loop computes: a panic, nothing to do, or its call.\<close>

definition unused_plan :: "goenv \<Rightarrow> instances \<Rightarrow> rcontext \<Rightarrow> string \<times> string list \<Rightarrow> err + api_call option" where
  "unused_plan E inst rc = (\<lambda>(node, ips).
     bind_err (node_nic inst rc node) (\<lambda>nic.
       let toBeRemovedIPs = str_difference E (awsAssignedIPs nic) ips in
       Inr (if 0 < length toBeRemovedIPs
            then Some (UnassignPrivateIpAddresses (NetworkInterfaceId nic) toBeRemovedIPs) else None)))"

definition assigned_plan :: "goenv \<Rightarrow> instances \<Rightarrow> rcontext \<Rightarrow> string \<times> string list \<Rightarrow> err + api_call option" where
  "assigned_plan E inst rc = (\<lambda>(node, ips).
     bind_err (node_nic inst rc node) (\<lambda>nic.
       let toBeAssignedIPs = str_difference E ips (awsAssignedIPs nic) in
       Inr (if 0 < length toBeAssignedIPs
            then Some (AssignPrivateIpAddresses (NetworkInterfaceId nic) toBeAssignedIPs) else None)))"

definition removeAWSUnusedIPs :: "goenv \<Rightarrow> instances \<Rightarrow> rcontext \<Rightarrow> (history, unit) action" where
  "removeAWSUnusedIPs E inst rc =
     go_all E 135 (follow E (unused_plan E inst rc)) (rc_FinallyAssignedIPsByNode rc)"

definition reconcileAWSAssignedIPs :: "goenv \<Rightarrow> instances \<Rightarrow> rcontext \<Rightarrow> (history, unit) action" where
  "reconcileAWSAssignedIPs E inst rc =
     go_all E 181 (follow E (assigned_plan E inst rc)) (rc_FinallyAssignedIPsByNode rc)"

definition ReconcileInstanceSecondaryIPs_AWS :: "goenv \<Rightarrow> instances \<Rightarrow> rcontext \<Rightarrow> (history, unit) action" where
  "ReconcileInstanceSecondaryIPs_AWS E inst rc =
     bind_w (removeAWSUnusedIPs E inst rc) (\<lambda>u. reconcileAWSAssignedIPs E inst rc)"

text \<open>
  Clean-up: one goroutine per selected node, which frees the addresses after the first one by
  one. \<open>PrivateIpAddresses[1:]\<close> of an empty slice panics.
\<close>

fun remove_each :: "string \<Rightarrow> ec2_address list \<Rightarrow> proc" where
  "remove_each nic [] = Send None"
| "remove_each nic (secondaryIP # ips) =
     Call (UnassignPrivateIpAddresses nic [PrivateIpAddress secondaryIP]) (\<lambda>err.
       (case err of None \<Rightarrow> remove_each nic ips | Some e \<Rightarrow> Send (Some e)))"

definition remove_proc :: "instances \<Rightarrow> node \<Rightarrow> proc" where
  "remove_proc inst n =
     (case map_of inst (getAWSIDFromNode n) of
        None \<Rightarrow> Send (Some (ErrNew ''type assertion failed''))
      | Some i \<Rightarrow>
          (case first_nic (Some i) of
             Inl e \<Rightarrow> Send (Some e)
           | Inr nic \<Rightarrow>
               (case PrivateIpAddresses nic of
                  [] \<Rightarrow> Send (Some (GoPanic ''slice bounds out of range''))
                | _ # secondary \<Rightarrow> remove_each (NetworkInterfaceId nic) secondary)))"

definition removeAllAWSAssignedIPs :: "goenv \<Rightarrow> instances \<Rightarrow> rcontext \<Rightarrow> (history, unit) action" where
  "removeAllAWSAssignedIPs E inst rc =
     go_procs E 250 (remove_proc inst) (map snd (rc_SelectedNodes rc))"

definition RemoveAllAssignedIPs_AWS :: "goenv \<Rightarrow> instances \<Rightarrow> rcontext \<Rightarrow> (history, unit) action" where
  "RemoveAllAssignedIPs_AWS E inst rc = removeAllAWSAssignedIPs E inst rc"

section \<open>Addresses in use\<close>

definition machine_subnet :: "ec2 \<Rightarrow> string option \<Rightarrow> string list \<times> string list \<Rightarrow> err + string list \<times> string list" where
  "machine_subnet X raw = (\<lambda>(subnetIDs, subnetTagNames).
     (case raw of
        None \<Rightarrow> Inl (GoPanic ''nil pointer dereference'')
      | Some json \<Rightarrow>
          bind_err (unmarshal_provider X json) (\<lambda>config.
            (case aws_ID (Subnet config) of
               Some i \<Rightarrow> Inr (subnetIDs @ [i], subnetTagNames)
             | None \<Rightarrow> Inr (subnetIDs, subnetTagNames @
                 concat (map filter_Values (filter (\<lambda>f. filter_Name f = ''tag:Name'') (aws_Filters (Subnet config)))))))))"

text \<open>
  Line 365: for an address that does not parse, the function returns \<open>err\<close>, which is nil
  there, and the empty map.
\<close>

fun collect_used :: "ipnet \<Rightarrow> string list \<Rightarrow> ip list \<Rightarrow> ip list option" where
  "collect_used net [] ips = Some ips"
| "collect_used net (a # addresses) ips =
     (let IP = ParseIP a in
      if IP = NilIP then None
      else collect_used net addresses (if net_contains net IP then ips @ [IP] else ips))"

fun used_by_cidr :: "string list \<Rightarrow> string list \<Rightarrow> (string, ip list) gomap \<Rightarrow> err + (string, ip list) gomap" where
  "used_by_cidr addresses [] m = Inr m"
| "used_by_cidr addresses (cidr # cidrs) m =
     (case ParseCIDR cidr of
        Inl e \<Rightarrow> Inl e
      | Inr (_, net) \<Rightarrow>
          (case collect_used net addresses [] of
             None \<Rightarrow> Inr []
           | Some ips \<Rightarrow> used_by_cidr addresses cidrs (gm_put cidr ips m)))"

definition getAWSUsedIPsByCIDR :: "ec2 \<Rightarrow> aws_client \<Rightarrow> rcontext \<Rightarrow> history \<Rightarrow> err + (string, ip list) gomap" where
  "getAWSUsedIPsByCIDR X c rc h =
     bind_err (list_machinesets X h) (\<lambda>machinesets.
     bind_err (go_for (machine_subnet X) machinesets ([], [])) (\<lambda>(subnetIDs, subnetTagNames).
     bind_err (if 0 < length subnetTagNames
               then bind_err (DescribeSubnets X c subnetTagNames h) (\<lambda>subnets. Inr (subnetIDs @ subnets))
               else Inr subnetIDs) (\<lambda>subnetIDs.
     bind_err (DescribeNetworkInterfaces X c subnetIDs h) (\<lambda>nics.
       used_by_cidr (concat (map (\<lambda>nic. map PrivateIpAddress (PrivateIpAddresses nic)) nics)) (rc_CIDRs rc) []))))"

definition add_taken :: "goenv \<Rightarrow> string \<Rightarrow> (string, ip list) gomap \<Rightarrow> err + (string, ip list) gomap" where
  "add_taken E cidr m =
     (case ParseCIDR cidr of
        Inl e \<Rightarrow> Inl e
      | Inr (base, _) \<Rightarrow> Inr (gm_put cidr (gm_get [] m cidr @ [delta_ip E base 1, delta_ip E base 2, delta_ip E base 3]) m))"

text \<open>An error becomes the empty map with a nil error.\<close>

definition GetUsedIPsByCIDR_AWS :: "goenv \<Rightarrow> ec2 \<Rightarrow> aws_client \<Rightarrow> rcontext \<Rightarrow> (history, (string, ip list) gomap) action" where
  "GetUsedIPsByCIDR_AWS E X c rc h =
     (case getAWSUsedIPsByCIDR X c rc h of
        Inl e \<Rightarrow> (if is_panic e then Inl e else Inr [], h)
      | Inr m \<Rightarrow>
          (case go_for (add_taken E) (range_order E 67 (gm_keys m)) m of
             Inl e \<Rightarrow> (Inr [], h)
           | Inr m' \<Rightarrow> (Inr m', h)))"

section \<open>Capacity\<close>

text \<open>
  The package variable \<open>theInstanceTypeCache\<close>: \<open>None\<close> when it is nil. It is passed and returned.
\<close>

type_synonym instanceTypeCache = "(string, int) gomap"

definition initializeIntanceTypeCache :: "ec2 \<Rightarrow> aws_client \<Rightarrow> history \<Rightarrow> err + instanceTypeCache" where
  "initializeIntanceTypeCache X c h =
     bind_err (DescribeInstanceTypes X c h) (\<lambda>types. Inr (fold (\<lambda>(t, n). gm_put t n) types []))"

definition getInstanceTypeCache ::
  "ec2 \<Rightarrow> aws_client \<Rightarrow> instanceTypeCache option \<Rightarrow> history \<Rightarrow> (err + instanceTypeCache) \<times> instanceTypeCache option" where
  "getInstanceTypeCache X c theInstanceTypeCache h =
     (let cache = (case theInstanceTypeCache of None \<Rightarrow> [] | Some m \<Rightarrow> m) in
      if length cache = 0 then
        (case initializeIntanceTypeCache X c h of
           Inl e \<Rightarrow> (Inl e, Some cache)
         | Inr m \<Rightarrow> (Inr m, Some m))
      else (Inr cache, Some cache))"

definition getCapacity :: "instanceTypeCache \<Rightarrow> string \<Rightarrow> err + 32 word" where
  "getCapacity itc instanceType =
     (case map_of itc instanceType of
        None \<Rightarrow> Inl (ErrNew ''unable to find instance type in instance type cache'')
      | Some n \<Rightarrow> Inr (word_of_int n))"

definition GetIPCapacity_cached ::
  "ec2 \<Rightarrow> aws_client \<Rightarrow> instanceTypeCache option \<Rightarrow> node \<Rightarrow> history \<Rightarrow> (err + 32 word) \<times> instanceTypeCache option" where
  "GetIPCapacity_cached X c cache n h =
     (case getInstanceTypeCache X c cache h of (r, cache') \<Rightarrow>
        (bind_err r (\<lambda>itc.
           (case map_of (node_labels n) ''beta.kubernetes.io/instance-type'' of
              None \<Rightarrow> Inl (ErrNew ''unable to determinte instance type'')
            | Some instanceType \<Rightarrow> getCapacity itc instanceType)), cache'))"

text \<open>
  The operation of the interface, with the cache empty; \<open>GetIPCapacity_cache_transparent\<close> below
  says when the cache makes no difference.
\<close>

definition GetIPCapacity_AWS :: "ec2 \<Rightarrow> aws_client \<Rightarrow> node \<Rightarrow> (history, 32 word) action" where
  "GetIPCapacity_AWS X c n h = (fst (GetIPCapacity_cached X c None n h), h)"

section \<open>The platform\<close>

definition getAWSCredentials :: "goenv \<Rightarrow> labels \<Rightarrow> err + string \<times> string" where
  "getAWSCredentials E secret =
     (case map_of secret ''aws_access_key_id'' of
        None \<Rightarrow> Inl (ErrNew (''unable to find key aws_access_key_id in secret '' @ secret_String E secret))
      | Some i \<Rightarrow>
          (case map_of secret ''aws_secret_access_key'' of
             None \<Rightarrow> Inl (ErrNew (''unable to find key aws_secret_access_key in secret '' @ secret_String E secret))
           | Some k \<Rightarrow> Inr (i, k)))"

definition getAWSClient :: "goenv \<Rightarrow> ec2 \<Rightarrow> string \<Rightarrow> labels \<Rightarrow> err + aws_client" where
  "getAWSClient E X region secret =
     bind_err (getAWSCredentials E secret) (\<lambda>(i, k).
       (case new_session X of
          Some e \<Rightarrow> Inl (GoPanic ''session.Must'')
        | None \<Rightarrow> Inr (i, k, region)))"

definition AWSInfra :: "goenv \<Rightarrow> ec2 \<Rightarrow> aws_client \<Rightarrow> instances \<Rightarrow> infra" where
  "AWSInfra E X c inst = \<lparr>GetUsedIPsByCIDR = GetUsedIPsByCIDR_AWS E X c,
     ReconcileInstanceSecondaryIPs = ReconcileInstanceSecondaryIPs_AWS E inst,
     RemoveAllAssignedIPs = RemoveAllAssignedIPs_AWS E inst, GetIPCapacity = GetIPCapacity_AWS X c\<rparr>"

definition NewAWSInfra_AWS :: "goenv \<Rightarrow> ec2 \<Rightarrow> rcontext \<Rightarrow> (history, infra) action" where
  "NewAWSInfra_AWS E X rc h =
     (bind_err (case aws_Region X of None \<Rightarrow> Inl (GoPanic ''nil pointer dereference'') | Some region \<Rightarrow> Inr region) (\<lambda>region.
      bind_err (getAWSClient E X region (rc_CloudCredentialsSecret rc)) (\<lambda>c.
      bind_err (getAWSInstances E X c (rc_SelectedNodes rc) h) (\<lambda>inst.
        Inr (AWSInfra E X c inst)))), h)"

section \<open>AWS meets the contract of Infra\<close>

text \<open>The CIDR has room for the three addresses after its base, which AWS keeps for itself.\<close>

definition cloud_room :: "string \<Rightarrow> bool" where
  "cloud_room c \<longleftrightarrow> (case ParseCIDR c of
     Inr (IPv4 w, net) \<Rightarrow> net_contains net (IPv4 (w + 1)) \<and> net_contains net (IPv4 (w + 2)) \<and> net_contains net (IPv4 (w + 3))
   | _ \<Rightarrow> False)"

definition cloud_assured :: "goenv \<Rightarrow> string list \<Rightarrow> bool" where
  "cloud_assured E cidrs \<longleftrightarrow> ipmath_laws E \<and> range_laws E \<and> multierror_laws E \<and> (\<forall>c \<in> set cidrs. cloud_room c)"

lemma collect_used_in:
  "collect_used net as ips = Some r \<Longrightarrow> \<forall>a \<in> set ips. net_contains net a \<Longrightarrow> \<forall>a \<in> set r. net_contains net a"
proof (induction as arbitrary: ips)
  case (Cons a as)
  let ?ips = "if net_contains net (ParseIP a) then ips @ [ParseIP a] else ips"
  have "collect_used net as ?ips = Some r" using Cons.prems(1) by (simp add: Let_def del: net_contains.simps split: if_splits)
  moreover have "\<forall>a \<in> set ?ips. net_contains net a" using Cons.prems(2) by (simp del: net_contains.simps)
  ultimately show ?case by (rule Cons.IH)
qed simp

lemma used_by_cidr_in:
  assumes "used_by_cidr as cidrs m = Inr m'" "\<forall>c. \<forall>a \<in> set (gm_get [] m c). in_cidr c a"
    and "distinct (gm_keys m)"
  shows "(\<forall>c. \<forall>a \<in> set (gm_get [] m' c). in_cidr c a) \<and> distinct (gm_keys m') \<and> fst ` set m' \<subseteq> set cidrs \<union> fst ` set m"
  using assms
proof (induction cidrs arbitrary: m)
  case (Cons c cidrs)
  obtain base net where p: "ParseCIDR c = Inr (base, net)" using Cons.prems(1) by (cases "ParseCIDR c") auto
  show ?case
  proof (cases "collect_used net as []")
    case None
    with Cons.prems p have "m' = []" by simp
    then show ?thesis by (simp add: gm_get_def)
  next
    case (Some ips)
    have "used_by_cidr as cidrs (gm_put c ips m) = Inr m'" using Cons.prems(1) p Some by simp
    moreover have ips: "\<forall>a \<in> set ips. in_cidr c a"
      using collect_used_in [OF Some] by (simp add: in_cidr_def p del: net_contains.simps)
    have "\<forall>c'. \<forall>a \<in> set (gm_get [] (gm_put c ips m) c'). in_cidr c' a"
      using Cons.prems(2) ips by (simp add: gm_get_put)
    moreover have "distinct (gm_keys (gm_put c ips m))" using Cons.prems(3) by simp
    ultimately have "(\<forall>c. \<forall>a \<in> set (gm_get [] m' c). in_cidr c a) \<and> distinct (gm_keys m') \<and>
        fst ` set m' \<subseteq> set cidrs \<union> fst ` set (gm_put c ips m)" by (rule Cons.IH)
    then show ?thesis by auto
  qed
qed simp

lemma getAWSUsedIPsByCIDR_in:
  assumes "getAWSUsedIPsByCIDR X c rc h = Inr m"
  shows "(\<forall>c. \<forall>a \<in> set (gm_get [] m c). in_cidr c a) \<and> distinct (gm_keys m) \<and> fst ` set m \<subseteq> set (rc_CIDRs rc)"
proof -
  from assms obtain as where "used_by_cidr as (rc_CIDRs rc) [] = Inr m"
    unfolding getAWSUsedIPsByCIDR_def bind_err_Inr_iff case_prod_beta by blast
  from used_by_cidr_in [OF this] show ?thesis by (simp add: gm_get_def)
qed

lemma add_taken_in:
  assumes "ipmath_laws E" "add_taken E c m = Inr m'" "cloud_room c" "\<forall>c. \<forall>a \<in> set (gm_get [] m c). in_cidr c a"
  shows "\<forall>c. \<forall>a \<in> set (gm_get [] m' c). in_cidr c a"
proof -
  from assms(3) obtain w net where p: "ParseCIDR c = Inr (IPv4 w, net)"
    and room: "net_contains net (IPv4 (w + 1))" "net_contains net (IPv4 (w + 2))" "net_contains net (IPv4 (w + 3))"
    unfolding cloud_room_def by (auto split: sum.splits prod.splits ip.splits simp del: net_contains.simps)
  have "m' = gm_put c (gm_get [] m c @ [IPv4 (w + 1), IPv4 (w + 2), IPv4 (w + 3)]) m"
    using assms(2) by (simp add: add_taken_def p ipmath_lawsD [OF assms(1)])
  moreover have "in_cidr c (IPv4 (w + 1))" "in_cidr c (IPv4 (w + 2))" "in_cidr c (IPv4 (w + 3))"
    using room by (simp_all add: in_cidr_def p del: net_contains.simps)
  ultimately show ?thesis using assms(4) by (auto simp: gm_get_put)
qed

lemma add_taken_loop_in:
  assumes "cloud_assured E (rc_CIDRs rc)" "\<forall>c. \<forall>a \<in> set (gm_get [] m c). in_cidr c a" "distinct (gm_keys m)"
    and "fst ` set m \<subseteq> set (rc_CIDRs rc)" "go_for (add_taken E) (range_order E l (gm_keys m)) m = Inr m'"
  shows "\<forall>c. \<forall>a \<in> set (gm_get [] m' c). in_cidr c a"
proof (rule go_for_inv [OF assms(5), where I = "\<lambda>m. \<forall>c. \<forall>a \<in> set (gm_get [] m c). in_cidr c a"])
  fix c s s' assume c: "c \<in> set (range_order E l (gm_keys m))"
    and s: "\<forall>c. \<forall>a \<in> set (gm_get [] s c). in_cidr c a" "add_taken E c s = Inr s'"
  have "c \<in> set (rc_CIDRs rc)"
    using c assms(3,4) range_lawsD(2) assms(1) unfolding cloud_assured_def by (metis set_map subsetD)
  then show "\<forall>c. \<forall>a \<in> set (gm_get [] s' c). in_cidr c a"
    using add_taken_in [OF _ s(2) _ s(1)] assms(1) by (simp add: cloud_assured_def)
qed fact

lemma GetUsedIPsByCIDR_AWS_in:
  assumes "cloud_assured E (rc_CIDRs rc)" "GetUsedIPsByCIDR_AWS E X c rc h = (Inr used, h1)"
  shows "used_ips_ok (rc_CIDRs rc) used"
proof (cases "getAWSUsedIPsByCIDR X c rc h")
  case (Inl e)
  with assms(2) show ?thesis by (auto simp: GetUsedIPsByCIDR_AWS_def used_ips_ok_def gm_get_def split: if_splits)
next
  case (Inr m)
  show ?thesis
  proof (cases "go_for (add_taken E) (range_order E 67 (gm_keys m)) m")
    case (Inl e)
    with assms(2) Inr show ?thesis by (auto simp: GetUsedIPsByCIDR_AWS_def used_ips_ok_def gm_get_def)
  next
    case loop: (Inr m')
    from add_taken_loop_in [OF assms(1) _ _ _ loop] getAWSUsedIPsByCIDR_in [OF Inr]
    have "\<forall>c. \<forall>a \<in> set (gm_get [] m' c). in_cidr c a" by blast
    moreover have "used = m'" using assms(2) Inr loop by (simp add: GetUsedIPsByCIDR_AWS_def)
    ultimately show ?thesis by (simp add: used_ips_ok_def)
  qed
qed

lemma aws_plans_cloud:
  "\<forall>c \<in> set (planned (unused_plan E inst rc) x). is_cloud_call c"
  "\<forall>c \<in> set (planned (assigned_plan E inst rc) x). is_cloud_call c"
  by (auto simp: planned_def unused_plan_def assigned_plan_def Let_def bind_err_def split: prod.splits sum.splits if_splits)

lemma remove_each_proc [simp]:
  "all_calls is_cloud_call (remove_each nic ips)" "honest (remove_each nic ips)" "straight (remove_each nic ips)"
  "final (remove_each nic ips) = None"
  "remaining (remove_each nic ips) = map (\<lambda>a. UnassignPrivateIpAddresses nic [PrivateIpAddress a]) ips"
  by (induction ips) (auto split: option.splits)

lemma remove_proc_cloud [simp]: "all_calls is_cloud_call (remove_proc inst n)" "honest (remove_proc inst n)"
  by (simp_all add: remove_proc_def split: option.splits sum.splits list.splits)

lemma ReconcileInstanceSecondaryIPs_AWS_cloud:
  assumes "ReconcileInstanceSecondaryIPs_AWS E inst rc h = (r, h')"
  shows "emits is_cloud_call h h'"
    and "multierror_laws E \<Longrightarrow> r = Inr u \<Longrightarrow> \<exists>k. h' = h @ k \<and> (\<forall>(c, q) \<in> set k. q = None)"
proof -
  have "emits is_cloud_call h h' \<and>
      (multierror_laws E \<longrightarrow> r = Inr u \<longrightarrow> (\<exists>k. h' = h @ k \<and> (\<forall>(c, q) \<in> set k. q = None)))"
    using assms unfolding ReconcileInstanceSecondaryIPs_AWS_def
  proof (cases rule: bind_w_cases)
    case (1 e)
    then show ?thesis using go_all_emits(1) [OF 1(1) [unfolded removeAWSUnusedIPs_def]] aws_plans_cloud by blast
  next
    case (2 v h1)
    note first = go_all_emits [OF 2(1) [unfolded removeAWSUnusedIPs_def], of is_cloud_call]
    note second = go_all_emits [OF 2(2) [unfolded reconcileAWSAssignedIPs_def], of is_cloud_call]
    have "emits is_cloud_call h h'" using first(1) second(1) aws_plans_cloud emits_trans by blast
    moreover have "\<exists>k. h' = h @ k \<and> (\<forall>(c, q) \<in> set k. q = None)" if m: "multierror_laws E" "r = Inr u"
    proof -
      obtain k1 k2 where "h1 = h @ k1" "\<forall>(c, q) \<in> set k1. q = None" "h' = h1 @ k2" "\<forall>(c, q) \<in> set k2. q = None"
        using first(2) second(2) m aws_plans_cloud by auto
      then show ?thesis by (auto simp: ball_Un)
    qed
    ultimately show ?thesis by blast
  qed
  then show "emits is_cloud_call h h'"
    "multierror_laws E \<Longrightarrow> r = Inr u \<Longrightarrow> \<exists>k. h' = h @ k \<and> (\<forall>(c, q) \<in> set k. q = None)" by blast+
qed

interpretation aws: infra_contract "cloud_assured E" "AWSInfra E X c inst" for E X c inst
proof
  show "used_ips_ok (rc_CIDRs rc) used"
    if "cloud_assured E (rc_CIDRs rc)" "GetUsedIPsByCIDR (AWSInfra E X c inst) rc h = (Inr used, h1)" for rc h used h1
    using that GetUsedIPsByCIDR_AWS_in by (simp add: AWSInfra_def)
  show "h1 = h" if "GetUsedIPsByCIDR (AWSInfra E X c inst) rc h = (r, h1)" for rc h r h1
    using that by (auto simp: AWSInfra_def GetUsedIPsByCIDR_AWS_def split: sum.splits if_splits)
  show "emits is_cloud_call h h1" if "ReconcileInstanceSecondaryIPs (AWSInfra E X c inst) rc h = (r, h1)" for rc h r h1
    using that ReconcileInstanceSecondaryIPs_AWS_cloud(1) by (simp add: AWSInfra_def)
  show "\<forall>(c, q) \<in> set h1. q = None" if "cloud_assured E (rc_CIDRs rc)"
    "ReconcileInstanceSecondaryIPs (AWSInfra E X c inst) rc h = (Inr u, h @ h1)" for rc h u h1
    using that ReconcileInstanceSecondaryIPs_AWS_cloud(2) by (fastforce simp: AWSInfra_def cloud_assured_def)
  show "\<forall>(c, q) \<in> set h1. q = None" if "cloud_assured E (rc_CIDRs rc)"
    "RemoveAllAssignedIPs (AWSInfra E X c inst) rc h = (Inr u, h @ h1)" for rc h u h1
    using that go_procs_Inr [of E 250 "remove_proc inst"]
    by (fastforce simp: AWSInfra_def cloud_assured_def RemoveAllAssignedIPs_AWS_def removeAllAWSAssignedIPs_def)
  show "emits is_cloud_call h h1" if "RemoveAllAssignedIPs (AWSInfra E X c inst) rc h = (r, h1)" for rc h r h1
    using that by (auto simp: AWSInfra_def RemoveAllAssignedIPs_AWS_def removeAllAWSAssignedIPs_def intro: go_procs_emits)
  show "h1 = h" if "GetIPCapacity (AWSInfra E X c inst) n h = (r, h1)" for n h r h1
    using that by (simp add: AWSInfra_def GetIPCapacity_AWS_def)
qed

section \<open>What EC2 has afterwards\<close>

















text \<open>One call for each address after the first one of the machine of a node.\<close>

definition further_addresses :: "instances \<Rightarrow> node \<Rightarrow> api_call list" where
  "further_addresses inst n =
     (case first_nic (map_of inst (getAWSIDFromNode n)) of
        Inl e \<Rightarrow> []
      | Inr nic \<Rightarrow> map (\<lambda>a. UnassignPrivateIpAddresses (NetworkInterfaceId nic) [PrivateIpAddress a]) (tl (PrivateIpAddresses nic)))"

text \<open>
  C30. Clean-up on AWS, for every interleaving of the goroutines: when every selected node has a
  machine with an interface and a first address, nil is returned exactly when every call
  succeeded, and then every further address of every machine has been freed, by one call each,
  and nothing else.
\<close>

theorem RemoveAllAssignedIPs_AWS_effect:
  assumes "multierror_laws E"
    and "\<forall>(name, n) \<in> set (rc_SelectedNodes rc). \<exists>i nic. map_of inst (getAWSIDFromNode n) = Some i \<and>
      first_nic (Some i) = Inr nic \<and> PrivateIpAddresses nic \<noteq> []"
  shows "\<exists>r k. RemoveAllAssignedIPs_AWS E inst rc h = (r, h @ k) \<and>
    (r = Inr () \<longleftrightarrow> (\<forall>(c, q) \<in> set k. q = None)) \<and>
    (r = Inr () \<longrightarrow> mset (calls k) = mset (concat (map (\<lambda>(name, n). further_addresses inst n) (rc_SelectedNodes rc))))"
proof -
  have node: "straight (remove_proc inst n) \<and> final (remove_proc inst n) = None \<and>
      remaining (remove_proc inst n) = further_addresses inst n" if "n \<in> set (map snd (rc_SelectedNodes rc))" for n
    using assms(2) that by (fastforce simp: remove_proc_def further_addresses_def split: list.splits)
  then have "map (\<lambda>n. remaining (remove_proc inst n)) (map snd (rc_SelectedNodes rc)) =
      map (further_addresses inst) (map snd (rc_SelectedNodes rc))" by (intro map_cong) auto
  also have "\<dots> = map (\<lambda>(name, n). further_addresses inst n) (rc_SelectedNodes rc)" by (simp add: case_prod_unfold comp_def)
  finally have calls: "map (\<lambda>n. remaining (remove_proc inst n)) (map snd (rc_SelectedNodes rc)) =
      map (\<lambda>(name, n). further_addresses inst n) (rc_SelectedNodes rc)" .
  have "\<forall>n \<in> set (map snd (rc_SelectedNodes rc)). straight (remove_proc inst n)"
    "(\<forall>n \<in> set (map snd (rc_SelectedNodes rc)). final (remove_proc inst n) = None) \<longleftrightarrow> True" using node by blast+
  with go_procs_straight [OF assms(1), where f = "remove_proc inst" and xs = "map snd (rc_SelectedNodes rc)" and l = 250 and h = h]
  show ?thesis unfolding RemoveAllAssignedIPs_AWS_def removeAllAWSAssignedIPs_def calls by simp
qed

text \<open>
  C33. The cache of instance types is transparent: a call of \<open>GetIPCapacity\<close> that finds the cache
  filled by an earlier call returns what it would return with an empty cache, as long as EC2
  still answers the same, and the cache stays as it is.
\<close>

theorem GetIPCapacity_cache_transparent:
  assumes "initializeIntanceTypeCache X c h0 = Inr m" "initializeIntanceTypeCache X c h = initializeIntanceTypeCache X c h0"
    and "GetIPCapacity_cached X c None n0 h0 = (r0, cache)"
  shows "GetIPCapacity_cached X c cache n h = (fst (GetIPCapacity_AWS X c n h), Some m)"
proof -
  have "cache = Some m" using assms(1,3) by (auto simp: GetIPCapacity_cached_def getInstanceTypeCache_def Let_def)
  moreover have "getInstanceTypeCache X c (Some m) h = (Inr m, Some m)" "getInstanceTypeCache X c None h = (Inr m, Some m)"
    using assms(1,2) by (simp_all add: getInstanceTypeCache_def Let_def)
  ultimately show ?thesis by (simp add: GetIPCapacity_cached_def GetIPCapacity_AWS_def)
qed

text \<open>
  C32. Errors of the cloud are swallowed: when the addresses in use cannot be read (the machine
  sets, the subnets or the interfaces cannot be listed, or, where no machine set selects its
  subnet by tags, an address of an interface does not parse), \<open>GetUsedIPsByCIDR\<close> on AWS returns
  an empty map and no error, so that every address of the subnet counts as free, the three that
  AWS keeps for itself included.
\<close>

theorem GetUsedIPsByCIDR_AWS_swallows_errors:
  assumes "(\<exists>e. getAWSUsedIPsByCIDR X c rc h = Inl e \<and> \<not> is_panic e) \<or>
    (\<exists>machinesets ids nics a nic. list_machinesets X h = Inr machinesets \<and>
      go_for (machine_subnet X) machinesets ([], []) = Inr (ids, []) \<and>
      DescribeNetworkInterfaces X c ids h = Inr nics \<and> nic \<in> set nics \<and> a \<in> set (PrivateIpAddresses nic) \<and>
      ParseIP (PrivateIpAddress a) = NilIP \<and> rc_CIDRs rc \<noteq> [] \<and> (\<exists>b. ParseCIDR (hd (rc_CIDRs rc)) = Inr b))"
    and "range_laws E"
  shows "GetUsedIPsByCIDR_AWS E X c rc h = (Inr [], h)"
proof -
  have bad: "collect_used net as ips = None" if "a \<in> set as" "ParseIP a = NilIP" for net as ips a
    using that by (induction as arbitrary: ips) (auto simp: Let_def simp del: net_contains.simps)
  have range: "range_order E 67 [] = []" using range_lawsD(2) [OF assms(2), of "[]" 67] by simp
  from assms(1) show ?thesis
  proof (elim disjE exE conjE)
    fix e assume "getAWSUsedIPsByCIDR X c rc h = Inl e" "\<not> is_panic e"
    then show ?thesis by (simp add: GetUsedIPsByCIDR_AWS_def)
  next
    fix ms ids nics a nic b
    assume A: "list_machinesets X h = Inr ms" "go_for (machine_subnet X) ms ([], []) = Inr (ids, [])"
      "DescribeNetworkInterfaces X c ids h = Inr nics" "nic \<in> set nics" "a \<in> set (PrivateIpAddresses nic)"
      "ParseIP (PrivateIpAddress a) = NilIP" "rc_CIDRs rc \<noteq> []" "ParseCIDR (hd (rc_CIDRs rc)) = Inr b"
    have "PrivateIpAddress a \<in> set (concat (map (\<lambda>nic. map PrivateIpAddress (PrivateIpAddresses nic)) nics))"
      using A(4,5) by auto
    from bad [OF this A(6)] have "getAWSUsedIPsByCIDR X c rc h = Inr []"
      using A by (cases "rc_CIDRs rc"; cases b) (simp_all add: getAWSUsedIPsByCIDR_def)
    then show ?thesis by (simp add: GetUsedIPsByCIDR_AWS_def range)
  qed
qed

section \<open>Witnesses\<close>

text \<open>Two machines; the first has an address of the placement and one that is no longer needed.\<close>

definition example_nic :: "string \<Rightarrow> string list \<Rightarrow> ec2_nic" where
  "example_nic i as = \<lparr>NetworkInterfaceId = i, PrivateIpAddresses =
     map (\<lambda>(n, a). \<lparr>PrivateIpAddress = a, Primary = (n = 0)\<rparr>) (enumerate 0 as)\<rparr>"

definition example_instances :: instances where
  "example_instances = [
     (''i-1'', \<lparr>InstanceId = ''i-1'', NetworkInterfaces = [example_nic ''eni-1'' [''10.0.0.1'', ''10.0.0.2'', ''10.0.0.6'']]\<rparr>),
     (''i-2'', \<lparr>InstanceId = ''i-2'', NetworkInterfaces = [example_nic ''eni-2'' [''10.0.1.1'']]\<rparr>)]"

definition example_aws_rc :: rcontext where
  "example_aws_rc =
    (let nodes = [(''n1'', (example_node ''n1'' ''a'' True)\<lparr>node_providerID := ''aws:///us-east-1a/i-1''\<rparr>),
         (''n2'', (example_node ''n2'' ''b'' True)\<lparr>node_providerID := ''aws:///us-east-1b/i-2''\<rparr>)] in
     example_rc\<lparr>rc_Infrastructure := AWSPlatformType, rc_AllNodes := nodes, rc_SelectedNodes := nodes,
       rc_FinallyAssignedIPsByNode := [(''n1'', [''10.0.0.2'', ''10.0.0.4'']), (''n2'', [''10.0.1.2''])]\<rparr>)"

definition example_ec2 :: ec2 where
  "example_ec2 = \<lparr>aws_Region = Some ''us-east-1'', new_session = None,
     DescribeInstances = (\<lambda>c ids h. Inr [map snd example_instances]),
     list_machinesets = (\<lambda>h. Inr [Some ''{}'']),
     unmarshal_provider = (\<lambda>json. Inr \<lparr>Subnet = \<lparr>aws_ID = Some ''subnet-1'', aws_ARN = None, aws_Filters = []\<rparr>\<rparr>),
     DescribeSubnets = (\<lambda>c tags h. Inr []),
     DescribeNetworkInterfaces = (\<lambda>c ids h. Inr [example_nic ''eni-1'' [''10.0.0.1'', ''10.0.0.2'', ''10.0.0.6'']]),
     DescribeInstanceTypes = (\<lambda>c h. Inr [(''m5.large'', 10)])\<rparr>"


theorem RemoveAllAssignedIPs_AWS_effect_witness:
  "\<exists>r k. RemoveAllAssignedIPs_AWS example_env example_instances example_aws_rc [] = (r, k) \<and>
     (r = Inr () \<longrightarrow> mset (calls k) = {#UnassignPrivateIpAddresses ''eni-1'' [''10.0.0.2''],
       UnassignPrivateIpAddresses ''eni-1'' [''10.0.0.6'']#})"
proof -
  have "concat (map (\<lambda>(name, n). further_addresses example_instances n) (rc_SelectedNodes example_aws_rc)) =
      [UnassignPrivateIpAddresses ''eni-1'' [''10.0.0.2''], UnassignPrivateIpAddresses ''eni-1'' [''10.0.0.6'']]"
    by code_simp
  moreover have "rc_SelectedNodes example_aws_rc = rc_AllNodes example_aws_rc"
    "rc_AllNodes example_aws_rc = [(''n1'', (example_node ''n1'' ''a'' True)\<lparr>node_providerID := ''aws:///us-east-1a/i-1''\<rparr>),
       (''n2'', (example_node ''n2'' ''b'' True)\<lparr>node_providerID := ''aws:///us-east-1b/i-2''\<rparr>)]"
    "map_of example_instances (getAWSIDFromNode ((example_node ''n1'' ''a'' True)\<lparr>node_providerID := ''aws:///us-east-1a/i-1''\<rparr>)) =
       Some \<lparr>InstanceId = ''i-1'', NetworkInterfaces = [example_nic ''eni-1'' [''10.0.0.1'', ''10.0.0.2'', ''10.0.0.6'']]\<rparr>"
    "map_of example_instances (getAWSIDFromNode ((example_node ''n2'' ''b'' True)\<lparr>node_providerID := ''aws:///us-east-1b/i-2''\<rparr>)) =
       Some \<lparr>InstanceId = ''i-2'', NetworkInterfaces = [example_nic ''eni-2'' [''10.0.1.1'']]\<rparr>"
    by code_simp+
  ultimately show ?thesis
    using RemoveAllAssignedIPs_AWS_effect [OF example_env_laws(7), of example_aws_rc example_instances "[]"]
    by (simp add: first_nic_def example_nic_def) blast
qed

theorem GetIPCapacity_cache_transparent_witness:
  "fst (GetIPCapacity_cached example_ec2 ('''', '''', '''') (Some [(''m5.large'', 10)])
     (zero_node\<lparr>node_labels := [(''beta.kubernetes.io/instance-type'', ''m5.large'')]\<rparr>) []) = Inr 10"
proof -
  let ?n = "zero_node\<lparr>node_labels := [(''beta.kubernetes.io/instance-type'', ''m5.large'')]\<rparr>"
  have v: "initializeIntanceTypeCache example_ec2 ('''', '''', '''') [] = Inr [(''m5.large'', 10)]"
    "GetIPCapacity_cached example_ec2 ('''', '''', '''') None ?n [] = (Inr 10, Some [(''m5.large'', 10)])"
    "fst (GetIPCapacity_AWS example_ec2 ('''', '''', '''') ?n []) = Inr 10" by code_simp+
  then show ?thesis using GetIPCapacity_cache_transparent [OF v(1) refl v(2), of ?n] v(3) by (simp only: fst_conv)
qed

theorem GetUsedIPsByCIDR_AWS_swallows_errors_witness:
  "GetUsedIPsByCIDR_AWS example_env (example_ec2\<lparr>DescribeNetworkInterfaces := (\<lambda>c ids h. Inl (ApiError ''throttled''))\<rparr>)
     ('''', '''', '''') example_aws_rc [] = (Inr [], [])"
proof (rule GetUsedIPsByCIDR_AWS_swallows_errors)
  have "getAWSUsedIPsByCIDR (example_ec2\<lparr>DescribeNetworkInterfaces := (\<lambda>c ids h. Inl (ApiError ''throttled''))\<rparr>)
      ('''', '''', '''') example_aws_rc [] = Inl (ApiError ''throttled'')" by code_simp
  then show "(\<exists>e. getAWSUsedIPsByCIDR (example_ec2\<lparr>DescribeNetworkInterfaces := (\<lambda>c ids h. Inl (ApiError ''throttled''))\<rparr>)
      ('''', '''', '''') example_aws_rc [] = Inl e \<and> \<not> is_panic e) \<or>
    (\<exists>machinesets ids nics a nic.
      list_machinesets (example_ec2\<lparr>DescribeNetworkInterfaces := (\<lambda>c ids h. Inl (ApiError ''throttled''))\<rparr>) [] = Inr machinesets \<and>
      go_for (machine_subnet (example_ec2\<lparr>DescribeNetworkInterfaces := (\<lambda>c ids h. Inl (ApiError ''throttled''))\<rparr>))
        machinesets ([], []) = Inr (ids, []) \<and>
      DescribeNetworkInterfaces (example_ec2\<lparr>DescribeNetworkInterfaces := (\<lambda>c ids h. Inl (ApiError ''throttled''))\<rparr>)
        ('''', '''', '''') ids [] = Inr nics \<and> nic \<in> set nics \<and> a \<in> set (PrivateIpAddresses nic) \<and>
      ParseIP (PrivateIpAddress a) = NilIP \<and> rc_CIDRs example_aws_rc \<noteq> [] \<and>
      (\<exists>b. ParseCIDR (hd (rc_CIDRs example_aws_rc)) = Inr b))" by simp
qed simp

end
