(* ===== verification/Azure.thy ===== *)
theory Azure
  imports Aws
begin

text \<open>
  \<open>controllers/egressipam/azure/azure.go\<close>: the Azure platform. The SDK, the machine API and the
  JSON decoder are the parameter \<open>azure\<close>. Pointers in the answers of Azure that the code tests,
  or that are optional in its API, are options; the others are non-nil, as the API documents.
\<close>

section \<open>Data\<close>

definition AzureEgressLoadBalancerAnnotation :: string where
  "AzureEgressLoadBalancerAnnotation = ''egressip-ipam-operator.redhat-cop.io/azure-egress-load-balancer''"

definition AzureEgressLoadBalancerNone :: string where
  "AzureEgressLoadBalancerNone = ''none''"

definition userAgent :: string where
  "userAgent = ''egressip-ipam-operator-services''"

record interface_reference =
  reference_ID :: string
  reference_Primary :: "bool option"

record virtual_machine =
  vm_Name :: string
  vm_NetworkInterfaces :: "interface_reference list option"

text \<open>A subnet is the addresses of its IP configurations (\<open>IPConfigurations\<close> may be nil, and so may each address).\<close>

type_synonym subnets = "string option list option list option"

text \<open>The field the code reads of what the decoder returns.\<close>

record AzureMachineProviderSpec =
  Vnet :: string

text \<open>The clients share the subscription and the authorizer.\<close>

type_synonym azure_client = "string \<times> string"

record azure =
  azure_Status :: "(string \<times> string) option"
    \<comment> \<open>\<open>PlatformStatus.Azure\<close>: \<open>ResourceGroupName\<close> and \<open>NetworkResourceGroupName\<close>\<close>
  NewOAuthConfig :: "string \<Rightarrow> err + string"
  NewServicePrincipalToken :: "string \<Rightarrow> string \<Rightarrow> string \<Rightarrow> err + string"
  AddToUserAgent :: "string \<Rightarrow> err option"
  ListComplete :: "azure_client \<Rightarrow> string \<Rightarrow> history \<Rightarrow> err + (virtual_machine \<times> err option) list"
    \<comment> \<open>by resource group: the iterator, each value with the error of the \<open>NextWithContext\<close> after it\<close>
  GetMachine :: "string \<Rightarrow> string \<Rightarrow> history \<Rightarrow> err + string option"
    \<comment> \<open>namespace, name; the raw provider spec, \<open>None\<close> when \<open>Value\<close> is nil\<close>
  unmarshal_machine :: "string \<Rightarrow> err + AzureMachineProviderSpec"
  GetVirtualNetwork :: "azure_client \<Rightarrow> string \<Rightarrow> string \<Rightarrow> history \<Rightarrow> err + subnets"
    \<comment> \<open>resource group, name, with \<open>subnets/ipConfigurations\<close> expanded\<close>
  GetInterface :: "azure_client \<Rightarrow> string \<Rightarrow> string \<Rightarrow> history \<Rightarrow> err + network_interface"
    \<comment> \<open>resource group, name\<close>

abbreviation nil_pointer :: err where
  "nil_pointer \<equiv> GoPanic ''nil pointer dereference''"

abbreviation out_of_range :: err where
  "out_of_range \<equiv> GoPanic ''index out of range''"

section \<open>Resource identifiers\<close>

text \<open>\<open>id[strings.LastIndex(id, "/"):]\<close> keeps the slash, and panics when there is none.\<close>

definition getNameFromResourceID :: "string \<Rightarrow> err + string" where
  "getNameFromResourceID i =
     (if CHR ''/'' \<in> set i then Inr (CHR ''/'' # last (split_on (CHR ''/'') i))
      else Inl (GoPanic ''slice bounds out of range''))"

definition getResourceGroupFromResourceID :: "string \<Rightarrow> err + string" where
  "getResourceGroupFromResourceID i =
     (let parts = split_on (CHR ''/'') i in
      if 4 < length parts then Inr (parts ! 4) else Inl out_of_range)"

section \<open>Network interfaces\<close>

text \<open>
  The loop of each goroutine over the interfaces of its machine: the last primary one is read,
  and \<open>visit\<close> is what the loop does with it. \<open>None\<close> is the zero value of \<open>networkInterface\<close>.
\<close>

fun load_primary :: "azure \<Rightarrow> azure_client \<Rightarrow> (network_interface \<Rightarrow> 's \<Rightarrow> err + 's) \<Rightarrow>
    interface_reference list \<Rightarrow> network_interface option \<Rightarrow> 's \<Rightarrow> (network_interface option \<Rightarrow> 's \<Rightarrow> proc) \<Rightarrow> proc" where
  "load_primary X c visit [] networkInterface s go = go networkInterface s"
| "load_primary X c visit (netif # netifs) networkInterface s go =
     (case reference_Primary netif of
        None \<Rightarrow> Send (Some nil_pointer)
      | Some False \<Rightarrow> load_primary X c visit netifs networkInterface s go
      | Some True \<Rightarrow>
          (case getResourceGroupFromResourceID (reference_ID netif) of
             Inl e \<Rightarrow> Send (Some e)
           | Inr resourceGroup \<Rightarrow>
               (case getNameFromResourceID (reference_ID netif) of
                  Inl e \<Rightarrow> Send (Some e)
                | Inr name \<Rightarrow>
                    Read (\<lambda>h.
                      (case GetInterface X c resourceGroup name h of
                         Inl e \<Rightarrow> Send (Some e)
                       | Inr nic \<Rightarrow>
                           (case visit nic s of
                              Inl e \<Rightarrow> Send (Some e)
                            | Inr s' \<Rightarrow> load_primary X c visit netifs (Some nic) s' go))))))"

text \<open>\<open>*networkInterface.IPConfigurations\<close>, with the interface it belongs to.\<close>

definition configurations :: "network_interface option \<Rightarrow> err + network_interface \<times> ip_configuration list" where
  "configurations networkInterface =
     (case networkInterface of
        None \<Rightarrow> Inl nil_pointer
      | Some nic \<Rightarrow> (case IPConfigurations nic of None \<Rightarrow> Inl nil_pointer | Some cfgs \<Rightarrow> Inr (nic, cfgs)))"

definition azureAssignedIPs :: "network_interface \<Rightarrow> string list \<Rightarrow> err + string list" where
  "azureAssignedIPs nic ips =
     bind_err (configurations (Some nic)) (\<lambda>(nic, cfgs).
       go_for (\<lambda>ipConfiguration ips.
         (case config_Primary ipConfiguration of
            None \<Rightarrow> Inl nil_pointer
          | Some True \<Rightarrow> Inr ips
          | Some False \<Rightarrow>
              Inr (case PrivateIPAddress ipConfiguration of None \<Rightarrow> ips | Some a \<Rightarrow> ips @ [a]))) cfgs ips)"

definition update_interface :: "err + network_interface \<times> ip_configuration list \<Rightarrow> proc" where
  "update_interface r =
     (case r of
        Inl e \<Rightarrow> Send (Some e)
      | Inr (nic, ipConfigurations) \<Rightarrow>
          (case getResourceGroupFromResourceID (interface_ID nic) of
             Inl e \<Rightarrow> Send (Some e)
           | Inr resourceGroup \<Rightarrow>
               Call (CreateOrUpdate resourceGroup (interface_Name nic) (nic\<lparr>IPConfigurations := Some ipConfigurations\<rparr>)) Send))"

type_synonym machines = "(string, virtual_machine) gomap"

definition with_interfaces :: "machines \<Rightarrow> string \<Rightarrow> (interface_reference list \<Rightarrow> proc) \<Rightarrow> proc" where
  "with_interfaces inst node f =
     (case map_of inst node of
        None \<Rightarrow> Send (Some nil_pointer)
      | Some instance \<Rightarrow>
          (case vm_NetworkInterfaces instance of None \<Rightarrow> Send (Some nil_pointer) | Some netifs \<Rightarrow> f netifs))"

definition has_address :: "string list \<Rightarrow> ip_configuration \<Rightarrow> bool" where
  "has_address ips ipConfiguration =
     (case PrivateIPAddress ipConfiguration of None \<Rightarrow> False | Some a \<Rightarrow> a \<in> set ips)"

text \<open>The goroutines of the three loops.\<close>

definition remove_secondary_proc :: "azure \<Rightarrow> azure_client \<Rightarrow> machines \<Rightarrow> string \<Rightarrow> proc" where
  "remove_secondary_proc X c inst node =
     with_interfaces inst node (\<lambda>netifs.
       load_primary X c (\<lambda>nic u. Inr u) netifs None () (\<lambda>networkInterface u.
         update_interface (bind_err (configurations networkInterface) (\<lambda>(nic, cfgs).
           bind_err (go_for (\<lambda>ipConfiguration kept.
             (case config_Primary ipConfiguration of
                None \<Rightarrow> Inl nil_pointer
              | Some p \<Rightarrow> Inr (if p then kept @ [ipConfiguration] else kept))) cfgs []) (\<lambda>ipConfigurations.
             Inr (nic, ipConfigurations))))))"

definition remove_unneeded_proc ::
  "goenv \<Rightarrow> azure \<Rightarrow> azure_client \<Rightarrow> machines \<Rightarrow> string \<times> string list \<Rightarrow> proc" where
  "remove_unneeded_proc E X c inst = (\<lambda>(node, ips).
     with_interfaces inst node (\<lambda>netifs.
       load_primary X c azureAssignedIPs netifs None [] (\<lambda>networkInterface assigned.
         update_interface (bind_err (configurations networkInterface) (\<lambda>(nic, cfgs).
           let toBeRemovedIPs = str_difference E assigned ips in
           Inr (nic, filter (\<lambda>cfg. \<not> has_address toBeRemovedIPs cfg) cfgs))))))"

definition getLoadBalancerPools :: "EgressIPAM \<Rightarrow> network_interface option \<Rightarrow> err + string list option" where
  "getLoadBalancerPools egressIPAM networkInterface =
     (if getAnnotation (ei_annotations egressIPAM) AzureEgressLoadBalancerAnnotation = Some AzureEgressLoadBalancerNone
      then Inr None
      else bind_err (configurations networkInterface) (\<lambda>(nic, cfgs).
        (case cfgs of [] \<Rightarrow> Inl out_of_range | cfg # _ \<Rightarrow> Inr (LoadBalancerBackendAddressPools cfg))))"

definition egress_configuration :: "string list option \<Rightarrow> ip_configuration \<Rightarrow> string \<Rightarrow> ip_configuration" where
  "egress_configuration pools first i =
     \<lparr>config_Name = ''EgressIP'' @ i, PrivateIPAddress = Some i, PrivateIPAllocationMethod = ''Static'',
      config_Subnet = config_Subnet first, config_Primary = Some False, LoadBalancerBackendAddressPools = pools\<rparr>"

definition add_needed_proc ::
  "goenv \<Rightarrow> azure \<Rightarrow> azure_client \<Rightarrow> machines \<Rightarrow> EgressIPAM \<Rightarrow> string \<times> string list \<Rightarrow> proc" where
  "add_needed_proc E X c inst egressIPAM = (\<lambda>(node, ips).
     with_interfaces inst node (\<lambda>netifs.
       load_primary X c azureAssignedIPs netifs None [] (\<lambda>networkInterface assigned.
         update_interface (bind_err (getLoadBalancerPools egressIPAM networkInterface) (\<lambda>pools.
           bind_err (configurations networkInterface) (\<lambda>(nic, cfgs).
           bind_err (go_for (\<lambda>i ipConfigurations.
             (case cfgs of
                [] \<Rightarrow> Inl out_of_range
              | first # _ \<Rightarrow> Inr (ipConfigurations @ [egress_configuration pools first i])))
             (str_difference E ips assigned) cfgs) (\<lambda>ipConfigurations.
             Inr (nic, ipConfigurations))))))))"

definition removeAllAzureSecondaryIPs ::
  "goenv \<Rightarrow> azure \<Rightarrow> azure_client \<Rightarrow> machines \<Rightarrow> rcontext \<Rightarrow> (history, unit) action" where
  "removeAllAzureSecondaryIPs E X c inst rc =
     go_procs E 332 (remove_secondary_proc X c inst) (gm_keys (rc_SelectedNodes rc))"

definition removeUnNeededAzureAssignedIPs ::
  "goenv \<Rightarrow> azure \<Rightarrow> azure_client \<Rightarrow> machines \<Rightarrow> rcontext \<Rightarrow> (history, unit) action" where
  "removeUnNeededAzureAssignedIPs E X c inst rc =
     go_procs E 382 (remove_unneeded_proc E X c inst) (rc_FinallyAssignedIPsByNode rc)"

definition addNeededAzureAssignedIPs ::
  "goenv \<Rightarrow> azure \<Rightarrow> azure_client \<Rightarrow> machines \<Rightarrow> rcontext \<Rightarrow> (history, unit) action" where
  "addNeededAzureAssignedIPs E X c inst rc =
     go_procs E 450 (add_needed_proc E X c inst (rc_EgressIPAM rc)) (rc_FinallyAssignedIPsByNode rc)"

definition reconcileAzureAssignedIPs ::
  "goenv \<Rightarrow> azure \<Rightarrow> azure_client \<Rightarrow> machines \<Rightarrow> rcontext \<Rightarrow> (history, unit) action" where
  "reconcileAzureAssignedIPs E X c inst rc =
     bind_w (removeUnNeededAzureAssignedIPs E X c inst rc) (\<lambda>u. addNeededAzureAssignedIPs E X c inst rc)"

definition ReconcileInstanceSecondaryIPs_Azure ::
  "goenv \<Rightarrow> azure \<Rightarrow> azure_client \<Rightarrow> machines \<Rightarrow> rcontext \<Rightarrow> (history, unit) action" where
  "ReconcileInstanceSecondaryIPs_Azure E X c inst rc = reconcileAzureAssignedIPs E X c inst rc"

definition RemoveAllAssignedIPs_Azure ::
  "goenv \<Rightarrow> azure \<Rightarrow> azure_client \<Rightarrow> machines \<Rightarrow> rcontext \<Rightarrow> (history, unit) action" where
  "RemoveAllAssignedIPs_Azure E X c inst rc = removeAllAzureSecondaryIPs E X c inst rc"

section \<open>Addresses in use\<close>

text \<open>
  The first node of the range; without the annotation the name is empty and the error nil. The
  annotation is split at slashes and its second part read without a test.
\<close>

definition getVirtualNetwork :: "goenv \<Rightarrow> azure \<Rightarrow> machines \<Rightarrow> rcontext \<Rightarrow> history \<Rightarrow> err + string" where
  "getVirtualNetwork E X inst rc h =
     (let nodeName = (case range_order E 272 (gm_keys inst) of [] \<Rightarrow> '''' | n # _ \<Rightarrow> n) in
      (case getAnnotation (node_annotations (gm_get zero_node (rc_AllNodes rc) nodeName)) ''machine.openshift.io/machine'' of
         None \<Rightarrow> Inr ''''
       | Some fqmachineName \<Rightarrow>
           (case split_on (CHR ''/'') fqmachineName of
              namespace # name # _ \<Rightarrow>
                bind_err (GetMachine X namespace name h) (\<lambda>raw.
                  (case raw of
                     None \<Rightarrow> Inl nil_pointer
                   | Some json \<Rightarrow> bind_err (unmarshal_machine X json) (\<lambda>spec. Inr (Vnet spec))))
            | _ \<Rightarrow> Inl out_of_range)))"

text \<open>The two inner loops; \<open>None\<close> when an address does not parse.\<close>

fun collect_configurations :: "ipnet \<Rightarrow> string option list \<Rightarrow> ip list \<Rightarrow> ip list option" where
  "collect_configurations net [] ips = Some ips"
| "collect_configurations net (None # addresses) ips = collect_configurations net addresses ips"
| "collect_configurations net (Some a # addresses) ips =
     (let IP = ParseIP a in
      if IP = NilIP then None
      else collect_configurations net addresses (if net_contains net IP then ips @ [IP] else ips))"

fun collect_subnets :: "ipnet \<Rightarrow> string option list option list \<Rightarrow> ip list \<Rightarrow> ip list option" where
  "collect_subnets net [] ips = Some ips"
| "collect_subnets net (None # subnets) ips = collect_subnets net subnets ips"
| "collect_subnets net (Some addresses # subnets) ips =
     (case collect_configurations net addresses ips of
        None \<Rightarrow> None
      | Some ips' \<Rightarrow> collect_subnets net subnets ips')"

text \<open>As on AWS, an address that does not parse ends the function with the empty map and a nil error.\<close>

fun azure_used_by_cidr :: "subnets \<Rightarrow> string list \<Rightarrow> (string, ip list) gomap \<Rightarrow> err + (string, ip list) gomap" where
  "azure_used_by_cidr subnets [] m = Inr m"
| "azure_used_by_cidr subnets (cidr # cidrs) m =
     (case ParseCIDR cidr of
        Inl e \<Rightarrow> Inl e
      | Inr (_, net) \<Rightarrow>
          (case collect_subnets net (case subnets of None \<Rightarrow> [] | Some s \<Rightarrow> s) [] of
             None \<Rightarrow> Inr []
           | Some ips \<Rightarrow> azure_used_by_cidr subnets cidrs (gm_put cidr ips m)))"

definition getAzureUsedIPsByCIDR ::
  "goenv \<Rightarrow> azure \<Rightarrow> azure_client \<Rightarrow> machines \<Rightarrow> rcontext \<Rightarrow> history \<Rightarrow> err + (string, ip list) gomap" where
  "getAzureUsedIPsByCIDR E X c inst rc h =
     (if length inst = 0 then Inr (fold (\<lambda>cidr. gm_put cidr []) (rc_CIDRs rc) [])
      else bind_err (getVirtualNetwork E X inst rc h) (\<lambda>vnet.
        (case azure_Status X of
           None \<Rightarrow> Inl nil_pointer
         | Some (_, networkResourceGroupName) \<Rightarrow>
             bind_err (GetVirtualNetwork X c networkResourceGroupName vnet h) (\<lambda>subnets.
               azure_used_by_cidr subnets (rc_CIDRs rc) []))))"

definition GetUsedIPsByCIDR_Azure ::
  "goenv \<Rightarrow> azure \<Rightarrow> azure_client \<Rightarrow> machines \<Rightarrow> rcontext \<Rightarrow> (history, (string, ip list) gomap) action" where
  "GetUsedIPsByCIDR_Azure E X c inst rc h =
     (bind_err (getAzureUsedIPsByCIDR E X c inst rc h) (\<lambda>m.
        go_for (add_taken E) (range_order E 197 (gm_keys m)) m), h)"

section \<open>The platform\<close>

definition GetIPCapacity_Azure :: "node \<Rightarrow> (history, 32 word) action" where
  "GetIPCapacity_Azure n h = (Inr 256, h)"

definition secret_key :: "goenv \<Rightarrow> labels \<Rightarrow> string \<Rightarrow> err + string" where
  "secret_key E secret k =
     (case map_of secret k of
        None \<Rightarrow> Inl (ErrNew (''unable to find key '' @ k @ '' in secret '' @ secret_String E secret))
      | Some v \<Rightarrow> Inr v)"

definition getAzureCredentials :: "goenv \<Rightarrow> labels \<Rightarrow> err + string \<times> string \<times> string \<times> string" where
  "getAzureCredentials E secret =
     bind_err (secret_key E secret ''azure_client_id'') (\<lambda>clientID.
     bind_err (secret_key E secret ''azure_client_secret'') (\<lambda>clientSecret.
     bind_err (secret_key E secret ''azure_tenant_id'') (\<lambda>tenantID.
     bind_err (secret_key E secret ''azure_subscription_id'') (\<lambda>subscription.
       Inr (clientID, clientSecret, tenantID, subscription)))))"

definition getAuthorizer :: "azure \<Rightarrow> string \<Rightarrow> string \<Rightarrow> string \<Rightarrow> err + string" where
  "getAuthorizer X clientID clientSecret tenantID =
     bind_err (NewOAuthConfig X tenantID) (\<lambda>oauthConfig. NewServicePrincipalToken X oauthConfig clientID clientSecret)"

text \<open>One \<open>AddToUserAgent\<close> for each of the three clients.\<close>

definition getAzureClients :: "goenv \<Rightarrow> azure \<Rightarrow> labels \<Rightarrow> err + azure_client" where
  "getAzureClients E X secret =
     bind_err (getAzureCredentials E secret) (\<lambda>(clientID, clientSecret, tenantID, subscription).
     bind_err (getAuthorizer X clientID clientSecret tenantID) (\<lambda>authorizer.
       go_for (\<lambda>client r. (case AddToUserAgent X userAgent of None \<Rightarrow> Inr r | Some e \<Rightarrow> Inl e))
         [''vmClient'', ''vnetClient'', ''networkClient''] (subscription, authorizer)))"

fun list_instances :: "(string, node) gomap \<Rightarrow> (virtual_machine \<times> err option) list \<Rightarrow> machines \<Rightarrow> err + machines" where
  "list_instances nodes [] instanceList = Inr instanceList"
| "list_instances nodes ((VM, next) # result) instanceList =
     (let instanceList' = (if vm_Name VM \<in> set (gm_keys nodes) then gm_put (vm_Name VM) VM instanceList else instanceList) in
      (case next of Some e \<Rightarrow> Inl e | None \<Rightarrow> list_instances nodes result instanceList'))"

definition getAzureInstances ::
  "azure \<Rightarrow> azure_client \<Rightarrow> string \<Rightarrow> (string, node) gomap \<Rightarrow> history \<Rightarrow> err + machines" where
  "getAzureInstances X c resourceGroupName nodes h =
     bind_err (ListComplete X c resourceGroupName h) (\<lambda>result. list_instances nodes result [])"

definition AzureInfra :: "goenv \<Rightarrow> azure \<Rightarrow> azure_client \<Rightarrow> machines \<Rightarrow> infra" where
  "AzureInfra E X c inst = \<lparr>GetUsedIPsByCIDR = GetUsedIPsByCIDR_Azure E X c inst,
     ReconcileInstanceSecondaryIPs = ReconcileInstanceSecondaryIPs_Azure E X c inst,
     RemoveAllAssignedIPs = RemoveAllAssignedIPs_Azure E X c inst, GetIPCapacity = GetIPCapacity_Azure\<rparr>"

definition NewAzureInfra_Azure :: "goenv \<Rightarrow> azure \<Rightarrow> rcontext \<Rightarrow> (history, infra) action" where
  "NewAzureInfra_Azure E X rc h =
     (bind_err (getAzureClients E X (rc_CloudCredentialsSecret rc)) (\<lambda>c.
      bind_err (case azure_Status X of None \<Rightarrow> Inl nil_pointer | Some (resourceGroupName, _) \<Rightarrow> Inr resourceGroupName) (\<lambda>resourceGroupName.
      bind_err (getAzureInstances X c resourceGroupName (rc_SelectedNodes rc) h) (\<lambda>inst.
        Inr (AzureInfra E X c inst)))), h)"

section \<open>Azure meets the contract of Infra\<close>

text \<open>The loops over the subnets collect what the loop of AWS collects from the list of all addresses.\<close>

definition subnet_addresses :: "subnets \<Rightarrow> string list" where
  "subnet_addresses subnets = concat (map (\<lambda>s. case s of None \<Rightarrow> [] | Some as \<Rightarrow> List.map_filter id as)
     (case subnets of None \<Rightarrow> [] | Some s \<Rightarrow> s))"

lemma collect_used_append:
  "collect_used net (as @ bs) ips = (case collect_used net as ips of None \<Rightarrow> None | Some ips' \<Rightarrow> collect_used net bs ips')"
  by (induction as arbitrary: ips) (simp_all add: Let_def del: net_contains.simps)

lemma collect_configurations_flat: "collect_configurations net as ips = collect_used net (List.map_filter id as) ips"
  by (induction net as ips rule: collect_configurations.induct) (simp_all add: List.map_filter_simps Let_def del: net_contains.simps)

lemma collect_subnets_flat: "collect_subnets net subnets ips = collect_used net (subnet_addresses (Some subnets)) ips"
  by (induction net subnets ips rule: collect_subnets.induct)
    (simp_all add: subnet_addresses_def collect_used_append collect_configurations_flat split: option.splits)

lemma azure_used_by_cidr_flat: "azure_used_by_cidr subnets cidrs m = used_by_cidr (subnet_addresses subnets) cidrs m"
proof (induction cidrs arbitrary: m)
  case (Cons cidr cidrs)
  have "subnet_addresses None = subnet_addresses (Some [])" by (simp add: subnet_addresses_def)
  with Cons show ?case by (cases subnets) (simp_all add: collect_subnets_flat split: sum.splits prod.splits option.splits)
qed simp

lemma getAzureUsedIPsByCIDR_in:
  assumes "getAzureUsedIPsByCIDR E X c inst rc h = Inr m"
  shows "(\<forall>c. \<forall>a \<in> set (gm_get [] m c). in_cidr c a) \<and> distinct (gm_keys m) \<and> fst ` set m \<subseteq> set (rc_CIDRs rc)"
proof (cases "length inst = 0")
  case True
  have "distinct (gm_keys (fold (\<lambda>cidr. gm_put cidr []) cs m)) \<and> fst ` set (fold (\<lambda>cidr. gm_put cidr []) cs m) = set cs \<union> fst ` set m"
    if "distinct (gm_keys m)" for cs and m :: "(string, ip list) gomap"
    using that by (induction cs arbitrary: m) simp_all
  note keys = this [of "[]" "rc_CIDRs rc"]
  have "gm_get ([] :: ip list) (fold (\<lambda>cidr. gm_put cidr []) (rc_CIDRs rc) []) c = []" for c
    using gm_get_fold_put [of "[] :: ip list" "\<lambda>c. []" "rc_CIDRs rc" "[]" c] by (simp add: gm_get_notin)
  moreover have "m = fold (\<lambda>cidr. gm_put cidr []) (rc_CIDRs rc) []" using True assms by (simp add: getAzureUsedIPsByCIDR_def)
  ultimately show ?thesis using keys by simp
next
  case False
  with assms obtain as where "used_by_cidr as (rc_CIDRs rc) [] = Inr m"
    by (auto simp: getAzureUsedIPsByCIDR_def azure_used_by_cidr_flat bind_err_Inr_iff split: option.splits)
  from used_by_cidr_in [OF this] show ?thesis by (simp add: gm_get_def)
qed

lemma GetUsedIPsByCIDR_Azure_in:
  assumes "cloud_assured E (rc_CIDRs rc)" "GetUsedIPsByCIDR_Azure E X c inst rc h = (Inr used, h1)"
  shows "used_ips_ok (rc_CIDRs rc) used"
proof -
  from assms(2) obtain m where m: "getAzureUsedIPsByCIDR E X c inst rc h = Inr m"
    and loop: "go_for (add_taken E) (range_order E 197 (gm_keys m)) m = Inr used"
    by (auto simp: GetUsedIPsByCIDR_Azure_def bind_err_Inr_iff)
  from add_taken_loop_in [OF assms(1) _ _ _ loop] getAzureUsedIPsByCIDR_in [OF m]
  show ?thesis by (simp add: used_ips_ok_def)
qed

lemma load_primary_calls:
  "(\<And>nic s. all_calls P (go nic s)) \<Longrightarrow> all_calls P (load_primary X c visit netifs nic s go)"
  "(\<And>nic s. honest (go nic s)) \<Longrightarrow> honest (load_primary X c visit netifs nic s go)"
  by (induction X c visit netifs nic s go rule: load_primary.induct) (auto split: option.splits sum.splits bool.splits)

lemma update_interface_calls [simp]: "all_calls is_cloud_call (update_interface r)" "honest (update_interface r)"
  by (simp_all add: update_interface_def split: sum.splits prod.splits)

lemma with_interfaces_calls:
  "(\<And>netifs. all_calls P (f netifs)) \<Longrightarrow> all_calls P (with_interfaces inst node f)"
  "(\<And>netifs. honest (f netifs)) \<Longrightarrow> honest (with_interfaces inst node f)"
  by (simp_all add: with_interfaces_def split: option.splits)

lemma azure_procs [simp]:
  "all_calls is_cloud_call (remove_secondary_proc X c inst node)" "honest (remove_secondary_proc X c inst node)"
  "all_calls is_cloud_call (remove_unneeded_proc E X c inst x)" "honest (remove_unneeded_proc E X c inst x)"
  "all_calls is_cloud_call (add_needed_proc E X c inst y x)" "honest (add_needed_proc E X c inst y x)"
  by (auto simp: remove_secondary_proc_def remove_unneeded_proc_def add_needed_proc_def split: prod.splits
      intro!: with_interfaces_calls load_primary_calls)

lemma ReconcileInstanceSecondaryIPs_Azure_cloud:
  assumes "ReconcileInstanceSecondaryIPs_Azure E X c inst rc h = (r, h')"
  shows "emits is_cloud_call h h'"
    and "multierror_laws E \<Longrightarrow> r = Inr u \<Longrightarrow> \<exists>k. h' = h @ k \<and> (\<forall>(c, q) \<in> set k. q = None)"
proof -
  have "emits is_cloud_call h h' \<and>
      (multierror_laws E \<longrightarrow> r = Inr u \<longrightarrow> (\<exists>k. h' = h @ k \<and> (\<forall>(c, q) \<in> set k. q = None)))"
    using assms unfolding ReconcileInstanceSecondaryIPs_Azure_def reconcileAzureAssignedIPs_def
  proof (cases rule: bind_w_cases)
    case (1 e)
    then show ?thesis using go_procs_emits [OF 1(1) [unfolded removeUnNeededAzureAssignedIPs_def]] by simp
  next
    case (2 v h1)
    note first = go_procs_emits [OF 2(1) [unfolded removeUnNeededAzureAssignedIPs_def], of is_cloud_call]
    note second = go_procs_emits [OF 2(2) [unfolded addNeededAzureAssignedIPs_def], of is_cloud_call]
    have "emits is_cloud_call h h'" using first second emits_trans by simp
    moreover have "\<exists>k. h' = h @ k \<and> (\<forall>(c, q) \<in> set k. q = None)" if m: "multierror_laws E" "r = Inr u"
    proof -
      obtain k1 where "h1 = h @ k1" "\<forall>(c, q) \<in> set k1. q = None"
        using go_procs_Inr [OF m(1) 2(1) [unfolded removeUnNeededAzureAssignedIPs_def]] by auto
      moreover obtain k2 where "h' = h1 @ k2" "\<forall>(c, q) \<in> set k2. q = None"
        using go_procs_Inr [OF m(1) 2(2) [unfolded addNeededAzureAssignedIPs_def m(2)]] by auto
      ultimately show ?thesis by (auto simp: ball_Un)
    qed
    ultimately show ?thesis by blast
  qed
  then show "emits is_cloud_call h h'"
    "multierror_laws E \<Longrightarrow> r = Inr u \<Longrightarrow> \<exists>k. h' = h @ k \<and> (\<forall>(c, q) \<in> set k. q = None)" by blast+
qed

interpretation azure: infra_contract "cloud_assured E" "AzureInfra E X c inst" for E X c inst
proof (unfold_locales, goal_cases used reads secondary secondary_ok remove_ok remove capacity)
  case (used rc h used h1)
  then show ?case using GetUsedIPsByCIDR_Azure_in by (simp add: AzureInfra_def)
next
  case (reads rc h r h1)
  then show ?case by (simp add: AzureInfra_def GetUsedIPsByCIDR_Azure_def)
next
  case (secondary rc h r1 h1)
  then show ?case using ReconcileInstanceSecondaryIPs_Azure_cloud(1) by (simp add: AzureInfra_def)
next
  case (secondary_ok rc h u h1)
  then show ?case using ReconcileInstanceSecondaryIPs_Azure_cloud(2) by (fastforce simp: AzureInfra_def cloud_assured_def)
next
  case (remove_ok rc h u h1)
  then have "multierror_laws E"
    "go_procs E 332 (remove_secondary_proc X c inst) (gm_keys (rc_SelectedNodes rc)) h = (Inr u, h @ h1)"
    by (simp_all add: AzureInfra_def cloud_assured_def RemoveAllAssignedIPs_Azure_def removeAllAzureSecondaryIPs_def)
  from go_procs_Inr [OF this] show ?case by simp
next
  case (remove rc h r1 h1)
  then show ?case
    by (auto simp: AzureInfra_def RemoveAllAssignedIPs_Azure_def removeAllAzureSecondaryIPs_def intro: go_procs_emits)
next
  case (capacity n h r2 h1)
  then show ?case by (simp add: AzureInfra_def GetIPCapacity_Azure_def)
qed

section \<open>What Azure has afterwards\<close>

text \<open>The configurations by resource group and name of the interface, and what a call that succeeded does to them.\<close>

type_synonym azure_state = "string \<times> string \<Rightarrow> ip_configuration list"

fun azure_apply :: "api_call \<times> err option \<Rightarrow> azure_state \<Rightarrow> azure_state" where
  "azure_apply (CreateOrUpdate g n nic, None) S = S((g, n) := (case IPConfigurations nic of None \<Rightarrow> [] | Some cfgs \<Rightarrow> cfgs))"
| "azure_apply _ S = S"

definition azure_after :: "history \<Rightarrow> azure_state \<Rightarrow> azure_state" where
  "azure_after k S = fold azure_apply k S"

fun updates :: "string \<times> string \<Rightarrow> api_call \<Rightarrow> bool" where
  "updates key (CreateOrUpdate g n nic) \<longleftrightarrow> key = (g, n)"
| "updates key _ \<longleftrightarrow> False"

lemma azure_after_append: "azure_after (k @ k') S = azure_after k' (azure_after k S)"
  by (simp add: azure_after_def)

lemma azure_after_foreign: "foreign (updates key) k \<Longrightarrow> azure_after k S key = S key"
proof (induction k arbitrary: S)
  case (Cons x k)
  have "azure_apply x S key = S key" using Cons.prems by (cases "(x, S)" rule: azure_apply.cases) (auto simp: foreign_def)
  with Cons show ?case by (simp add: azure_after_def foreign_def)
qed (simp add: azure_after_def)

text \<open>
  Nobody else changes the interfaces: after calls of which none on the interface failed, a read
  returns the configurations that the updates left.
\<close>

definition reads_back :: "azure \<Rightarrow> azure_client \<Rightarrow> history \<Rightarrow> azure_state \<Rightarrow> bool" where
  "reads_back X c h S \<longleftrightarrow> (\<forall>g n k nic key. GetInterface X c g n (h @ k) = Inr nic \<longrightarrow>
     getResourceGroupFromResourceID (interface_ID nic) = Inr (fst key) \<longrightarrow> interface_Name nic = snd key \<longrightarrow>
     (\<forall>(call, q) \<in> set k. updates key call \<longrightarrow> q = None) \<longrightarrow> IPConfigurations nic = Some (azure_after k S key))"

lemma reads_back_later:
  assumes "reads_back X c h S" "\<forall>(call, q) \<in> set k. q = None"
  shows "reads_back X c (h @ k) (azure_after k S)"
  unfolding reads_back_def
proof (intro allI impI, goal_cases)
  case (1 g n k' nic key)
  then have "\<forall>(call, q) \<in> set (k @ k'). updates key call \<longrightarrow> q = None" using assms(2) by auto
  with 1 assms(1) have "IPConfigurations nic = Some (azure_after (k @ k') S key)"
    unfolding reads_back_def append_assoc by blast
  then show ?case by (simp only: azure_after_append)
qed

text \<open>
  The machine of a node has one primary interface, whose reads return the interface \<open>key\<close> or
  an error.
\<close>

definition primary_interface :: "azure \<Rightarrow> azure_client \<Rightarrow> machines \<Rightarrow> string \<Rightarrow> string \<times> string \<Rightarrow> bool" where
  "primary_interface X c inst node key \<longleftrightarrow> (\<exists>vm before ref after g n.
     map_of inst node = Some vm \<and> vm_NetworkInterfaces vm = Some (before @ ref # after) \<and>
     reference_Primary ref = Some True \<and> (\<forall>r \<in> set (before @ after). reference_Primary r = Some False) \<and>
     getResourceGroupFromResourceID (reference_ID ref) = Inr g \<and> getNameFromResourceID (reference_ID ref) = Inr n \<and>
     (\<forall>h nic. GetInterface X c g n h = Inr nic \<longrightarrow>
        getResourceGroupFromResourceID (interface_ID nic) = Inr (fst key) \<and> interface_Name nic = snd key) \<and>
     (\<forall>h e. GetInterface X c g n h = Inl e \<longrightarrow> \<not> is_panic e))"

definition primaries :: "ip_configuration list \<Rightarrow> ip_configuration list" where
  "primaries cfgs = filter (\<lambda>cfg. config_Primary cfg = Some True) cfgs"

definition secondary_addresses :: "ip_configuration list \<Rightarrow> string set" where
  "secondary_addresses cfgs = {a. \<exists>cfg \<in> set cfgs. config_Primary cfg = Some False \<and> PrivateIPAddress cfg = Some a}"

text \<open>Every configuration says whether it is primary, one is, and a primary address is not also a secondary one.\<close>

definition interface_ok :: "ip_configuration list \<Rightarrow> bool" where
  "interface_ok cfgs \<longleftrightarrow> (\<forall>cfg \<in> set cfgs. config_Primary cfg \<noteq> None) \<and> primaries cfgs \<noteq> [] \<and>
     (\<forall>cfg \<in> set (primaries cfgs). \<forall>a \<in> secondary_addresses cfgs. PrivateIPAddress cfg \<noteq> Some a)"

lemma secondary_addresses_simps:
  "secondary_addresses (cfgs @ cfgs') = secondary_addresses cfgs \<union> secondary_addresses cfgs'"
  "secondary_addresses (map (egress_configuration pools first) ips) = set ips"
  by (auto simp: secondary_addresses_def egress_configuration_def)

lemma load_primary_skip:
  "\<forall>r \<in> set netifs. reference_Primary r = Some False \<Longrightarrow>
   load_primary X c visit (netifs @ rest) nic s go = load_primary X c visit rest nic s go"
  by (induction netifs) simp_all

lemma azureAssignedIPs_secondary:
  assumes "IPConfigurations nic = Some cfgs" "\<forall>cfg \<in> set cfgs. config_Primary cfg \<noteq> None"
  shows "\<exists>ips. azureAssignedIPs nic [] = Inr ips \<and> set ips = secondary_addresses cfgs"
proof -
  let ?f = "\<lambda>cfg ips. case config_Primary cfg of None \<Rightarrow> Inl nil_pointer | Some True \<Rightarrow> Inr ips
    | Some False \<Rightarrow> Inr (case PrivateIPAddress cfg of None \<Rightarrow> ips | Some a \<Rightarrow> ips @ [a])"
  have "\<exists>r. go_for ?f cfgs ips = Inr r \<and> set r = set ips \<union> secondary_addresses cfgs" for ips
    using assms(2)
  proof (induction cfgs arbitrary: ips)
    case (Cons cfg cfgs)
    let ?ips = "if config_Primary cfg = Some False then (case PrivateIPAddress cfg of None \<Rightarrow> ips | Some a \<Rightarrow> ips @ [a]) else ips"
    have step: "?f cfg ips = Inr ?ips" using Cons.prems by (auto split: option.splits bool.splits)
    obtain r where r: "go_for ?f cfgs ?ips = Inr r" "set r = set ?ips \<union> secondary_addresses cfgs"
      using Cons.IH [of ?ips] Cons.prems by auto
    have "set ?ips \<union> secondary_addresses cfgs = set ips \<union> secondary_addresses (cfg # cfgs)"
      by (auto simp: secondary_addresses_def split: option.splits)
    with step r show ?case by simp
  qed (simp add: secondary_addresses_def)
  from this [of "[]"] assms(1) show ?thesis by (simp add: azureAssignedIPs_def configurations_def)
qed

text \<open>
  A goroutine that reads its interface and then makes one update leaves the configurations
  \<open>new\<close> there, whatever happens to other interfaces in between.
\<close>

lemma interface_update_safe:
  assumes "reads_back X c h S" "primary_interface X c inst node key"
    and visit: "\<And>nic. IPConfigurations nic = Some (S key) \<Longrightarrow> \<exists>s'. visit nic s = Inr s' \<and> P s'"
    and new: "\<And>nic s'. IPConfigurations nic = Some (S key) \<Longrightarrow> P s' \<Longrightarrow> \<exists>cfgs. result (Some nic) s' = Inr (nic, cfgs) \<and> R cfgs"
  shows "safe (updates key) (\<lambda>h'. \<exists>k. h' = h @ k \<and> R (azure_after k S key))
    (with_interfaces inst node (\<lambda>netifs. load_primary X c visit netifs None s (\<lambda>nic s'. update_interface (result nic s')))) h"
proof -
  obtain vm before ref after g n where vm: "map_of inst node = Some vm" "vm_NetworkInterfaces vm = Some (before @ ref # after)"
    and ref: "reference_Primary ref = Some True" "\<forall>r \<in> set before. reference_Primary r = Some False"
      "\<forall>r \<in> set after. reference_Primary r = Some False"
      "getResourceGroupFromResourceID (reference_ID ref) = Inr g" "getNameFromResourceID (reference_ID ref) = Inr n"
    and get: "\<And>h nic. GetInterface X c g n h = Inr nic \<Longrightarrow>
        getResourceGroupFromResourceID (interface_ID nic) = Inr (fst key) \<and> interface_Name nic = snd key"
      "\<And>h e. GetInterface X c g n h = Inl e \<Longrightarrow> \<not> is_panic e"
    using assms(2) unfolding primary_interface_def set_append ball_Un by blast
  let ?go = "\<lambda>nic s'. update_interface (result nic s')"
  let ?Q = "\<lambda>h'. \<exists>k. h' = h @ k \<and> R (azure_after k S key)"
  let ?answer = "\<lambda>h'. case GetInterface X c g n h' of Inl e \<Rightarrow> Send (Some e)
    | Inr nic \<Rightarrow> (case visit nic s of Inl e \<Rightarrow> Send (Some e) | Inr s' \<Rightarrow> load_primary X c visit after (Some nic) s' ?go)"
  have proc: "with_interfaces inst node (\<lambda>netifs. load_primary X c visit netifs None s ?go) = Read ?answer"
    using vm ref by (simp add: with_interfaces_def load_primary_skip [OF ref(2)])
  have "safe (updates key) ?Q (?answer (h @ k)) (h @ k)" if k: "foreign (updates key) k" for k
  proof (cases "GetInterface X c g n (h @ k)")
    case (Inl e)
    with get(2) show ?thesis by fastforce
  next
    case (Inr nic)
    have "\<forall>(call, q) \<in> set k. updates key call \<longrightarrow> q = None" using k by (auto simp: foreign_def)
    then have cfgs: "IPConfigurations nic = Some (S key)"
      using assms(1) Inr get(1) [OF Inr] azure_after_foreign [OF k, of S] unfolding reads_back_def by metis
    obtain s' where s': "visit nic s = Inr s'" "P s'" using visit [OF cfgs] by blast
    obtain new where r: "result (Some nic) s' = Inr (nic, new)" "R new" using new [OF cfgs s'(2)] by blast
    let ?call = "CreateOrUpdate (fst key) (snd key) (nic\<lparr>IPConfigurations := Some new\<rparr>)"
    have "?answer (h @ k) = Call ?call Send"
      using Inr s' r ref(3) get(1) [OF Inr] by (simp add: update_interface_def load_primary_skip [OF ref(3), of _ _ _ "[]", unfolded append_Nil2])
    moreover have "?Q (h @ k @ k2 @ [(?call, None)] @ k3)" if "foreign (updates key) k2" "foreign (updates key) k3" for k2 k3
    proof (intro exI conjI)
      have "azure_after (k @ k2 @ [(?call, None)] @ k3) S key = new"
        using azure_after_foreign [OF that(2)] by (simp add: azure_after_append) (simp add: azure_after_def)
      then show "R (azure_after (k @ k2 @ [(?call, None)] @ k3) S key)" using r(2) by simp
    qed simp
    ultimately show ?thesis by simp
  qed
  then show ?thesis unfolding proc by simp
qed

lemma remove_unneeded_safe:
  assumes "strset_laws E" "reads_back X c h S" "primary_interface X c inst node key" "interface_ok (S key)"
  shows "safe (updates key) (\<lambda>h'. \<exists>k. h' = h @ k \<and> (interface_ok (azure_after k S key) \<and>
      primaries (azure_after k S key) = primaries (S key) \<and>
      secondary_addresses (azure_after k S key) = secondary_addresses (S key) \<inter> set ips))
    (remove_unneeded_proc E X c inst (node, ips)) h"
  unfolding remove_unneeded_proc_def case_prod_conv
proof (rule interface_update_safe [OF assms(2,3), where P = "\<lambda>as. set as = secondary_addresses (S key)"])
  show "\<exists>as. azureAssignedIPs nic [] = Inr as \<and> set as = secondary_addresses (S key)" if "IPConfigurations nic = Some (S key)" for nic :: network_interface
    using azureAssignedIPs_secondary [OF that] assms(4) by (simp add: interface_ok_def)
  fix nic :: network_interface and as assume nic: "IPConfigurations nic = Some (S key)" and as: "set as = secondary_addresses (S key)"
  let ?removed = "str_difference E as ips"
  let ?new = "filter (\<lambda>cfg. \<not> has_address ?removed cfg) (S key)"
  have removed: "set ?removed = secondary_addresses (S key) - set ips" using strset_lawsD(4) [OF assms(1)] as by simp
  have has: "has_address ?removed cfg \<longleftrightarrow> (\<exists>a. PrivateIPAddress cfg = Some a \<and> a \<in> secondary_addresses (S key) - set ips)" for cfg
    by (auto simp: has_address_def removed split: option.splits)
  have p: "primaries ?new = primaries (S key)"
  proof -
    have "\<not> has_address ?removed cfg" if "cfg \<in> set (S key)" "config_Primary cfg = Some True" for cfg
      using that assms(4) unfolding has by (auto simp: interface_ok_def primaries_def)
    then show ?thesis unfolding primaries_def filter_filter by (intro filter_cong) auto
  qed
  have s: "secondary_addresses ?new = secondary_addresses (S key) \<inter> set ips"
    by (auto simp: secondary_addresses_def has)
  have "interface_ok ?new" using assms(4) unfolding interface_ok_def p s by auto
  with p s nic show "\<exists>cfgs. bind_err (configurations (Some nic)) (\<lambda>(nic, cfgs).
      let toBeRemovedIPs = str_difference E as ips in Inr (nic, filter (\<lambda>cfg. \<not> has_address toBeRemovedIPs cfg) cfgs)) = Inr (nic, cfgs) \<and>
      interface_ok cfgs \<and> primaries cfgs = primaries (S key) \<and> secondary_addresses cfgs = secondary_addresses (S key) \<inter> set ips"
    by (simp add: configurations_def Let_def)
qed

lemma add_needed_safe:
  assumes "strset_laws E" "reads_back X c h S" "primary_interface X c inst node key" "interface_ok (S key)"
    and "secondary_addresses (S key) \<subseteq> set ips"
  shows "safe (updates key) (\<lambda>h'. \<exists>k. h' = h @ k \<and> (primaries (azure_after k S key) = primaries (S key) \<and>
      secondary_addresses (azure_after k S key) = set ips))
    (add_needed_proc E X c inst y (node, ips)) h"
  unfolding add_needed_proc_def case_prod_conv
proof (rule interface_update_safe [OF assms(2,3), where P = "\<lambda>as. set as = secondary_addresses (S key)"])
  show "\<exists>as. azureAssignedIPs nic [] = Inr as \<and> set as = secondary_addresses (S key)" if "IPConfigurations nic = Some (S key)" for nic :: network_interface
    using azureAssignedIPs_secondary [OF that] assms(4) by (simp add: interface_ok_def)
  fix nic :: network_interface and as assume nic: "IPConfigurations nic = Some (S key)" and as: "set as = secondary_addresses (S key)"
  obtain first rest where first: "S key = first # rest"
    using assms(4) by (cases "S key") (auto simp: interface_ok_def primaries_def)
  then obtain pools where pools: "getLoadBalancerPools y (Some nic) = Inr pools"
    using nic by (cases "getLoadBalancerPools y (Some nic)") (auto simp: getLoadBalancerPools_def configurations_def split: if_splits)
  let ?add = "str_difference E ips as"
  let ?new = "S key @ map (egress_configuration pools first) ?add"
  have add: "set ?add = set ips - secondary_addresses (S key)" using strset_lawsD(4) [OF assms(1)] as by simp
  have "go_for (\<lambda>i ipConfigurations. Inr (ipConfigurations @ [egress_configuration pools first i])) is cfgs =
      (Inr (cfgs @ map (egress_configuration pools first) is) :: err + ip_configuration list)" for "is" cfgs
    by (induction "is" arbitrary: cfgs) simp_all
  then have "bind_err (configurations (Some nic)) (\<lambda>(nic, cfgs).
      bind_err (go_for (\<lambda>i ipConfigurations. (case cfgs of [] \<Rightarrow> Inl out_of_range
        | first # _ \<Rightarrow> Inr (ipConfigurations @ [egress_configuration pools first i]))) ?add cfgs) (\<lambda>ipConfigurations.
        Inr (nic, ipConfigurations))) = Inr (nic, ?new)"
    using nic first by (simp add: configurations_def)
  moreover have "primaries ?new = primaries (S key)" by (simp add: primaries_def egress_configuration_def filter_empty_conv)
  moreover have "secondary_addresses ?new = set ips"
    using assms(5) add by (auto simp: secondary_addresses_simps)
  ultimately show "\<exists>cfgs. bind_err (getLoadBalancerPools y (Some nic)) (\<lambda>pools. bind_err (configurations (Some nic)) (\<lambda>(nic, cfgs).
      bind_err (go_for (\<lambda>i ipConfigurations. (case cfgs of [] \<Rightarrow> Inl out_of_range
        | first # _ \<Rightarrow> Inr (ipConfigurations @ [egress_configuration pools first i]))) ?add cfgs) (\<lambda>ipConfigurations.
        Inr (nic, ipConfigurations)))) = Inr (nic, cfgs) \<and> primaries cfgs = primaries (S key) \<and> secondary_addresses cfgs = set ips"
    using pools by (intro exI [of _ ?new]) simp
qed

lemma remove_secondary_safe:
  assumes "reads_back X c h S" "primary_interface X c inst node key" "interface_ok (S key)"
  shows "safe (updates key) (\<lambda>h'. \<exists>k. h' = h @ k \<and> azure_after k S key = primaries (S key))
    (remove_secondary_proc X c inst node) h"
  unfolding remove_secondary_proc_def
proof (rule interface_update_safe [OF assms(1,2), where P = "\<lambda>u. True"])
  fix nic :: network_interface and u :: unit assume nic: "IPConfigurations nic = Some (S key)"
  let ?f = "\<lambda>cfg kept. case config_Primary cfg of None \<Rightarrow> Inl nil_pointer | Some p \<Rightarrow> Inr (if p then kept @ [cfg] else kept)"
  have "go_for ?f cfgs kept = Inr (kept @ primaries cfgs)" if "\<forall>cfg \<in> set cfgs. config_Primary cfg \<noteq> None" for cfgs kept
    using that by (induction cfgs arbitrary: kept) (auto simp: primaries_def)
  with assms(3) have "go_for ?f (S key) [] = Inr (primaries (S key))" by (simp add: interface_ok_def)
  with nic show "\<exists>cfgs. bind_err (configurations (Some nic)) (\<lambda>(nic, cfgs).
      bind_err (go_for ?f cfgs []) (\<lambda>ipConfigurations. Inr (nic, ipConfigurations))) = Inr (nic, cfgs) \<and> cfgs = primaries (S key)"
    by (simp add: configurations_def)
qed simp

text \<open>The three loops: every node has an interface of its own, so their goroutines do not interfere.\<close>

lemma interfaces_loop:
  assumes "multierror_laws E" "distinct (map node_of xs)" "inj_on key (node_of ` set xs)"
    and safe: "\<And>x. x \<in> set xs \<Longrightarrow> safe (updates (key (node_of x)))
      (\<lambda>h'. \<exists>k. h' = h @ k \<and> R x (azure_after k S (key (node_of x)))) (f x) h"
  shows "\<exists>r k. go_procs E l f xs h = (r, h @ k) \<and> (\<forall>m. r \<noteq> Inl (GoPanic m)) \<and>
    (r = Inr () \<longrightarrow> (\<forall>x \<in> set xs. R x (azure_after k S (key (node_of x)))))"
proof -
  let ?key = "\<lambda>i. key (node_of (xs ! i))"
  have disjoint: "\<not> updates (?key j) c" if "i < length xs" "j < length xs" "i \<noteq> j" "updates (?key i) c" for i j c
  proof -
    have "node_of (xs ! i) \<noteq> node_of (xs ! j)" using that assms(2) by (metis length_map nth_eq_iff_index_eq nth_map)
    then have "?key i \<noteq> ?key j" using that assms(3) by (meson imageI inj_onD nth_mem)
    with that(4) show ?thesis by (cases c) auto
  qed
  have each: "safe (updates (?key i)) (\<lambda>h'. \<exists>k. h' = h @ k \<and> R (xs ! i) (azure_after k S (?key i))) (f (xs ! i)) h"
    if "i < length xs" for i using safe [OF nth_mem [OF that]] .
  have "\<exists>r k. go_procs E l f xs h = (r, h @ k) \<and> (\<forall>m. r \<noteq> Inl (GoPanic m)) \<and>
      (r = Inr () \<longrightarrow> (\<forall>i < length xs. \<exists>k'. h @ k = h @ k' \<and> R (xs ! i) (azure_after k' S (?key i))))"
    by (rule go_procs_safe [OF assms(1), where own = "\<lambda>i. updates (?key i)" and xs = xs and f = f and h = h
        and Q = "\<lambda>i h'. \<exists>k. h' = h @ k \<and> R (xs ! i) (azure_after k S (?key i))"])
      (fact each, fact disjoint)
  then show ?thesis by (simp add: all_set_conv_all_nth)
qed

text \<open>
  C8. The machines on Azure follow the placement: when nobody else changes the interfaces, and
  every node has a machine with one primary interface that is its own,
  \<open>ReconcileInstanceSecondaryIPs\<close> does not panic, whatever the interleaving of its goroutines;
  when it returns nil, the secondary addresses of each of these interfaces are exactly the
  addresses assigned to the node, and the primary configurations are as they were.
\<close>

theorem ReconcileInstanceSecondaryIPs_Azure_effect:
  assumes "multierror_laws E" "strset_laws E" "reads_back X c h S"
    and "distinct (gm_keys (rc_FinallyAssignedIPsByNode rc))" "inj_on key (set (gm_keys (rc_FinallyAssignedIPsByNode rc)))"
    and "\<forall>node \<in> set (gm_keys (rc_FinallyAssignedIPsByNode rc)). primary_interface X c inst node (key node) \<and> interface_ok (S (key node))"
  shows "\<exists>r k. ReconcileInstanceSecondaryIPs_Azure E X c inst rc h = (r, h @ k) \<and> (\<forall>m. r \<noteq> Inl (GoPanic m)) \<and>
    (r = Inr () \<longrightarrow> (\<forall>(node, ips) \<in> set (rc_FinallyAssignedIPsByNode rc).
       secondary_addresses (azure_after k S (key node)) = set ips \<and>
       primaries (azure_after k S (key node)) = primaries (S (key node))))"
proof -
  let ?xs = "rc_FinallyAssignedIPsByNode rc"
  let ?R = "\<lambda>x cfgs. interface_ok cfgs \<and> primaries cfgs = primaries (S (key (fst x))) \<and>
    secondary_addresses cfgs = secondary_addresses (S (key (fst x))) \<inter> set (snd x)"
  have inj: "inj_on key (fst ` set ?xs)" using assms(5) by simp
  have "\<exists>r k. go_procs E 382 (remove_unneeded_proc E X c inst) ?xs h = (r, h @ k) \<and> (\<forall>m. r \<noteq> Inl (GoPanic m)) \<and>
    (r = Inr () \<longrightarrow> (\<forall>x \<in> set ?xs. ?R x (azure_after k S (key (fst x)))))"
  proof (rule interfaces_loop [OF assms(1,4) inj])
    fix x assume "x \<in> set ?xs"
    then show "safe (updates (key (fst x))) (\<lambda>h'. \<exists>k. h' = h @ k \<and> ?R x (azure_after k S (key (fst x))))
        (remove_unneeded_proc E X c inst x) h"
      using remove_unneeded_safe [OF assms(2,3), of inst "fst x" "key (fst x)" "snd x"] assms(6) by simp
  qed
  then obtain r1 k1 where 1: "go_procs E 382 (remove_unneeded_proc E X c inst) ?xs h = (r1, h @ k1)" "\<forall>m. r1 \<noteq> Inl (GoPanic m)"
    and R1: "r1 = Inr () \<Longrightarrow> \<forall>x \<in> set ?xs. ?R x (azure_after k1 S (key (fst x)))" by blast
  show ?thesis
  proof (cases r1)
    case (Inl e)
    then have "ReconcileInstanceSecondaryIPs_Azure E X c inst rc h = (r1, h @ k1)"
      using 1(1) by (simp add: ReconcileInstanceSecondaryIPs_Azure_def reconcileAzureAssignedIPs_def
          removeUnNeededAzureAssignedIPs_def bind_w_def)
    with 1(2) Inl show ?thesis by auto
  next
    case (Inr u)
    let ?S = "azure_after k1 S"
    let ?R2 = "\<lambda>x cfgs. primaries cfgs = primaries (S (key (fst x))) \<and> secondary_addresses cfgs = set (snd x)"
    have ok1: "\<forall>(c, q) \<in> set k1. q = None" using go_procs_Inr [OF assms(1) 1(1) [unfolded Inr]] by simp
    have R: "\<forall>x \<in> set ?xs. ?R x (?S (key (fst x)))" using R1 Inr by simp
    have "\<exists>r k. go_procs E 450 (add_needed_proc E X c inst (rc_EgressIPAM rc)) ?xs (h @ k1) = (r, (h @ k1) @ k) \<and>
      (\<forall>m. r \<noteq> Inl (GoPanic m)) \<and> (r = Inr () \<longrightarrow> (\<forall>x \<in> set ?xs. ?R2 x (azure_after k ?S (key (fst x)))))"
    proof (rule interfaces_loop [OF assms(1,4) inj])
      fix x assume x: "x \<in> set ?xs"
      then show "safe (updates (key (fst x))) (\<lambda>h'. \<exists>k. h' = (h @ k1) @ k \<and> ?R2 x (azure_after k ?S (key (fst x))))
          (add_needed_proc E X c inst (rc_EgressIPAM rc) x) (h @ k1)"
        using add_needed_safe [OF assms(2) reads_back_later [OF assms(3) ok1], of inst "fst x" "key (fst x)" "snd x" "rc_EgressIPAM rc"]
          assms(6) R by simp
    qed
    then obtain r k2 where 2: "go_procs E 450 (add_needed_proc E X c inst (rc_EgressIPAM rc)) ?xs (h @ k1) = (r, (h @ k1) @ k2)"
      "\<forall>m. r \<noteq> Inl (GoPanic m)" "r = Inr () \<Longrightarrow> \<forall>x \<in> set ?xs. ?R2 x (azure_after k2 ?S (key (fst x)))" by blast
    have "ReconcileInstanceSecondaryIPs_Azure E X c inst rc h = (r, h @ k1 @ k2)"
      using 1(1) 2(1) Inr by (simp add: ReconcileInstanceSecondaryIPs_Azure_def reconcileAzureAssignedIPs_def
          removeUnNeededAzureAssignedIPs_def addNeededAzureAssignedIPs_def bind_w_def)
    with 2(2,3) show ?thesis by (intro exI [of _ r] exI [of _ "k1 @ k2"]) (simp add: azure_after_append case_prod_unfold)
  qed
qed

text \<open>
  C31. Clean-up on Azure, under the same hypotheses: without a panic, and when nil is returned,
  the interface of every selected node is left with exactly its primary configurations.
\<close>

theorem RemoveAllAssignedIPs_Azure_effect:
  assumes "multierror_laws E" "reads_back X c h S"
    and "distinct (gm_keys (rc_SelectedNodes rc))" "inj_on key (set (gm_keys (rc_SelectedNodes rc)))"
    and "\<forall>node \<in> set (gm_keys (rc_SelectedNodes rc)). primary_interface X c inst node (key node) \<and> interface_ok (S (key node))"
  shows "\<exists>r k. RemoveAllAssignedIPs_Azure E X c inst rc h = (r, h @ k) \<and> (\<forall>m. r \<noteq> Inl (GoPanic m)) \<and>
    (r = Inr () \<longrightarrow> (\<forall>node \<in> set (gm_keys (rc_SelectedNodes rc)). azure_after k S (key node) = primaries (S (key node))))"
proof -
  have "\<exists>r k. go_procs E 332 (remove_secondary_proc X c inst) (gm_keys (rc_SelectedNodes rc)) h = (r, h @ k) \<and>
    (\<forall>m. r \<noteq> Inl (GoPanic m)) \<and>
    (r = Inr () \<longrightarrow> (\<forall>node \<in> set (gm_keys (rc_SelectedNodes rc)). azure_after k S (key node) = primaries (S (key node))))"
  proof (rule interfaces_loop [OF assms(1), where node_of = "\<lambda>x. x"])
    fix node assume "node \<in> set (gm_keys (rc_SelectedNodes rc))"
    with assms(5) show "safe (updates (key node)) (\<lambda>h'. \<exists>k. h' = h @ k \<and> azure_after k S (key node) = primaries (S (key node)))
        (remove_secondary_proc X c inst node) h" by (intro remove_secondary_safe [OF assms(2)]) blast+
  qed (use assms(3,4) in simp_all)
  then show ?thesis unfolding RemoveAllAssignedIPs_Azure_def removeAllAzureSecondaryIPs_def .
qed

section \<open>Witnesses\<close>

definition example_configuration :: "bool \<Rightarrow> string \<Rightarrow> ip_configuration" where
  "example_configuration p a = \<lparr>config_Name = ''config'', PrivateIPAddress = Some a, PrivateIPAllocationMethod = ''Static'',
     config_Subnet = Some ''subnet'', config_Primary = Some p, LoadBalancerBackendAddressPools = None\<rparr>"

text \<open>Two interfaces; the first has an address of the placement and one that is no longer needed.\<close>

definition example_configurations :: azure_state where
  "example_configurations = (\<lambda>key.
     if key = (''rg'', ''nic-1'') then
       [example_configuration True ''10.0.0.1'', example_configuration False ''10.0.0.2'', example_configuration False ''10.0.0.6'']
     else if key = (''rg'', ''nic-2'') then [example_configuration True ''10.0.1.1''] else [])"

definition example_interface_ID :: "string \<Rightarrow> string" where
  "example_interface_ID n = ''/subscriptions/s/resourceGroups/rg/providers/Microsoft.Network/networkInterfaces/'' @ n"

text \<open>An Azure whose reads return what the updates left.\<close>

definition example_azure :: azure where
  "example_azure = \<lparr>azure_Status = Some (''rg'', ''rg''), NewOAuthConfig = (\<lambda>t. Inr t),
     NewServicePrincipalToken = (\<lambda>oauth i s. Inr i), AddToUserAgent = (\<lambda>a. None),
     ListComplete = (\<lambda>c g h. Inr []), GetMachine = (\<lambda>ns n h. Inr (Some ''{}'')),
     unmarshal_machine = (\<lambda>json. Inr \<lparr>Vnet = ''vnet''\<rparr>), GetVirtualNetwork = (\<lambda>c g n h. Inr None),
     GetInterface = (\<lambda>c g n h. Inr \<lparr>interface_ID = example_interface_ID (tl n), interface_Name = tl n,
       IPConfigurations = Some (azure_after h example_configurations (''rg'', tl n)), interface_rest = ''''\<rparr>)\<rparr>"

definition example_vm :: "string \<Rightarrow> string \<Rightarrow> virtual_machine" where
  "example_vm node nic = \<lparr>vm_Name = node, vm_NetworkInterfaces =
     Some [\<lparr>reference_ID = example_interface_ID nic, reference_Primary = Some True\<rparr>]\<rparr>"

definition example_machines :: machines where
  "example_machines = [(''n1'', example_vm ''n1'' ''nic-1''), (''n2'', example_vm ''n2'' ''nic-2'')]"

definition example_key :: "string \<Rightarrow> string \<times> string" where
  "example_key node = (if node = ''n1'' then (''rg'', ''nic-1'') else (''rg'', ''nic-2''))"

lemma example_resource_group: "getResourceGroupFromResourceID (example_interface_ID n) = Inr ''rg''"
  by (simp add: getResourceGroupFromResourceID_def example_interface_ID_def Let_def)

lemma example_reads_back: "reads_back example_azure c [] example_configurations"
  by (auto simp: reads_back_def example_azure_def example_resource_group split: prod.splits)

lemma example_primary_interface_of:
  assumes "map_of inst node = Some (example_vm node nic)" "getNameFromResourceID (example_interface_ID nic) = Inr n" "tl n = nic"
  shows "primary_interface example_azure c inst node (''rg'', nic)"
  unfolding primary_interface_def
  by (rule exI [of _ "example_vm node nic"], rule exI [of _ "[]"],
      rule exI [of _ "\<lparr>reference_ID = example_interface_ID nic, reference_Primary = Some True\<rparr>"],
      rule exI [of _ "[]"], rule exI [of _ "''rg''"], rule exI [of _ n])
    (use assms in \<open>auto simp: example_vm_def example_resource_group example_azure_def\<close>)

lemma example_primary_interface:
  "primary_interface example_azure c example_machines ''n1'' (''rg'', ''nic-1'')"
  "primary_interface example_azure c example_machines ''n2'' (''rg'', ''nic-2'')"
proof -
  have "getNameFromResourceID (example_interface_ID ''nic-1'') = Inr ''/nic-1''"
    "getNameFromResourceID (example_interface_ID ''nic-2'') = Inr ''/nic-2''" by code_simp+
  then show "primary_interface example_azure c example_machines ''n1'' (''rg'', ''nic-1'')"
    "primary_interface example_azure c example_machines ''n2'' (''rg'', ''nic-2'')"
    by (auto intro!: example_primary_interface_of simp: example_machines_def)
qed

lemma example_interfaces_ok:
  "interface_ok (example_configurations (''rg'', ''nic-1''))" "interface_ok (example_configurations (''rg'', ''nic-2''))"
  by (auto simp: interface_ok_def example_configurations_def example_configuration_def primaries_def secondary_addresses_def)

theorem ReconcileInstanceSecondaryIPs_Azure_effect_witness:
  "\<exists>k. ReconcileInstanceSecondaryIPs_Azure example_env example_azure ('''', '''') example_machines example_aws_rc [] = (Inr (), k) \<and>
     secondary_addresses (azure_after k example_configurations (''rg'', ''nic-1'')) = {''10.0.0.2'', ''10.0.0.4''} \<and>
     map PrivateIPAddress (primaries (azure_after k example_configurations (''rg'', ''nic-1''))) = [Some ''10.0.0.1'']"
proof -
  let ?run = "ReconcileInstanceSecondaryIPs_Azure example_env example_azure ('''', '''') example_machines example_aws_rc []"
  have A: "rc_FinallyAssignedIPsByNode example_aws_rc = [(''n1'', [''10.0.0.2'', ''10.0.0.4'']), (''n2'', [''10.0.1.2''])]"
    by code_simp
  have run: "fst ?run = Inr ()" by code_simp
  have p: "map PrivateIPAddress (primaries (example_configurations (''rg'', ''nic-1''))) = [Some ''10.0.0.1'']" by code_simp
  have "\<exists>r k. ?run = (r, [] @ k) \<and> (\<forall>m. r \<noteq> Inl (GoPanic m)) \<and>
    (r = Inr () \<longrightarrow> (\<forall>(node, ips) \<in> set (rc_FinallyAssignedIPsByNode example_aws_rc).
       secondary_addresses (azure_after k example_configurations (example_key node)) = set ips \<and>
       primaries (azure_after k example_configurations (example_key node)) = primaries (example_configurations (example_key node))))"
    by (rule ReconcileInstanceSecondaryIPs_Azure_effect [OF example_env_laws(7,6) example_reads_back])
      (simp_all add: A example_key_def example_primary_interface example_interfaces_ok)
  with run p show ?thesis by (elim exE conjE) (simp add: A example_key_def)
qed

theorem RemoveAllAssignedIPs_Azure_effect_witness:
  "\<exists>k. RemoveAllAssignedIPs_Azure example_env example_azure ('''', '''') example_machines example_aws_rc [] = (Inr (), k) \<and>
     azure_after k example_configurations (''rg'', ''nic-1'') = [example_configuration True ''10.0.0.1'']"
proof -
  let ?run = "RemoveAllAssignedIPs_Azure example_env example_azure ('''', '''') example_machines example_aws_rc []"
  have A: "gm_keys (rc_SelectedNodes example_aws_rc) = [''n1'', ''n2'']" by code_simp
  have run: "fst ?run = Inr ()" by code_simp
  have p: "primaries (example_configurations (''rg'', ''nic-1'')) = [example_configuration True ''10.0.0.1'']"
    by (simp add: primaries_def example_configurations_def example_configuration_def)
  have "\<exists>r k. ?run = (r, [] @ k) \<and> (\<forall>m. r \<noteq> Inl (GoPanic m)) \<and>
    (r = Inr () \<longrightarrow> (\<forall>node \<in> set (gm_keys (rc_SelectedNodes example_aws_rc)).
       azure_after k example_configurations (example_key node) = primaries (example_configurations (example_key node))))"
    by (rule RemoveAllAssignedIPs_Azure_effect [OF example_env_laws(7) example_reads_back])
      (simp_all only: A, simp_all add: example_key_def example_primary_interface example_interfaces_ok)
  with run p show ?thesis unfolding A by (elim exE conjE) (simp add: example_key_def)
qed

end
