(* ===== verification/Platforms.thy ===== *)
theory Platforms
  imports Lifecycle Azure
begin

text \<open>
  The platforms the operator is built with: the constructors that \<open>loadReconcileContext\<close> calls,
  on given clouds. All of them meet the contract of \<open>Infra\<close>, so what \<open>Cycle\<close> and \<open>Lifecycle\<close>
  show for any platform holds for the operator.
\<close>

definition operator_platforms :: "goenv \<Rightarrow> ec2 \<Rightarrow> azure \<Rightarrow> platforms" where
  "operator_platforms E X Y = \<lparr>NewAWSInfra = NewAWSInfra_AWS E X, NewAzureInfra = NewAzureInfra_Azure E Y\<rparr>"

text \<open>A platform that promises more CIDRs keeps its contract for fewer.\<close>

lemma infra_contract_mono:
  assumes "infra_contract assured infra" "\<And>cidrs. assured' cidrs \<Longrightarrow> assured cidrs"
  shows "infra_contract assured' infra"
proof
  note C = assms(1)
  show "used_ips_ok (rc_CIDRs rc) used" if "assured' (rc_CIDRs rc)" "nets_ok rc" "GetUsedIPsByCIDR infra rc h = (Inr used, h1)"
    for rc h used h1 using infra_contract.used_ips [OF C assms(2) [OF that(1)] that(2,3)] .
  show "\<forall>(c, q) \<in> set h1. q = None" if "assured' (rc_CIDRs rc)" "ReconcileInstanceSecondaryIPs infra rc h = (Inr u, h @ h1)"
    for rc h u h1 using infra_contract.secondary_ok [OF C assms(2) [OF that(1)] that(2)] .
  show "\<forall>(c, q) \<in> set h1. q = None" if "assured' (rc_CIDRs rc)" "RemoveAllAssignedIPs infra rc h = (Inr u, h @ h1)"
    for rc h u h1 using infra_contract.remove_ok [OF C assms(2) [OF that(1)] that(2)] .
qed (fact infra_contract.used_ips_reads [OF assms(1)] infra_contract.secondary_cloud [OF assms(1)]
  infra_contract.remove_cloud [OF assms(1)] infra_contract.capacity_reads [OF assms(1)])+

lemma new_platforms:
  "NewAWSInfra_AWS E X rc h = (r, h1) \<Longrightarrow> h1 = h \<and> (\<forall>infra. r = Inr infra \<longrightarrow> infra_contract (cloud_assured E) infra)"
  "NewAzureInfra_Azure E Y rc h = (r, h1) \<Longrightarrow> h1 = h \<and> (\<forall>infra. r = Inr infra \<longrightarrow> infra_contract (cloud_assured E) infra)"
  by (auto simp: NewAWSInfra_AWS_def NewAzureInfra_Azure_def bind_err_Inr_iff aws.infra_contract_axioms azure.infra_contract_axioms
      split: prod.splits)

lemma operator_platforms_ok: "platforms_ok (cloud_assured E) E (operator_platforms E X Y)"
proof -
  have "infra_contract (cloud_assured E) BareMetalInfra"
    by (rule infra_contract_mono [OF bare_metal.infra_contract_axioms]) simp
  then show ?thesis
    unfolding platforms_ok_def make_infra_def operator_platforms_def
    by (auto simp: pure_w_def split: platform.splits option.splits dest: new_platforms)
qed

end
