(* ===== verification/Loaded.thy ===== *)
theory Loaded
  imports Lifecycle
begin

text \<open>
  The context that \<open>loadReconcileContext\<close> returns, as a function of the four lists that the API
  server gave, of the specification and of the node selector.
\<close>

section \<open>What is loaded\<close>

text \<open>The context as a function of the four lists.\<close>

definition loaded_from :: "goenv \<Rightarrow> rcontext \<Rightarrow> (labels \<Rightarrow> bool) \<Rightarrow> node list \<Rightarrow> hostsubnet list \<Rightarrow> namespace list \<Rightarrow>
    netnamespace list \<Rightarrow> rcontext \<Rightarrow> bool" where
  "loaded_from E rc0 matches nodes subnets items nns rc \<longleftrightarrow>
     rc_Infrastructure rc = rc_Infrastructure rc0 \<and> rc_EgressIPAM rc = rc_EgressIPAM rc0 \<and> rc_CIDRs rc = rc_CIDRs rc0 \<and>
     rc_NetCIDRByCIDR rc = rc_NetCIDRByCIDR rc0 \<and> rc_ReservedIPsByCIDR rc = rc_ReservedIPsByCIDR rc0 \<and>
     rc_CIDRsByLabel rc = rc_CIDRsByLabel rc0 \<and> rc_AllNodes rc = fold (\<lambda>n. gm_put (node_name n) n) nodes [] \<and>
     rc_SelectedNodes rc = filter (\<lambda>(nodename, n). matches (node_labels n)) (rc_AllNodes rc) \<and>
     rc_SelectedNodesByCIDR rc = by_cidr E rc \<and>
     rc_AllHostSubnets rc = fold (\<lambda>hs. gm_put (hs_name hs) hs) subnets [] \<and>
     rc_SelectedHostSubnets rc = filter (\<lambda>(name, hs). map_of (rc_SelectedNodes rc) name \<noteq> None) (rc_AllHostSubnets rc) \<and>
     rc_InitiallyAssignedNamespaces rc = filter (\<lambda>n. ns_egressipam n = Some (ei_name (rc_EgressIPAM rc0)) \<and> ns_ips n \<noteq> None) items \<and>
     rc_UnAssignedNamespaces rc = filter (\<lambda>n. ns_egressipam n = Some (ei_name (rc_EgressIPAM rc0)) \<and> ns_ips n = None) items \<and>
     rc_NetNamespaces rc = fold (\<lambda>nn. gm_put (nn_name nn) nn) nns []"

lemma by_cidr_cong:
  assumes "rc_SelectedNodes rc' = rc_SelectedNodes rc" "rc_EgressIPAM rc' = rc_EgressIPAM rc" "rc_CIDRsByLabel rc' = rc_CIDRsByLabel rc"
  shows "by_cidr E rc' = by_cidr E rc"
  unfolding by_cidr_def node_cidr_def assms ..

lemma load_cluster_lists:
  assumes "load_cluster E p x h = Inr rc"
    and "list_nodes E h = Inr nodes" "list_hostsubnets E h = Inr subnets" "list_namespaces E h = Inr items"
    "list_netnamespaces E h = Inr nns"
  obtains rcs rc0 matches where "load_secret E h (empty_rc p x) = Inr rcs"
    "go_for load_assignment (CIDRAssignments x) rcs = Inr rc0"
    "selector_of E (NodeSelector (rc_EgressIPAM rc0)) = Inr matches" "loaded_from E rc0 matches nodes subnets items nns rc"
proof -
  from assms(1) obtain rcs rc0 rc1 where rcs: "load_secret E h (empty_rc p x) = Inr rcs"
    and rc0: "go_for load_assignment (CIDRAssignments x) rcs = Inr rc0"
    and rc1: "load_objects E h rc0 = Inr rc1" and rc: "select_nodes E rc1 = Inr rc" by (auto simp: load_cluster_def)
  have rc1_eq: "rc1 = rc0\<lparr>rc_AllNodes := fold (\<lambda>n. gm_put (node_name n) n) nodes [],
      rc_AllHostSubnets := fold (\<lambda>hs. gm_put (hs_name hs) hs) subnets [],
      rc_ReferringNamespaces := fold (\<lambda>n. gm_put (ns_name n) n) (filter (\<lambda>n. ns_egressipam n = Some (ei_name (rc_EgressIPAM rc0))) items) [],
      rc_InitiallyAssignedNamespaces := filter (\<lambda>n. ns_egressipam n = Some (ei_name (rc_EgressIPAM rc0)) \<and> ns_ips n \<noteq> None) items,
      rc_UnAssignedNamespaces := filter (\<lambda>n. ns_egressipam n = Some (ei_name (rc_EgressIPAM rc0)) \<and> ns_ips n = None) items,
      rc_NetNamespaces := fold (\<lambda>nn. gm_put (nn_name nn) nn) nns []\<rparr>"
    using rc1 by (auto simp: load_objects_def getAllNodes_def getAllHostSubnets_def getReferringNamespaces_def getAllNetNamespaces_def
        assms(2-5) fold_sort_namespace Let_def split: option.splits)
  from rc obtain matches where m: "selector_of E (NodeSelector (rc_EgressIPAM rc1)) = Inr matches"
    and rc_eq: "rc = (let a = rc1\<lparr>rc_SelectedNodes := filter (\<lambda>(nodename, n). matches (node_labels n)) (rc_AllNodes rc1)\<rparr>;
        b = a\<lparr>rc_SelectedHostSubnets := filter (\<lambda>(name, hs). map_of (rc_SelectedNodes a) name \<noteq> None) (rc_AllHostSubnets a)\<rparr>
      in b\<lparr>rc_SelectedNodesByCIDR := by_cidr E b, rc_SelectedHostSubnetsByCIDR := by_cidr E b\<rparr>)"
    by (auto simp: select_nodes_def getSelectedNodes_def Let_def split: sum.splits)
  have by_cidr: "rc_SelectedNodesByCIDR rc = by_cidr E rc"
    unfolding rc_eq Let_def by (simp, rule by_cidr_cong) simp_all
  show ?thesis
    by (rule that [OF rcs rc0 _ _, of matches]) (use m by_cidr in \<open>simp_all add: loaded_from_def rc_eq rc1_eq Let_def\<close>)
qed

lemma loaded_from_used [simp]:
  "loaded_from E rc0 matches nodes subnets items nns (rc\<lparr>rc_UsedIPsByCIDR := used\<rparr>) = loaded_from E rc0 matches nodes subnets items nns rc"
proof -
  have "by_cidr E (rc\<lparr>rc_UsedIPsByCIDR := used\<rparr>) = by_cidr E rc" by (rule by_cidr_cong) simp_all
  then show ?thesis by (simp add: loaded_from_def)
qed

lemma loadReconcileContext_lists:
  assumes "loadReconcileContext E P p x h = (Inr (rc, infra), h')"
    and "list_nodes E h = Inr nodes" "list_hostsubnets E h = Inr subnets" "list_namespaces E h = Inr items"
    "list_netnamespaces E h = Inr nns"
  obtains rcs rc0 matches where "load_secret E h (empty_rc p x) = Inr rcs"
    "go_for load_assignment (CIDRAssignments x) rcs = Inr rc0"
    "selector_of E (NodeSelector (rc_EgressIPAM rc0)) = Inr matches" "loaded_from E rc0 matches nodes subnets items nns rc"
proof -
  obtain rc1 where load: "load_cluster E p x h = Inr rc1" and rc: "rc = rc1 \<or> (\<exists>used. rc = rc1\<lparr>rc_UsedIPsByCIDR := used\<rparr>)"
    using loadReconcileContext_Inr [OF assms(1)] by metis
  from rc show ?thesis using load_cluster_lists [OF load assms(2-5)] that by (elim disjE exE) auto
qed

text \<open>Off the clouds the context starts from the empty one, whatever the history.\<close>

lemma loadReconcileContext_lists_off_cloud:
  assumes "\<not> isCloudInfrastructure p" "loadReconcileContext E P p x h = (Inr (rc, infra), h')"
    and "list_nodes E h = Inr nodes" "list_hostsubnets E h = Inr subnets" "list_namespaces E h = Inr items"
    "list_netnamespaces E h = Inr nns"
  obtains rc0 matches where "go_for load_assignment (CIDRAssignments x) (empty_rc p x) = Inr rc0"
    "selector_of E (NodeSelector (rc_EgressIPAM rc0)) = Inr matches" "loaded_from E rc0 matches nodes subnets items nns rc"
proof (rule loadReconcileContext_lists [OF assms(2-6)])
  fix rcs rc0 matches assume "load_secret E h (empty_rc p x) = Inr rcs"
  then have "rcs = empty_rc p x" using assms(1) by (simp add: load_secret_def empty_rc_def)
  moreover assume "go_for load_assignment (CIDRAssignments x) rcs = Inr rc0"
    "selector_of E (NodeSelector (rc_EgressIPAM rc0)) = Inr matches" "loaded_from E rc0 matches nodes subnets items nns rc"
  ultimately show thesis using that by blast
qed

text \<open>
  What the cycle is to work on: every field of the context that it reads, in terms of what the
  API server lists and of the EgressIPAM.
\<close>

definition reads_cluster :: "goenv \<Rightarrow> EgressIPAM \<Rightarrow> history \<Rightarrow> rcontext \<Rightarrow> bool" where
  "reads_cluster E x h rc \<longleftrightarrow> (\<exists>nodes subnets items nns matches.
     list_nodes E h = Inr nodes \<and> list_hostsubnets E h = Inr subnets \<and>
     list_namespaces E h = Inr items \<and> list_netnamespaces E h = Inr nns \<and>
     selector_of E (NodeSelector x) = Inr matches \<and>
     rc_EgressIPAM rc = x \<and> rc_CIDRs rc = map CIDR (CIDRAssignments x) \<and>
     (\<forall>a \<in> set (CIDRAssignments x). \<exists>base net. ParseCIDR (CIDR a) = Inr (base, net) \<and>
        map_of (rc_NetCIDRByCIDR rc) (CIDR a) = Some net) \<and>
     (distinct (map CIDR (CIDRAssignments x)) \<longrightarrow> (\<forall>a \<in> set (CIDRAssignments x).
        gm_get [] (rc_ReservedIPsByCIDR rc) (CIDR a) = map ParseIP (ReservedIPs a))) \<and>
     rc_AllNodes rc = fold (\<lambda>n. gm_put (node_name n) n) nodes [] \<and>
     rc_SelectedNodes rc = filter (\<lambda>(nodename, n). matches (node_labels n)) (rc_AllNodes rc) \<and>
     rc_SelectedNodesByCIDR rc = by_cidr E rc \<and>
     rc_AllHostSubnets rc = fold (\<lambda>hs. gm_put (hs_name hs) hs) subnets [] \<and>
     rc_SelectedHostSubnets rc = filter (\<lambda>(name, hs). map_of (rc_SelectedNodes rc) name \<noteq> None) (rc_AllHostSubnets rc) \<and>
     rc_NetNamespaces rc = fold (\<lambda>nn. gm_put (nn_name nn) nn) nns [] \<and>
     rc_InitiallyAssignedNamespaces rc = filter (\<lambda>n. ns_egressipam n = Some (ei_name x) \<and> ns_ips n \<noteq> None) items \<and>
     rc_UnAssignedNamespaces rc = filter (\<lambda>n. ns_egressipam n = Some (ei_name x) \<and> ns_ips n = None) items)"

lemma load_objects_lists:
  assumes "load_objects E h rc = Inr rc'"
  shows "\<exists>nodes subnets items nns. list_nodes E h = Inr nodes \<and> list_hostsubnets E h = Inr subnets \<and>
    list_namespaces E h = Inr items \<and> list_netnamespaces E h = Inr nns"
  using assms by (auto simp: load_objects_def getAllNodes_def getAllHostSubnets_def getReferringNamespaces_def
      getAllNetNamespaces_def Let_def split: option.splits sum.splits)

lemma loadReconcileContext_reads_cluster:
  assumes "loadReconcileContext E P p x h = (Inr (rc, infra), h')"
  shows "reads_cluster E x h rc"
proof -
  obtain rc1 where "load_cluster E p x h = Inr rc1" using loadReconcileContext_Inr [OF assms] by metis
  then obtain rc2 rc3 where "load_objects E h rc2 = Inr rc3" by (auto simp: load_cluster_def)
  from load_objects_lists [OF this] obtain nodes subnets items nns where
    lists: "list_nodes E h = Inr nodes" "list_hostsubnets E h = Inr subnets" "list_namespaces E h = Inr items" "list_netnamespaces E h = Inr nns"
    by blast
  obtain rcs rc0 matches where rcs: "load_secret E h (empty_rc p x) = Inr rcs"
    and rc0: "go_for load_assignment (CIDRAssignments x) rcs = Inr rc0"
    and m: "selector_of E (NodeSelector (rc_EgressIPAM rc0)) = Inr matches" and rc: "loaded_from E rc0 matches nodes subnets items nns rc"
    by (rule loadReconcileContext_lists [OF assms lists])
  have "rc_CIDRs rcs = []" "rc_ReservedIPsByCIDR rcs = []" "rc_EgressIPAM rcs = x"
    using rcs by (auto simp: load_secret_def empty_rc_def split: if_splits)
  with load_assignments [OF rc0 this(1,2)] have cidrs: "rc_EgressIPAM rc0 = x" "rc_CIDRs rc0 = map CIDR (CIDRAssignments x)"
    "\<forall>a \<in> set (CIDRAssignments x). \<exists>base net. ParseCIDR (CIDR a) = Inr (base, net) \<and> map_of (rc_NetCIDRByCIDR rc0) (CIDR a) = Some net"
    "distinct (map CIDR (CIDRAssignments x)) \<longrightarrow> (\<forall>a \<in> set (CIDRAssignments x).
        gm_get [] (rc_ReservedIPsByCIDR rc0) (CIDR a) = map ParseIP (ReservedIPs a))"
    unfolding loaded_cidrs_def by blast+
  show ?thesis
    unfolding reads_cluster_def
    by (intro exI [of _ nodes] exI [of _ subnets] exI [of _ items] exI [of _ nns] exI [of _ matches])
      (use rc m cidrs lists in \<open>simp add: loaded_from_def\<close>)
qed

section \<open>The nodes of a CIDR\<close>

lemma load_assignments_labels:
  "go_for load_assignment as rc = Inr rc' \<Longrightarrow> fst ` set (rc_CIDRsByLabel rc') \<subseteq> LabelValue ` set as \<union> fst ` set (rc_CIDRsByLabel rc)"
proof (induction "as" arbitrary: rc)
  case (Cons a "as")
  then obtain rc1 where "load_assignment a rc = Inr rc1" "go_for load_assignment as rc1 = Inr rc'" by (auto split: sum.splits)
  moreover from this(1) obtain ips net where "rc1 = rc\<lparr>rc_CIDRs := rc_CIDRs rc @ [CIDR a],
      rc_CIDRsByLabel := gm_put (LabelValue a) (CIDR a) (rc_CIDRsByLabel rc),
      rc_ReservedIPsByCIDR := gm_put (CIDR a) ips (rc_ReservedIPsByCIDR rc),
      rc_NetCIDRByCIDR := gm_put (CIDR a) net (rc_NetCIDRByCIDR rc)\<rparr>"
    by (cases "ParseCIDR (CIDR a)") (auto simp: load_assignment_def Let_def split: sum.splits prod.splits if_splits)
  ultimately show ?case using Cons.IH [of rc1] by auto
qed simp

text \<open>A node that is listed under a CIDR carries the label of an assignment of the EgressIPAM.\<close>

lemma listed_node_label:
  assumes "loadReconcileContext E P p x h = (Inr (rc, infra), h')"
    and "(name, nd) \<in> set (rc_SelectedNodes rc)" "name \<in> set (gm_get [] (rc_SelectedNodesByCIDR rc) c)"
  shows "\<exists>v. map_of (node_labels nd) (TopologyLabel x) = Some v \<and> v \<in> LabelValue ` set (CIDRAssignments x)"
proof -
  from loadReconcileContext_reads_cluster [OF assms(1)] obtain nodes subnets items nns where
    lists: "list_nodes E h = Inr nodes" "list_hostsubnets E h = Inr subnets" "list_namespaces E h = Inr items" "list_netnamespaces E h = Inr nns"
    and x: "rc_EgressIPAM rc = x" unfolding reads_cluster_def by blast
  obtain rcs rc0 matches where rcs: "load_secret E h (empty_rc p x) = Inr rcs"
    and rc0: "go_for load_assignment (CIDRAssignments x) rcs = Inr rc0" and rc: "loaded_from E rc0 matches nodes subnets items nns rc"
    by (rule loadReconcileContext_lists [OF assms(1) lists])
  have "rc_CIDRsByLabel rcs = []" using rcs by (auto simp: load_secret_def empty_rc_def split: if_splits)
  then have labels: "fst ` set (rc_CIDRsByLabel rc) \<subseteq> LabelValue ` set (CIDRAssignments x)"
    using load_assignments_labels [OF rc0] rc by (simp add: loaded_from_def)
  have "distinct (gm_keys (rc_AllNodes rc))" using rc by (simp add: loaded_from_def distinct_fold_put_by_name)
  then have "distinct (gm_keys (rc_SelectedNodes rc))" using rc by (simp add: loaded_from_def distinct_map_filter)
  with assms(2) have "gm_get zero_node (rc_SelectedNodes rc) name = nd" by (simp add: gm_get_def)
  then have "node_cidr rc nd = Some c"
    using assms(3) rc by (auto simp: loaded_from_def by_cidr_def by_cidr_loop)
  then obtain v where "map_of (node_labels nd) (TopologyLabel x) = Some v" "map_of (rc_CIDRsByLabel rc) v = Some c"
    by (auto simp: node_cidr_def x split: option.splits)
  with labels show ?thesis by (force dest: map_of_SomeD)
qed

end
