(* ===== verification/Setup.thy ===== *)
theory Setup
  imports NamespaceController Platforms Loaded
begin

text \<open>
  The start of the operator: \<open>SetupWithManager\<close> of both controllers, which asks for cloud
  credentials and says which events of the watched objects put which names into the queue
  (\<open>egressipam_controller.go\<close> from line 606, \<open>namespace_controller.go\<close> from line 108, and the
  constants of \<open>aws.go\<close> and \<open>azure.go\<close>). Building the controllers is controller-runtime's.
\<close>

section \<open>The credentials request\<close>

definition GetAWSCredentialsRequestProviderSpec :: provider_spec where
  "GetAWSCredentialsRequestProviderSpec = AWSProviderSpec
     [([''ec2:DescribeInstances'', ''ec2:UnassignPrivateIpAddresses'', ''ec2:AssignPrivateIpAddresses'',
        ''ec2:DescribeSubnets'', ''ec2:DescribeNetworkInterfaces'', ''ec2:DescribeInstanceTypes''], ''Allow'', ''*'')]"

definition GetAzureCredentialsRequestProviderSpec :: provider_spec where
  "GetAzureCredentialsRequestProviderSpec = AzureProviderSpec [''Contributor'']"

text \<open>The only object it is called with is the credentials request.\<close>

definition createOrUpdateResourceWithClient ::
  "goenv \<Rightarrow> string option \<Rightarrow> string \<Rightarrow> credentials_request \<Rightarrow> (history, unit) action" where
  "createOrUpdateResourceWithClient E owner namespace obj h =
     (let obj = (case owner of None \<Rightarrow> obj | Some x \<Rightarrow> set_controller_reference E x obj);
          obj = (if namespace \<noteq> '''' then obj\<lparr>cr_Namespace := namespace\<rparr> else obj) in
      (case get_credentials_request E (cr_Namespace obj) (cr_Name obj) h of
         Inl (NotFound _) \<Rightarrow> perform_w E (CreateCredentialsRequest obj) h
       | Inr resourceVersion \<Rightarrow> perform_w E (UpdateCredentialsRequest (obj\<lparr>cr_ResourceVersion := resourceVersion\<rparr>)) h
       | Inl e \<Rightarrow> (Inl e, h)))"

definition createCredentialRequest :: "goenv \<Rightarrow> platform \<Rightarrow> (history, unit) action" where
  "createCredentialRequest E p h =
     (case (case p of
              AWSPlatformType \<Rightarrow> Some GetAWSCredentialsRequestProviderSpec
            | AzurePlatformType \<Rightarrow> Some GetAzureCredentialsRequestProviderSpec
            | _ \<Rightarrow> None) of
        None \<Rightarrow> (Inr (), h)
      | Some providerSpec \<Rightarrow>
          bind_w (pure_w (get_operator_namespace E)) (\<lambda>namespace.
            let request = \<lparr>cr_Namespace = ''openshift-cloud-credential-operator'', cr_Name = ''egress-ipam-operator'',
                  cr_ResourceVersion = '''', cr_OwnerReferences = [],
                  cr_SecretRef = (namespace, credentialsSecretName), cr_ProviderSpec = providerSpec\<rparr> in
            (case direct_client E of
               Some e \<Rightarrow> pure_w (Inl e)
             | None \<Rightarrow> createOrUpdateResourceWithClient E None '''' request)) h)"

text \<open>What \<open>SetupWithManager\<close> does before it builds the controller; the platform it stores.\<close>

definition setup_platform :: "goenv \<Rightarrow> (history, platform) action" where
  "setup_platform E h =
     (case direct_client E of
        Some e \<Rightarrow> (Inl e, h)
      | None \<Rightarrow>
          bind_w (pure_w (get_infrastructure E h)) (\<lambda>infrastructure.
          bind_w (createCredentialRequest E infrastructure) (\<lambda>u. pure_w (Inr infrastructure))) h)"

section \<open>The watches\<close>

datatype 'a event = Created 'a | Updated 'a 'a | Deleted 'a | Generic 'a

text \<open>A predicate lets an event pass, and the handler of its kind puts names into the queue.\<close>

definition node_passes :: "kobject event \<Rightarrow> bool" where
  "node_passes ev = (case ev of
     Updated old new \<Rightarrow> IsCreatedOrDeletedOrReadinessChanged old new
   | Created obj \<Rightarrow> True | Deleted obj \<Rightarrow> True | Generic obj \<Rightarrow> False)"

definition hostsubnet_passes :: "kobject event \<Rightarrow> bool" where
  "hostsubnet_passes ev = (case ev of
     Updated old new \<Rightarrow> IsCreatedORDeletedOrIsEgressCIDRsChanged old new
   | Created obj \<Rightarrow> True | Deleted obj \<Rightarrow> True | Generic obj \<Rightarrow> False)"

definition namespace_passes :: "namespace event \<Rightarrow> bool" where
  "namespace_passes ev = (case ev of
     Updated old new \<Rightarrow> IsAnnotated_Update (ns_annotations old) (ns_annotations new)
   | Created obj \<Rightarrow> IsAnnotated_CreateDelete (ns_annotations obj)
   | Deleted obj \<Rightarrow> IsAnnotated_CreateDelete (ns_annotations obj) | Generic obj \<Rightarrow> False)"

definition netnamespace_passes :: "kobject event \<Rightarrow> bool" where
  "netnamespace_passes ev = (case ev of
     Updated old new \<Rightarrow> IsCreatedOrIsEgressIPsChanged old new
   | Created obj \<Rightarrow> True | Deleted obj \<Rightarrow> False | Generic obj \<Rightarrow> False)"

definition node_queue :: "goenv \<Rightarrow> kobject event \<Rightarrow> history \<Rightarrow> string list" where
  "node_queue E ev h = (if node_passes ev then (case ev of
     Created obj \<Rightarrow> Node_Create E obj h | Updated old new \<Rightarrow> Node_Update E old new h | _ \<Rightarrow> []) else [])"

definition hostsubnet_queue :: "goenv \<Rightarrow> kobject event \<Rightarrow> history \<Rightarrow> string list" where
  "hostsubnet_queue E ev h = (if hostsubnet_passes ev then (case ev of
     Created obj \<Rightarrow> HostSubnet_Create E obj h | Updated old new \<Rightarrow> HostSubnet_Update E old new h
   | Deleted obj \<Rightarrow> HostSubnet_Delete E obj h | Generic obj \<Rightarrow> []) else [])"

definition namespace_queue :: "namespace event \<Rightarrow> string list" where
  "namespace_queue ev = (if namespace_passes ev then (case ev of
     Created obj \<Rightarrow> Namespace_Create obj | Updated old new \<Rightarrow> Namespace_Update old new
   | Deleted obj \<Rightarrow> Namespace_Delete obj | Generic obj \<Rightarrow> []) else [])"

definition netnamespace_queue :: "goenv \<Rightarrow> kobject event \<Rightarrow> history \<Rightarrow> string list" where
  "netnamespace_queue E ev h = (if netnamespace_passes ev then (case ev of
     Created obj \<Rightarrow> NetNamespace_Create E obj h | Updated old new \<Rightarrow> NetNamespace_Update E old new h | _ \<Rightarrow> []) else [])"

text \<open>The watch of the namespace controller.\<close>

definition opt_out_queue :: "namespace event \<Rightarrow> string list" where
  "opt_out_queue ev = (case ev of
     Updated old new \<Rightarrow> if IsAnnotated_namespace (ns_annotations old) (ns_annotations new) then [ns_name new] else []
   | _ \<Rightarrow> [])"

section \<open>What the start establishes\<close>

text \<open>
  C39. The credentials that are requested are those that are read. When the set-up of the
  operator succeeds, it has made one call on AWS and Azure, which was accepted: it created the
  credentials request, or updated the one that is there under its resource version, with the
  permissions of the platform, for the very secret that every later reconcile reads. On other
  platforms it has made none; on GCP, where a reconcile also reads the secret, each reconcile
  then fails as long as somebody else does not provide it.
\<close>

theorem setup_requests_the_secret_that_is_read:
  assumes "setup_platform E h = (Inr p, h')"
  shows "get_infrastructure E h = Inr p \<and> (\<exists>k. h' = h @ k \<and>
    (p = AWSPlatformType \<or> p = AzurePlatformType \<longrightarrow> (\<exists>r.
       (case get_credentials_request E (cr_Namespace r) (cr_Name r) h of
          Inl e \<Rightarrow> k = [(CreateCredentialsRequest r, None)]
        | Inr v \<Rightarrow> k = [(UpdateCredentialsRequest r, None)] \<and> cr_ResourceVersion r = v) \<and>
       cr_ProviderSpec r = (if p = AWSPlatformType then GetAWSCredentialsRequestProviderSpec else GetAzureCredentialsRequestProviderSpec) \<and>
       (\<forall>h2. GetCredentialSecret E h2 = get_secret E (fst (cr_SecretRef r)) (snd (cr_SecretRef r)) h2))) \<and>
    (p \<noteq> AWSPlatformType \<and> p \<noteq> AzurePlatformType \<longrightarrow> k = []) \<and>
    (p = GCPPlatformType \<longrightarrow> (\<forall>P x h2 e. GetCredentialSecret E h2 = Inl e \<longrightarrow> loadReconcileContext E P p x h2 = (Inl e, h2))))"
proof -
  have started: "direct_client E = None" "get_infrastructure E h = Inr p" "createCredentialRequest E p h = (Inr (), h')"
    using assms by (auto simp: setup_platform_def bind_w_def pure_w_def split: option.splits sum.splits prod.splits)
  have gcp: "loadReconcileContext E P GCPPlatformType x h2 = (Inl e, h2)" if "GetCredentialSecret E h2 = Inl e" for P x h2 e
    using that by (simp add: loadReconcileContext_def load_cluster_def load_secret_def isCloudInfrastructure_def
        empty_rc_def bind_w_def pure_w_def)
  show ?thesis
  proof (cases "p = AWSPlatformType \<or> p = AzurePlatformType")
    case False
    then have "h' = h" using started(3) by (cases p) (simp_all add: createCredentialRequest_def)
    with False started(2) gcp show ?thesis by auto
  next
    case True
    let ?spec = "if p = AWSPlatformType then GetAWSCredentialsRequestProviderSpec else GetAzureCredentialsRequestProviderSpec"
    obtain ns where ns: "get_operator_namespace E = Inr ns"
      using started(3) True by (cases "get_operator_namespace E") (auto simp: createCredentialRequest_def bind_w_def pure_w_def)
    let ?r = "\<lparr>cr_Namespace = ''openshift-cloud-credential-operator'', cr_Name = ''egress-ipam-operator'',
      cr_ResourceVersion = '''', cr_OwnerReferences = [], cr_SecretRef = (ns, credentialsSecretName), cr_ProviderSpec = ?spec\<rparr>"
    have run: "createOrUpdateResourceWithClient E None '''' ?r h = (Inr (), h')"
      using started(1,3) True ns by (auto simp: createCredentialRequest_def bind_w_def pure_w_def)
    have call: "h' = h @ [(c, None)]" if "perform_w E c h = (Inr (), h')" for c
      using that by (auto simp: perform_w_def perform_def Let_def split: option.splits)
    have secret: "GetCredentialSecret E h2 = get_secret E ns credentialsSecretName h2" for h2
      using ns by (simp add: GetCredentialSecret_def)
    let ?ok = "\<lambda>r k. h' = h @ k \<and>
      (case get_credentials_request E (cr_Namespace r) (cr_Name r) h of
         Inl e \<Rightarrow> k = [(CreateCredentialsRequest r, None)]
       | Inr v \<Rightarrow> k = [(UpdateCredentialsRequest r, None)] \<and> cr_ResourceVersion r = v) \<and> cr_ProviderSpec r = ?spec \<and>
      (\<forall>h2. GetCredentialSecret E h2 = get_secret E (fst (cr_SecretRef r)) (snd (cr_SecretRef r)) h2)"
    have "\<exists>r k. ?ok r k"
    proof (cases "get_credentials_request E (cr_Namespace ?r) (cr_Name ?r) h")
      case (Inl e)
      then have "perform_w E (CreateCredentialsRequest ?r) h = (Inr (), h')"
        using run by (cases e) (simp_all add: createOrUpdateResourceWithClient_def)
      from call [OF this] Inl secret have "?ok ?r [(CreateCredentialsRequest ?r, None)]" by simp
      then show ?thesis by blast
    next
      case (Inr v)
      let ?u = "?r\<lparr>cr_ResourceVersion := v\<rparr>"
      have "perform_w E (UpdateCredentialsRequest ?u) h = (Inr (), h')"
        using run Inr by (simp add: createOrUpdateResourceWithClient_def)
      from call [OF this] Inr secret have "?ok ?u [(UpdateCredentialsRequest ?u, None)]" by simp
      then show ?thesis by blast
    qed
    then obtain r k where ok: "?ok r k" by blast
    then have "h' = h @ k" by blast
    moreover have "\<exists>r. (case get_credentials_request E (cr_Namespace r) (cr_Name r) h of
         Inl e \<Rightarrow> k = [(CreateCredentialsRequest r, None)]
       | Inr v \<Rightarrow> k = [(UpdateCredentialsRequest r, None)] \<and> cr_ResourceVersion r = v) \<and> cr_ProviderSpec r = ?spec \<and>
      (\<forall>h2. GetCredentialSecret E h2 = get_secret E (fst (cr_SecretRef r)) (snd (cr_SecretRef r)) h2)" using ok by blast
    moreover have "p \<noteq> GCPPlatformType" using True by auto
    ultimately show ?thesis using started(2) True by blast
  qed
qed

text \<open>
  C40. Which events put which EgressIPAMs into the queue. When the readiness or the annotations of
  a node change, those are queued whose topology label the node carries with the value of one of
  their assignments, whatever their node selector; when neither changes, none is, also when the
  labels do. That is enough for readiness: an EgressIPAM that the cycle of any earlier reconcile
  had the node listed under a CIDR for, with the labels it still has, is queued when the node
  fails or recovers. When a HostSubnet is deleted, those are queued that have a CIDR that
  contains its host address with no CIDR before it that does not parse; for a valid EgressIPAM,
  that is every one with a CIDR that contains it.
\<close>

theorem node_readiness_is_noticed:
  assumes "list_egressipams E h = Inr items"
  shows "set (node_queue E (Updated (KNode old) (KNode new)) h) =
      (if ((''Ready'', ''True'') \<in> set (node_conditions old)) \<noteq> ((''Ready'', ''True'') \<in> set (node_conditions new)) \<or>
          \<not> DeepEqual_map (node_annotations old) (node_annotations new)
       then {ei_name x |x v a. x \<in> set items \<and> a \<in> set (CIDRAssignments x) \<and>
          map_of (node_labels new) (TopologyLabel x) = Some v \<and> LabelValue a = v} else {}) \<and>
    (\<forall>x P p h0 h1 rc infra name nd c. x \<in> set items \<and> loadReconcileContext E P p x h0 = (Inr (rc, infra), h1) \<and>
       (name, nd) \<in> set (rc_SelectedNodes rc) \<and> name \<in> set (gm_get [] (rc_SelectedNodesByCIDR rc) c) \<and>
       node_labels new = node_labels nd \<and>
       ((''Ready'', ''True'') \<in> set (node_conditions old)) \<noteq> ((''Ready'', ''True'') \<in> set (node_conditions new)) \<longrightarrow>
       ei_name x \<in> set (node_queue E (Updated (KNode old) (KNode new)) h)) \<and>
    set (hostsubnet_queue E (Deleted (KHostSubnet hs)) h) =
      {ei_name x |x as1 a as2 base net. x \<in> set items \<and> CIDRAssignments x = as1 @ a # as2 \<and>
         (\<forall>b \<in> set as1. \<not> isl (ParseCIDR (CIDR b))) \<and>
         ParseCIDR (CIDR a) = Inr (base, net) \<and> net_contains net (ParseIP (hs_hostIP hs))} \<and>
    (\<forall>x \<in> set items. IsValid (ClientEgressIPAM x) = (True, None) \<longrightarrow>
       (\<exists>a \<in> set (CIDRAssignments x). \<exists>base net. ParseCIDR (CIDR a) = Inr (base, net) \<and> net_contains net (ParseIP (hs_hostIP hs))) \<longrightarrow>
       ei_name x \<in> set (hostsubnet_queue E (Deleted (KHostSubnet hs)) h))"
proof (intro conjI)
  show node: "set (node_queue E (Updated (KNode old) (KNode new)) h) =
      (if ((''Ready'', ''True'') \<in> set (node_conditions old)) \<noteq> ((''Ready'', ''True'') \<in> set (node_conditions new)) \<or>
          \<not> DeepEqual_map (node_annotations old) (node_annotations new)
       then {ei_name x |x v a. x \<in> set items \<and> a \<in> set (CIDRAssignments x) \<and>
          map_of (node_labels new) (TopologyLabel x) = Some v \<and> LabelValue a = v} else {})"
    using assms by (auto simp: node_queue_def node_passes_def Node_Update_def IsCreatedOrDeletedOrReadinessChanged_def
        enqueue_matching_def getAllEgressIPAM_def is_ready_def isCondition_iff matchesNode_iff)
  show "\<forall>x P p h0 h1 rc infra name nd c. x \<in> set items \<and> loadReconcileContext E P p x h0 = (Inr (rc, infra), h1) \<and>
       (name, nd) \<in> set (rc_SelectedNodes rc) \<and> name \<in> set (gm_get [] (rc_SelectedNodesByCIDR rc) c) \<and>
       node_labels new = node_labels nd \<and>
       ((''Ready'', ''True'') \<in> set (node_conditions old)) \<noteq> ((''Ready'', ''True'') \<in> set (node_conditions new)) \<longrightarrow>
       ei_name x \<in> set (node_queue E (Updated (KNode old) (KNode new)) h)"
  proof (intro allI impI; elim conjE)
    fix x P p h0 h1 rc infra name nd c
    assume "x \<in> set items" "loadReconcileContext E P p x h0 = (Inr (rc, infra), h1)" "(name, nd) \<in> set (rc_SelectedNodes rc)"
      "name \<in> set (gm_get [] (rc_SelectedNodesByCIDR rc) c)" "node_labels new = node_labels nd"
      and flip: "((''Ready'', ''True'') \<in> set (node_conditions old)) \<noteq> ((''Ready'', ''True'') \<in> set (node_conditions new))"
    with listed_node_label [of E P p x h0 rc infra h1 name nd c]
    show "ei_name x \<in> set (node_queue E (Updated (KNode old) (KNode new)) h)" unfolding node by auto
  qed
  show host: "set (hostsubnet_queue E (Deleted (KHostSubnet hs)) h) =
      {ei_name x |x as1 a as2 base net. x \<in> set items \<and> CIDRAssignments x = as1 @ a # as2 \<and>
         (\<forall>b \<in> set as1. \<not> isl (ParseCIDR (CIDR b))) \<and>
         ParseCIDR (CIDR a) = Inr (base, net) \<and> net_contains net (ParseIP (hs_hostIP hs))}"
  proof -
    have "set (hostsubnet_queue E (Deleted (KHostSubnet hs)) h) = ei_name ` {x \<in> set items. fst (matchesHostSubnet x hs)}"
      using assms by (simp add: hostsubnet_queue_def hostsubnet_passes_def HostSubnet_Delete_def set_enqueue_matching getAllEgressIPAM_def)
    then show ?thesis unfolding matchesHostSubnet_def matching_cidr_iff by blast
  qed
  show "\<forall>x \<in> set items. IsValid (ClientEgressIPAM x) = (True, None) \<longrightarrow>
       (\<exists>a \<in> set (CIDRAssignments x). \<exists>base net. ParseCIDR (CIDR a) = Inr (base, net) \<and> net_contains net (ParseIP (hs_hostIP hs))) \<longrightarrow>
       ei_name x \<in> set (hostsubnet_queue E (Deleted (KHostSubnet hs)) h)"
  proof (intro ballI impI)
    fix x assume x: "x \<in> set items" "IsValid (ClientEgressIPAM x) = (True, None)"
      and "\<exists>a \<in> set (CIDRAssignments x). \<exists>base net. ParseCIDR (CIDR a) = Inr (base, net) \<and> net_contains net (ParseIP (hs_hostIP hs))"
    then obtain as1 a as2 base net where a: "CIDRAssignments x = as1 @ a # as2" "ParseCIDR (CIDR a) = Inr (base, net)"
      "net_contains net (ParseIP (hs_hostIP hs))" by (meson split_list)
    have "\<not> isl (ParseCIDR (CIDR b))" if "b \<in> set as1" for b
      using x(2) that a(1) unfolding IsValid_iff_ok assignment_ok_def by (metis in_set_conv_decomp isl_def Inr_not_Inl append_assoc append_Cons)
    with x(1) a show "ei_name x \<in> set (hostsubnet_queue E (Deleted (KHostSubnet hs)) h)" unfolding host by blast
  qed
qed

section \<open>Witnesses\<close>

definition example_start :: goenv where
  "example_start = example_env\<lparr>get_infrastructure := (\<lambda>h. Inr AWSPlatformType),
     get_credentials_request := (\<lambda>ns n h. Inr ''41'')\<rparr>"

theorem setup_requests_the_secret_that_is_read_witness:
  "\<exists>r. snd (setup_platform example_start []) = [(UpdateCredentialsRequest r, None)] \<and> cr_ResourceVersion r = ''41'' \<and>
     cr_ProviderSpec r = GetAWSCredentialsRequestProviderSpec"
proof -
  have start: "fst (setup_platform example_start []) = Inr AWSPlatformType" by code_simp
  have v: "get_credentials_request example_start ns n [] = Inr ''41''" for ns n by (simp add: example_start_def)
  from setup_requests_the_secret_that_is_read [of example_start "[]" AWSPlatformType "snd (setup_platform example_start [])"] start
  show ?thesis by (auto simp: v prod_eq_iff)
qed

theorem node_readiness_is_noticed_witness:
  "ei_name example_instance \<in> set (node_queue (example_cluster\<lparr>list_egressipams := (\<lambda>h. Inr [example_instance])\<rparr>)
     (Updated (KNode (example_node ''n1'' ''a'' True)) (KNode (example_node ''n1'' ''a'' False))) []) \<and>
   set (hostsubnet_queue (example_cluster\<lparr>list_egressipams := (\<lambda>h. Inr [example_instance])\<rparr>)
     (Deleted (KHostSubnet (example_hs ''n9'' ''192.168.0.1'' []))) []) = {}"
proof -
  let ?E = "example_cluster\<lparr>list_egressipams := (\<lambda>h. Inr [example_instance])\<rparr>"
  have list: "list_egressipams ?E [] = Inr [example_instance]" by simp
  obtain rc where load: "loadReconcileContext ?E example_platforms (OtherPlatform ''None'') example_instance [] = (Inr (rc, BareMetalInfra), [])"
    and rc: "(''n1'', example_node ''n1'' ''a'' True) \<in> set (rc_SelectedNodes rc)"
      "''n1'' \<in> set (gm_get [] (rc_SelectedNodesByCIDR rc) ''10.0.0.0/29'')"
  proof (rule that)
    have 1: "load_cluster ?E (OtherPlatform ''None'') example_instance [] =
        Inr (example_loaded\<lparr>rc_UsedIPsByCIDR := []\<rparr>)" by code_simp
    have 2: "make_infra ?E example_platforms (example_loaded\<lparr>rc_UsedIPsByCIDR := []\<rparr>) h = (Inr BareMetalInfra, h)" for h
      by (simp add: make_infra_def example_loaded_def example_rc_def Let_def pure_w_def)
    have 3: "load_used ?E BareMetalInfra (example_loaded\<lparr>rc_UsedIPsByCIDR := []\<rparr>) [] = (Inr example_loaded, [])"
      by code_simp
    show "loadReconcileContext ?E example_platforms (OtherPlatform ''None'') example_instance [] = (Inr (example_loaded, BareMetalInfra), [])"
      by (simp add: loadReconcileContext_def bind_w_def pure_w_def 1 2 3)
    show "(''n1'', example_node ''n1'' ''a'' True) \<in> set (rc_SelectedNodes example_loaded)"
      "''n1'' \<in> set (gm_get [] (rc_SelectedNodesByCIDR example_loaded) ''10.0.0.0/29'')" by code_simp+
  qed
  have v: "(''Ready'', ''True'') \<in> set (node_conditions (example_node ''n1'' ''a'' True))"
    "(''Ready'', ''True'') \<notin> set (node_conditions (example_node ''n1'' ''a'' False))"
    "node_labels (example_node ''n1'' ''a'' False) = node_labels (example_node ''n1'' ''a'' True)" by code_simp+
  note noticed = node_readiness_is_noticed [OF list, where old = "example_node ''n1'' ''a'' True"
      and new = "example_node ''n1'' ''a'' False" and hs = "example_hs ''n9'' ''192.168.0.1'' []"]
  have cidrs: "map CIDR (CIDRAssignments example_instance) = [''10.0.0.0/29'', ''10.0.1.0/29'']" by code_simp
  have parsed: "ParseCIDR ''10.0.0.0/29'' = Inr (IPv4 0x0A000000, Net4 0x0A000000 29)"
    "ParseCIDR ''10.0.1.0/29'' = Inr (IPv4 0x0A000100, Net4 0x0A000100 29)"
    "\<not> net_contains (Net4 0x0A000000 29) (ParseIP (hs_hostIP (example_hs ''n9'' ''192.168.0.1'' [])))"
    "\<not> net_contains (Net4 0x0A000100 29) (ParseIP (hs_hostIP (example_hs ''n9'' ''192.168.0.1'' [])))" by code_simp+
  have "\<not> net_contains net (ParseIP (hs_hostIP (example_hs ''n9'' ''192.168.0.1'' [])))"
    if "CIDRAssignments example_instance = as1 @ a # as2" "ParseCIDR (CIDR a) = Inr (base, net)" for as1 a as2 base net
  proof -
    have "CIDR a \<in> set (map CIDR (CIDRAssignments example_instance))" using that(1) by simp
    with parsed that(2) show ?thesis unfolding cidrs by auto
  qed
  then have "set (hostsubnet_queue ?E (Deleted (KHostSubnet (example_hs ''n9'' ''192.168.0.1'' []))) []) = {}"
    using noticed by (auto simp del: net_contains.simps)
  moreover have "ei_name example_instance \<in> set (node_queue ?E (Updated (KNode (example_node ''n1'' ''a'' True))
      (KNode (example_node ''n1'' ''a'' False))) [])"
    using conjunct1 [OF conjunct2 [OF noticed]] load rc v by (metis list.set_intros(1))
  ultimately show ?thesis by blast
qed

end
