(* ===== verification/RoundTrip.thy ===== *)
theory RoundTrip
  imports Allocation
begin

text \<open>
  The annotation of a namespace as a text that is written and read: \<open>assignIPsToNamespaces\<close>
  prints the drawn addresses into it (\<open>IP.String\<close>, \<open>strings.Join\<close>), \<open>sortIPsByCIDR\<close> of the next
  cycle parses it (\<open>strings.Split\<close>, \<open>net.ParseIP\<close>), at the place of each CIDR.
\<close>

section \<open>Reading an annotation\<close>

text \<open>The loop over the CIDRs succeeds on addresses of their networks, and appends each of them.\<close>

lemma sort_assigned_succeeds:
  assumes "\<forall>(i, c) \<in> set xs. i < length ips \<and> ParseIP (ips ! i) \<noteq> NilIP \<and>
    (\<exists>net. map_of (rc_NetCIDRByCIDR rc) c = Some net \<and> net_contains net (ParseIP (ips ! i)))"
  shows "\<exists>m'. go_for (sort_assigned rc n ips) xs m = Inr m' \<and>
    (\<forall>c. gm_get [] m' c = gm_get [] m c @ map (\<lambda>(i, d). ParseIP (ips ! i)) (filter (\<lambda>(i, d). d = c) xs))"
  using assms
proof (induction xs arbitrary: m)
  case (Cons x xs)
  obtain i d where x: "x = (i, d)" by (cases x)
  with Cons.prems obtain net where head: "i < length ips" "ParseIP (ips ! i) \<noteq> NilIP"
    "map_of (rc_NetCIDRByCIDR rc) d = Some net" "net_contains net (ParseIP (ips ! i))" by auto
  let ?m = "gm_put d (gm_get [] m d @ [ParseIP (ips ! i)]) m"
  have step: "sort_assigned rc n ips x m = Inr ?m" using head by (simp add: sort_assigned_def x Let_def not_le)
  from Cons obtain m' where m': "go_for (sort_assigned rc n ips) xs ?m = Inr m'"
    "\<forall>c. gm_get [] m' c = gm_get [] ?m c @ map (\<lambda>(i, d). ParseIP (ips ! i)) (filter (\<lambda>(i, d). d = c) xs)"
    by (meson list.set_intros(2))
  then show ?case by (intro exI [of _ m']) (simp add: step [unfolded x] x gm_get_put)
qed simp

lemma filter_enumerate:
  assumes "distinct xs" "i < length xs"
  shows "filter (\<lambda>(j, d). d = xs ! i) (enumerate k xs) = [(k + i, xs ! i)]"
  using assms
proof (induction xs arbitrary: i k)
  case (Cons x xs)
  show ?case
  proof (cases i)
    case 0
    have "filter (\<lambda>(j, d). d = x) (enumerate (Suc k) xs) = []"
      using Cons.prems(1) by (auto simp: filter_empty_conv in_set_enumerate_eq)
    then show ?thesis by (simp add: 0)
  next
    case (Suc j)
    then have "x \<noteq> xs ! j" using Cons.prems by auto
    then show ?thesis using Cons.IH [of j "Suc k"] Cons.prems Suc by simp
  qed
qed simp

text \<open>Hence \<open>sortIPsByCIDR\<close> reads namespaces one after the other.\<close>

definition readable :: "rcontext \<Rightarrow> namespace \<Rightarrow> bool" where
  "readable rc n \<longleftrightarrow> (\<exists>v. ns_ips n = Some v \<and> length (rc_CIDRs rc) \<le> length (split_on (CHR '','') v)) \<and>
     (\<forall>i < length (rc_CIDRs rc). ns_addr n i \<noteq> NilIP \<and>
       (\<exists>net. map_of (rc_NetCIDRByCIDR rc) (rc_CIDRs rc ! i) = Some net \<and> net_contains net (ns_addr n i)))"

definition sort_one :: "rcontext \<Rightarrow> namespace \<Rightarrow> (string, ip list) gomap \<Rightarrow> err + (string, ip list) gomap" where
  "sort_one rc n m =
     (case ns_ips n of
        None \<Rightarrow> Inr m
      | Some value \<Rightarrow> go_for (sort_assigned rc n (split_on (CHR '','') value)) (enumerate 0 (rc_CIDRs rc)) m)"

lemma sortIPsByCIDR_loop:
  "sortIPsByCIDR rc = go_for (sort_one rc) (rc_InitiallyAssignedNamespaces rc) (empty_by_cidr (rc_CIDRs rc))"
  by (simp add: sortIPsByCIDR_def sort_one_def [abs_def])

lemma sort_one_same: "sort_one (rc\<lparr>rc_InitiallyAssignedNamespaces := ns\<rparr>) = sort_one rc"
proof -
  have net: "rc_NetCIDRByCIDR (rc\<lparr>rc_InitiallyAssignedNamespaces := ns\<rparr>) = rc_NetCIDRByCIDR rc" by simp
  have "sort_assigned (rc\<lparr>rc_InitiallyAssignedNamespaces := ns\<rparr>) = sort_assigned rc"
    unfolding sort_assigned_def net ..
  moreover have "rc_CIDRs (rc\<lparr>rc_InitiallyAssignedNamespaces := ns\<rparr>) = rc_CIDRs rc" by simp
  ultimately show ?thesis unfolding sort_one_def [abs_def] by (simp only:)
qed

lemma sort_one_readable:
  assumes "readable rc n" "distinct (rc_CIDRs rc)"
  shows "\<exists>m'. sort_one rc n m = Inr m' \<and>
    (\<forall>i < length (rc_CIDRs rc). gm_get [] m' (rc_CIDRs rc ! i) = gm_get [] m (rc_CIDRs rc ! i) @ [ns_addr n i])"
proof -
  from assms(1) obtain v where v: "ns_ips n = Some v" "length (rc_CIDRs rc) \<le> length (split_on (CHR '','') v)"
    by (auto simp: readable_def)
  let ?ips = "split_on (CHR '','') v"
  have addr: "ns_addr n i = ParseIP (?ips ! i)" if "i < length (rc_CIDRs rc)" for i
    using that v by (simp add: ns_addr_def)
  have "\<forall>(i, c) \<in> set (enumerate 0 (rc_CIDRs rc)). i < length ?ips \<and> ParseIP (?ips ! i) \<noteq> NilIP \<and>
      (\<exists>net. map_of (rc_NetCIDRByCIDR rc) c = Some net \<and> net_contains net (ParseIP (?ips ! i)))"
    using assms(1) addr v(2) by (auto simp: readable_def enumerate_mem)
  from sort_assigned_succeeds [OF this, of n m] obtain m' where
    "go_for (sort_assigned rc n ?ips) (enumerate 0 (rc_CIDRs rc)) m = Inr m'"
    "\<forall>c. gm_get [] m' c = gm_get [] m c @ map (\<lambda>(i, d). ParseIP (?ips ! i)) (filter (\<lambda>(i, d). d = c) (enumerate 0 (rc_CIDRs rc)))"
    by blast
  then show ?thesis
    by (intro exI [of _ m']) (simp add: sort_one_def v(1) addr filter_enumerate [OF assms(2)])
qed

lemma sort_readable:
  assumes "\<forall>n \<in> set ns. readable rc n" "distinct (rc_CIDRs rc)"
  shows "\<exists>m'. go_for (sort_one rc) ns m = Inr m' \<and>
    (\<forall>i < length (rc_CIDRs rc). gm_get [] m' (rc_CIDRs rc ! i) =
       gm_get [] m (rc_CIDRs rc ! i) @ map (\<lambda>n. ns_addr n i) ns)"
  using assms(1)
proof (induction ns arbitrary: m)
  case (Cons n ns)
  from sort_one_readable [OF _ assms(2), of n m] Cons.prems obtain m1 where m1: "sort_one rc n m = Inr m1"
    "\<forall>i < length (rc_CIDRs rc). gm_get [] m1 (rc_CIDRs rc ! i) = gm_get [] m (rc_CIDRs rc ! i) @ [ns_addr n i]" by auto
  from Cons.IH [of m1] Cons.prems obtain m' where "go_for (sort_one rc) ns m1 = Inr m'"
    "\<forall>i < length (rc_CIDRs rc). gm_get [] m' (rc_CIDRs rc ! i) =
       gm_get [] m1 (rc_CIDRs rc ! i) @ map (\<lambda>n. ns_addr n i) ns" by auto
  with m1 show ?case by (intro exI [of _ m']) simp
qed simp

section \<open>What is written is read\<close>

lemma in_cidr_of_context:
  assumes "cidrs_ok rc" "c \<in> set (rc_CIDRs rc)" "in_cidr c a"
  shows "\<exists>net. map_of (rc_NetCIDRByCIDR rc) c = Some net \<and> net_contains net a" and "is_IPv4 a"
proof -
  obtain w b k where c: "ParseCIDR c = Inr (IPv4 w, Net4 b k)"
    "map_of (rc_NetCIDRByCIDR rc) c = Some (Net4 b k)" by (rule cidrs_okE [OF assms(1,2)])
  have "net_contains (Net4 b k) a" using assms(3) c(1) by (simp add: in_cidr_def del: net_contains.simps)
  with c(2) show "\<exists>net. map_of (rc_NetCIDRByCIDR rc) c = Some net \<and> net_contains net a" by blast
  show "is_IPv4 a" by (rule in_cidr_IPv4 [OF c(1) ParseCIDR_net_ok(3) [OF c(1)] assms(3)])
qed

lemma annotated_ips:
  assumes "annotated rc n p n'" "\<forall>c \<in> set (rc_CIDRs rc). is_IPv4 (gm_get NilIP p c)"
  shows "\<exists>v. ns_ips n' = Some v \<and> length (rc_CIDRs rc) \<le> length (split_on (CHR '','') v)"
proof (cases "rc_CIDRs rc = []")
  case False
  let ?strs = "map (\<lambda>cidr. IP_String (gm_get NilIP p cidr)) (rc_CIDRs rc)"
  have "split_on (CHR '','') (join_with (CHR '','') ?strs) = ?strs"
  proof (rule split_join)
    show "?strs \<noteq> []" using False by simp
    show "\<forall>f \<in> set ?strs. CHR '','' \<notin> set f"
      using assms(2) comma_not_in_String by (fastforce elim: is_IPv4.elims)
  qed
  then have "length (rc_CIDRs rc) = length (split_on (CHR '','') (join_with (CHR '','') ?strs))"
    by (simp only: length_map)
  then show ?thesis using assms(1) by (auto simp: annotated_def ns_ips_def getAnnotation_set)
qed (use assms(1) in \<open>auto simp: annotated_def ns_ips_def getAnnotation_set\<close>)

lemma annotated_readable:
  assumes "cidrs_ok rc" "annotated rc n p n'" "\<forall>c \<in> set (rc_CIDRs rc). in_cidr c (gm_get NilIP p c)"
  shows "readable rc n'" and "i < length (rc_CIDRs rc) \<Longrightarrow> ns_addr n' i = gm_get NilIP p (rc_CIDRs rc ! i)"
proof -
  have v4: "\<forall>c \<in> set (rc_CIDRs rc). is_IPv4 (gm_get NilIP p c)"
    using in_cidr_of_context(2) [OF assms(1)] assms(3) by blast
  have addr: "ns_addr n' i = gm_get NilIP p (rc_CIDRs rc ! i)" if "i < length (rc_CIDRs rc)" for i
    by (rule annotated_facts(1) [OF assms(2) that v4])
  then show "i < length (rc_CIDRs rc) \<Longrightarrow> ns_addr n' i = gm_get NilIP p (rc_CIDRs rc ! i)" .
  have "ns_addr n' i \<noteq> NilIP \<and>
      (\<exists>net. map_of (rc_NetCIDRByCIDR rc) (rc_CIDRs rc ! i) = Some net \<and> net_contains net (ns_addr n' i))"
    if i: "i < length (rc_CIDRs rc)" for i
  proof -
    note c = nth_mem [OF i]
    have "ns_addr n' i \<noteq> NilIP" using v4 c unfolding addr [OF i] by force
    then show ?thesis using in_cidr_of_context(1) [OF assms(1) c] assms(3) c unfolding addr [OF i] by blast
  qed
  then show "readable rc n'" unfolding readable_def using annotated_ips [OF assms(2) v4] by blast
qed

text \<open>The draws of \<open>assignIPsToNamespaces\<close>, as the annotations of the updated namespaces show them.\<close>

lemma assigned_draws:
  assumes "range_laws E" "ipmath_laws E" "u32set_laws E" "strset_laws E" and "cidrs_ok rc"
    and "GetUsedIPsByCIDR infra rc h = (Inr infraIPs, h1)" and "used_ips_ok (rc_CIDRs rc) infraIPs"
    and "assignIPsToNamespaces E infra rc h = (Inr newly, h2)"
  obtains known m ps m' where "knownIPsByCIDR E rc = Inr known"
    "m = sortAll E (removeDuplicates E (appendIPs E 62 infraIPs known))"
    "draws (getNextAvailableIPs E) m ps m'" "length ps = length (rc_UnAssignedNamespaces rc)" "length newly = length ps"
    "\<forall>n \<in> set newly. readable rc n"
    "\<And>i j. j < length newly \<Longrightarrow> i < length (rc_CIDRs rc) \<Longrightarrow> ns_addr (newly ! j) i = gm_get NilIP (ps ! j) (rc_CIDRs rc ! i)"
    "\<And>j. j < length newly \<Longrightarrow> annotated rc (rc_UnAssignedNamespaces rc ! j) (ps ! j) (newly ! j)"
proof -
  let ?uns = "rc_UnAssignedNamespaces rc"
  from assms(6,8) obtain known mf where known: "knownIPsByCIDR E rc = Inr known"
    and loop: "go_for_w (assignNamespace E rc) ?uns
      (sortAll E (removeDuplicates E (appendIPs E 62 infraIPs known)), []) h1 = (Inr (mf, newly), h2)"
    by (auto simp: assignIPsToNamespaces_def Let_def split: sum.splits prod.splits)
  let ?m = "sortAll E (removeDuplicates E (appendIPs E 62 infraIPs known))"
  note used = usedIPsByCIDR_ok [OF assms(1-4) knownIPsByCIDR_ok [OF assms(1,2,5) known] assms(7)]
  from assignNamespace_loop [OF loop] obtain ps where draws: "draws (getNextAvailableIPs E) ?m ps mf"
    and len: "length ps = length ?uns" "length newly = length ?uns"
    and ann: "\<forall>j < length ?uns. annotated rc (?uns ! j) (ps ! j) (newly ! j)" by auto
  have inv: "range_laws E \<and> ipmath_laws E \<and> alloc_inv ?m" using assms(1,2) used(1) by simp
  have drawn: "in_cidr c (gm_get NilIP p c)" if "p \<in> set ps" "c \<in> set (rc_CIDRs rc)" for p c
    using ipam.draws_distinct(2) [OF draws inv, of c] used(2) that by auto
  have one: "readable rc (newly ! j)" "i < length (rc_CIDRs rc) \<Longrightarrow> ns_addr (newly ! j) i = gm_get NilIP (ps ! j) (rc_CIDRs rc ! i)"
    if "j < length newly" for i j
    using annotated_readable [OF assms(5) ann [rule_format, of j]] drawn [of "ps ! j"] that len by simp_all
  have "\<forall>n \<in> set newly. readable rc n" using one(1) by (auto simp: in_set_conv_nth)
  with known draws len one(2) show ?thesis by (intro that [OF known refl draws]) (simp_all add: ann [rule_format])
qed

text \<open>
  C22. Round trip of the annotation. After \<open>assignIPsToNamespaces\<close> has returned, a
  \<open>sortIPsByCIDR\<close> that finds the updated namespaces beside those that had addresses before
  succeeds, and reads for every CIDR, in order, the addresses that were known and then exactly
  the addresses that were drawn from the allocator: printing, joining, splitting and parsing
  lose nothing and mix up no CIDRs.
\<close>

theorem assigned_annotations_are_read_back:
  assumes "range_laws E" "ipmath_laws E" "u32set_laws E" "strset_laws E" and "cidrs_ok rc" "distinct (rc_CIDRs rc)"
    and "GetUsedIPsByCIDR infra rc h = (Inr infraIPs, h1)" and "used_ips_ok (rc_CIDRs rc) infraIPs"
    and "assignIPsToNamespaces E infra rc h = (Inr newly, h2)"
  shows "\<exists>known m ps m' before after.
    knownIPsByCIDR E rc = Inr known \<and> m = sortAll E (removeDuplicates E (appendIPs E 62 infraIPs known)) \<and>
    draws (getNextAvailableIPs E) m ps m' \<and> length ps = length (rc_UnAssignedNamespaces rc) \<and>
    sortIPsByCIDR rc = Inr before \<and>
    sortIPsByCIDR (rc\<lparr>rc_InitiallyAssignedNamespaces := rc_InitiallyAssignedNamespaces rc @ newly\<rparr>) = Inr after \<and>
    (\<forall>c \<in> set (rc_CIDRs rc). gm_get [] after c = gm_get [] before c @ map (\<lambda>p. gm_get NilIP p c) ps)"
proof -
  let ?rc = "rc\<lparr>rc_InitiallyAssignedNamespaces := rc_InitiallyAssignedNamespaces rc @ newly\<rparr>"
  obtain known m ps m' where known: "knownIPsByCIDR E rc = Inr known"
    and draws: "m = sortAll E (removeDuplicates E (appendIPs E 62 infraIPs known))" "draws (getNextAvailableIPs E) m ps m'"
      "length ps = length (rc_UnAssignedNamespaces rc)" "length newly = length ps"
    and readable: "\<forall>n \<in> set newly. readable rc n"
    and addr: "\<And>i j. j < length newly \<Longrightarrow> i < length (rc_CIDRs rc) \<Longrightarrow> ns_addr (newly ! j) i = gm_get NilIP (ps ! j) (rc_CIDRs rc ! i)"
    by (rule assigned_draws [OF assms(1-5,7-9)]) blast
  from known obtain before where before: "sortIPsByCIDR rc = Inr before"
    by (auto simp: knownIPsByCIDR_def bind_err_def split: sum.splits)
  from sort_readable [OF readable assms(6), of before] obtain after where
    "go_for (sort_one rc) newly before = Inr after"
    and get: "\<forall>i < length (rc_CIDRs rc). gm_get [] after (rc_CIDRs rc ! i) =
      gm_get [] before (rc_CIDRs rc ! i) @ map (\<lambda>n. ns_addr n i) newly" by blast
  with before have after: "sortIPsByCIDR ?rc = Inr after"
    by (simp add: sortIPsByCIDR_loop go_for_append bind_err_def sort_one_same)
  have "gm_get [] after (rc_CIDRs rc ! i) = gm_get [] before (rc_CIDRs rc ! i) @ map (\<lambda>p. gm_get NilIP p (rc_CIDRs rc ! i)) ps"
    if "i < length (rc_CIDRs rc)" for i
    using get that addr draws(4) by (auto intro: nth_equalityI)
  then have "\<forall>c \<in> set (rc_CIDRs rc). gm_get [] after c = gm_get [] before c @ map (\<lambda>p. gm_get NilIP p c) ps"
    by (auto simp: in_set_conv_nth)
  with known draws before after show ?thesis by blast
qed

section \<open>A witness\<close>

theorem assigned_annotations_are_read_back_witness:
  "case assignIPsToNamespaces example_env BareMetalInfra example_rc [] of
     (Inr newly, h2) \<Rightarrow>
       (case sortIPsByCIDR (example_rc\<lparr>rc_InitiallyAssignedNamespaces := rc_InitiallyAssignedNamespaces example_rc @ newly\<rparr>) of
          Inr after \<Rightarrow> (\<exists>ps. length ps = 2 \<and>
            (\<exists>before. gm_get [] after ''10.0.1.0/29'' = before @ map (\<lambda>p. gm_get NilIP p ''10.0.1.0/29'') ps))
        | _ \<Rightarrow> False)
   | _ \<Rightarrow> False"
proof -
  have used: "used_ips_ok (rc_CIDRs example_rc) (fold (\<lambda>cidr. gm_put cidr []) (rc_CIDRs example_rc) [])"
    by code_simp
  have rc: "distinct (rc_CIDRs example_rc)" "''10.0.1.0/29'' \<in> set (rc_CIDRs example_rc)"
    "length (rc_UnAssignedNamespaces example_rc) = 2" by code_simp+
  note at_example = assigned_annotations_are_read_back [OF example_env_laws(1,3,5,6) example_cidrs_ok
      rc(1) BareMetal_used used example_assignment [unfolded Let_def]]
  then obtain ps before after where
    "length ps = 2"
    "sortIPsByCIDR (example_rc\<lparr>rc_InitiallyAssignedNamespaces := rc_InitiallyAssignedNamespaces example_rc @
      [example_ns ''ns2'' (Some ''10.0.0.4,10.0.1.3''), example_ns ''ns3'' (Some ''10.0.0.5,10.0.1.4'')]\<rparr>) = Inr after"
    "gm_get [] after ''10.0.1.0/29'' = gm_get [] before ''10.0.1.0/29'' @ map (\<lambda>p. gm_get NilIP p ''10.0.1.0/29'') ps"
    using rc(2,3) by metis
  then show ?thesis
    unfolding example_assignment Let_def by (simp only: prod.case sum.case) blast
qed

end
