(* ===== verification/Progress.thy ===== *)
theory Progress
  imports RoundTrip Cycle
begin

text \<open>
  Progress: when a cycle succeeds. On bare metal, where no cloud can refuse anything, room in
  the CIDRs, a ready node per CIDR and an API server that accepts the calls are enough.
\<close>

section \<open>Calls that are accepted\<close>

definition accepting :: "goenv \<Rightarrow> bool" where
  "accepting E \<longleftrightarrow> (\<forall>h c. api_reply E h c = None)"

lemma perform_accepting: "accepting E \<Longrightarrow> perform E c h = (None, h @ [(c, None)])"
  by (simp add: accepting_def perform_def)

lemma go_all_accepting:
  assumes "accepting E" "multierror_laws E" "\<forall>x \<in> set xs. \<forall>e. p x \<noteq> Inl e"
  shows "\<exists>h'. go_all E l (follow E p) xs h = (Inr (), h')"
proof -
  have "\<exists>h'. run_goroutines (follow E p) ys h = (Inr (map (\<lambda>y. None) ys), h')" if "\<forall>x \<in> set ys. \<forall>e. p x \<noteq> Inl e" for ys h
    using that
  proof (induction ys arbitrary: h)
    case (Cons y ys)
    have "\<exists>h1. follow E p y h = (None, h1)"
      using Cons.prems by (cases "p y") (auto simp: follow_def perform_accepting [OF assms(1)] split: option.split)
    then obtain h1 where y: "follow E p y h = (None, h1)" ..
    from Cons.IH [of h1] Cons.prems obtain h2 where "run_goroutines (follow E p) ys h1 = (Inr (map (\<lambda>y. None) ys), h2)" by auto
    with y show ?case by simp
  qed simp
  from this [of "scheduled E l xs" h] obtain h' where
    "run_goroutines (follow E p) (scheduled E l xs) h = (Inr (map (\<lambda>y. None) (scheduled E l xs)), h')"
    using assms(3) scheduled_subset by fast
  moreover have "multierror E (map (\<lambda>y. None) (scheduled E l xs)) = None" using assms(2) by (simp add: multierror_laws_def)
  ultimately show ?thesis by (simp add: go_all_def)
qed

lemma go_for_w_total:
  assumes "\<And>x s h. x \<in> set xs \<Longrightarrow> \<exists>s' h'. f x s h = (Inr s', h')"
  shows "\<exists>s' h'. go_for_w f xs s h = (Inr s', h')"
  using assms
proof (induction xs arbitrary: s h)
  case (Cons x xs)
  from Cons.prems [of x s h] obtain s1 h1 where "f x s h = (Inr s1, h1)" by auto
  moreover from Cons.IH [of s1 h1] Cons.prems obtain s' h' where "go_for_w f xs s1 h1 = (Inr s', h')" by auto
  ultimately show ?case by simp
qed simp

section \<open>Room for the namespaces\<close>

lemma finite_in_cidr:
  assumes "ParseCIDR c = Inr (base, net)" "net_ok net"
  shows "finite {a. in_cidr c a}"
proof (rule finite_subset)
  show "{a. in_cidr c a} \<subseteq> range IPv4"
    using in_cidr_IPv4 [OF assms] by (auto elim!: is_IPv4.elims)
qed simp

text \<open>Each draw takes one address of every CIDR, so as many draws succeed as there are free ones.\<close>

definition room :: "nat \<Rightarrow> (string, ip list) gomap \<Rightarrow> bool" where
  "room k m \<longleftrightarrow> (\<forall>c \<in> set (gm_keys m). k \<le> card ({a. in_cidr c a} - set (gm_get [] m c)))"

lemma draw_with_room:
  assumes laws: "range_laws E" "ipmath_laws E" "size_law E" and inv: "alloc_inv m" and room: "room (Suc k) m"
  obtains p m' where "getNextAvailableIPs E m = Inr (p, m')" "alloc_inv m'" "room k m'"
proof -
  have free: "\<exists>a. in_cidr c a \<and> a \<notin> set (gm_get [] m c)" if "c \<in> set (gm_keys m)" for c
  proof -
    have "card ({a. in_cidr c a} - set (gm_get [] m c)) \<noteq> 0" using room that by (fastforce simp: room_def)
    then have "{a. in_cidr c a} - set (gm_get [] m c) \<noteq> {}" by (metis card.empty)
    then show ?thesis by blast
  qed
  then obtain p m' where draw: "getNextAvailableIPs E m = Inr (p, m')"
    using getNextAvailableIPs_free [OF laws inv] by blast
  note step = getNextAvailableIPs_step [OF laws(1,2) inv draw]
  have "k \<le> card ({a. in_cidr c a} - set (gm_get [] m' c))" if c: "c \<in> set (gm_keys m')" for c
  proof -
    have cm: "c \<in> fst ` set m" using c step(2) by simp
    note s = step(3) [OF cm]
    obtain base net where "ParseCIDR c = Inr (base, net)" "net_ok net"
      using inv cm by (auto simp: alloc_inv_def alloc_ok_def)
    then have fin: "finite ({a. in_cidr c a} - set (gm_get [] m c))" using finite_in_cidr by blast
    have "{a. in_cidr c a} - set (gm_get [] m' c) = ({a. in_cidr c a} - set (gm_get [] m c)) - {gm_get NilIP p c}"
      using s by auto
    moreover have "gm_get NilIP p c \<in> {a. in_cidr c a} - set (gm_get [] m c)" using s by simp
    moreover have "Suc k \<le> card ({a. in_cidr c a} - set (gm_get [] m c))"
      using room c unfolding room_def step(2) by blast
    ultimately show ?thesis using fin by (simp add: card_Diff_singleton)
  qed
  then show ?thesis using that draw step(1) by (simp add: room_def)
qed

lemma assignNamespace_progress:
  assumes laws: "range_laws E" "ipmath_laws E" "size_law E" "accepting E"
    and "alloc_inv m" "room (length ns) m" "\<forall>n \<in> set ns. ns_annotations n \<noteq> None"
  shows "\<exists>m' newly' h'. go_for_w (assignNamespace E rc) ns (m, newly) h = (Inr (m', newly'), h')"
  using assms(5-7)
proof (induction ns arbitrary: m newly h)
  case (Cons n ns)
  from Cons.prems(2) have "room (Suc (length ns)) m" by simp
  from draw_with_room [OF laws(1-3) Cons.prems(1) this] obtain p m1 where
    draw: "getNextAvailableIPs E m = Inr (p, m1)" "alloc_inv m1" "room (length ns) m1" .
  obtain as where "ns_annotations n = Some as" using Cons.prems(3) by auto
  then obtain newly1 h1 where "assignNamespace E rc n (m, newly) h = (Inr (m1, newly1), h1)"
    by (simp add: assignNamespace_def draw(1) Let_def setAnnotation_def perform_accepting [OF laws(4)])
  with Cons.IH [OF draw(2,3), of newly1 h1] Cons.prems(3) show ?case by simp
qed simp

section \<open>The addresses in use, exactly\<close>

lemma nodes_IPs_are_host_IPs:
  assumes "getNodesIPsByCIDR E rc = Inr m" "range_laws E" "distinct (gm_keys (rc_AllNodes rc))" "a \<in> set (gm_get [] m c)"
  shows "a \<in> host_ip_of rc ` set (gm_keys (rc_AllNodes rc))"
proof -
  let ?I = "\<lambda>m. \<forall>c. set (gm_get [] m c) \<subseteq> host_ip_of rc ` set (gm_keys (rc_AllNodes rc))"
  have "?I m"
  proof (rule go_for_inv [OF assms(1) [unfolded getNodesIPsByCIDR_def], where I = ?I])
    fix name s s' assume name: "name \<in> set (range_order E 139 (gm_keys (rc_AllNodes rc)))" and s: "?I s"
      and step: "(case map_of (rc_AllHostSubnets rc) name of
          None \<Rightarrow> Inl (ErrNew (''unable to find hostsubnet for node:'' @ name))
        | Some hs \<Rightarrow> go_for (record_host_ip rc (ParseIP (hs_hostIP hs))) (rc_CIDRs rc) s) = Inr s'"
    then have "go_for (record_host_ip rc (host_ip_of rc name)) (rc_CIDRs rc) s = Inr s'"
      by (simp add: host_ip_of_def split: option.splits)
    note facts = record_host_ip_loop [OF this]
    have "name \<in> set (gm_keys (rc_AllNodes rc))" using name range_lawsD(2) [OF assms(2,3)] by simp
    then show "?I s'" using facts s by blast
  qed simp
  with assms(4) show ?thesis by blast
qed

lemma used_are_taken:
  assumes "range_laws E" "ipmath_laws E" "cidrs_ok rc" "distinct (rc_CIDRs rc)" "knownIPsByCIDR E rc = Inr m"
    and i: "i < length (rc_CIDRs rc)" and a: "a \<in> set (gm_get [] m (rc_CIDRs rc ! i))"
  shows "taken rc [] i a"
proof -
  let ?c = "rc_CIDRs rc ! i"
  have c: "?c \<in> set (rc_CIDRs rc)" using i by simp
  obtain w b n where p: "ParseCIDR ?c = Inr (IPv4 w, Net4 b n)" by (rule cidrs_okE [OF assms(3) c])
  obtain m0 nodesIPs where m0: "sortIPsByCIDR rc = Inr m0" and nodes: "getNodesIPsByCIDR E rc = Inr nodesIPs"
    and "gm_get [] m ?c = gm_get [] m0 ?c @ [IPv4 w, broadcast (Net4 b n)] @
         gm_get [] (rc_ReservedIPsByCIDR rc) ?c @ gm_get [] nodesIPs ?c"
    by (rule knownIPsByCIDR_entry [OF assms(1-3,5)]) (use c p in blast)
  with a consider "a \<in> set (gm_get [] m0 ?c)" | "a = IPv4 w \<or> a = broadcast (Net4 b n)"
    | "a \<in> set (gm_get [] (rc_ReservedIPsByCIDR rc) ?c)" | "a \<in> set (gm_get [] nodesIPs ?c)" by auto
  then show ?thesis
  proof cases
    case 1
    then have "sorted_ip_ok rc ?c a" using sortIPsByCIDR_ok [OF m0] by (simp add: sorted_ips_ok_def)
    then obtain ns v j where ns: "ns \<in> set (rc_InitiallyAssignedNamespaces rc)" "ns_ips ns = Some v" "j < length (rc_CIDRs rc)"
      "rc_CIDRs rc ! j = ?c" "j < length (split_on (CHR '','') v)" "a = ParseIP (split_on (CHR '','') v ! j)"
      by (auto simp: sorted_ip_ok_def)
    then have "j = i" using nth_eq_iff_index_eq [OF assms(4)] i by blast
    then have "a = ns_addr ns i" using ns by (simp add: ns_addr_def)
    with ns(1,2) show ?thesis unfolding taken_def Let_def by blast
  next
    case 4
    have "distinct (gm_keys (rc_AllNodes rc))" using assms(3) by (simp add: cidrs_ok_def)
    from nodes_IPs_are_host_IPs [OF nodes assms(1) this 4] show ?thesis unfolding taken_def Let_def by blast
  qed (simp_all add: taken_def p Let_def)
qed

lemma knownIPsByCIDR_progress:
  assumes "range_laws E" "cidrs_ok rc" "distinct (rc_CIDRs rc)"
    and "\<forall>n \<in> set (rc_InitiallyAssignedNamespaces rc). readable rc n"
    and "fst ` set (rc_AllNodes rc) \<subseteq> fst ` set (rc_AllHostSubnets rc)"
  shows "\<exists>m. knownIPsByCIDR E rc = Inr m"
proof -
  obtain m0 where m0: "sortIPsByCIDR rc = Inr m0"
    using sort_readable [OF assms(4,3)] unfolding sortIPsByCIDR_loop by blast
  then have keys: "distinct (gm_keys m0)" "fst ` set m0 = set (rc_CIDRs rc)"
    using sortIPsByCIDR_ok [OF m0] by (simp_all add: sorted_ips_ok_def)
  note ks = range_lawsD [OF assms(1) keys(1), of 27]
  have "\<exists>m1. range_update [] (addNetworkIPs E) (range_order E 27 (gm_keys m0)) m0 = Inr m1"
  proof (rule range_update_total)
    fix c assume "c \<in> set (range_order E 27 (gm_keys m0))"
    then have "c \<in> set (rc_CIDRs rc)" using ks keys(2) by simp
    then obtain w b n where "ParseCIDR c = Inr (IPv4 w, Net4 b n)" by (rule cidrs_okE [OF assms(2)])
    then show "\<exists>v. addNetworkIPs E c (gm_get [] m0 c) = Inr v" by (simp add: addNetworkIPs_def)
  qed (use ks in simp)
  then obtain m1 where m1: "range_update [] (addNetworkIPs E) (range_order E 27 (gm_keys m0)) m0 = Inr m1" ..
  have "\<exists>nodes. getNodesIPsByCIDR E rc = Inr nodes \<and> True"
    unfolding getNodesIPsByCIDR_def
  proof (rule go_for_total)
    fix name s assume "name \<in> set (range_order E 139 (gm_keys (rc_AllNodes rc)))"
    moreover have "distinct (gm_keys (rc_AllNodes rc))" using assms(2) by (simp add: cidrs_ok_def)
    ultimately have "name \<in> fst ` set (rc_AllHostSubnets rc)" using range_lawsD(2) [OF assms(1)] assms(5) by auto
    then obtain hs where hs: "map_of (rc_AllHostSubnets rc) name = Some hs"
      by (metis map_of_eq_None_iff not_None_eq)
    have "\<exists>s'. go_for (record_host_ip rc (ParseIP (hs_hostIP hs))) (rc_CIDRs rc) s = Inr s' \<and> True"
    proof (rule go_for_total)
      fix c t assume "c \<in> set (rc_CIDRs rc)"
      then obtain w b n where "map_of (rc_NetCIDRByCIDR rc) c = Some (Net4 b n)" by (rule cidrs_okE [OF assms(2)])
      then show "\<exists>s'. record_host_ip rc (ParseIP (hs_hostIP hs)) c t = Inr s' \<and> True" by (simp add: record_host_ip_def)
    qed simp
    with hs show "\<exists>s'. (case map_of (rc_AllHostSubnets rc) name of
          None \<Rightarrow> Inl (ErrNew (''unable to find hostsubnet for node:'' @ name))
        | Some hs \<Rightarrow> go_for (record_host_ip rc (ParseIP (hs_hostIP hs))) (rc_CIDRs rc) s) = Inr s' \<and> True" by simp
  qed simp
  then show ?thesis using m0 m1 by (auto simp: knownIPsByCIDR_def)
qed

section \<open>The cycle\<close>

lemma assignIPsToNamespaces_progress:
  assumes laws: "range_laws E" "ipmath_laws E" "size_law E" "u32set_laws E" "strset_laws E" "accepting E"
    and ok: "cidrs_ok rc" "distinct (rc_CIDRs rc)"
    and "\<forall>n \<in> set (rc_InitiallyAssignedNamespaces rc). readable rc n"
    and "\<forall>n \<in> set (rc_UnAssignedNamespaces rc). ns_annotations n \<noteq> None"
    and "fst ` set (rc_AllNodes rc) \<subseteq> fst ` set (rc_AllHostSubnets rc)"
    and "\<forall>i < length (rc_CIDRs rc). length (rc_UnAssignedNamespaces rc) \<le>
      card {a. in_cidr (rc_CIDRs rc ! i) a \<and> \<not> taken rc [] i a}"
  shows "\<exists>newly h'. assignIPsToNamespaces E BareMetalInfra rc h = (Inr newly, h') \<and> (\<forall>n \<in> set newly. ns_ips n \<noteq> None)"
proof -
  obtain m where m: "knownIPsByCIDR E rc = Inr m"
    using knownIPsByCIDR_progress [OF laws(1) ok assms(9,11)] by blast
  let ?infra = "fold (\<lambda>cidr. gm_put cidr []) (rc_CIDRs rc) [] :: (string, ip list) gomap"
  let ?m = "sortAll E (removeDuplicates E (appendIPs E 62 ?infra m))"
  have none: "gm_get [] ?infra c = []" for c by (simp add: gm_get_fold_put)
  then have "used_ips_ok (rc_CIDRs rc) ?infra" by (simp add: used_ips_ok_def)
  note used = usedIPsByCIDR_ok [OF laws(1,2,4,5) knownIPsByCIDR_ok [OF laws(1,2) ok(1) m] this]
  have "room (length (rc_UnAssignedNamespaces rc)) ?m"
    unfolding room_def
  proof
    fix c assume "c \<in> set (gm_keys ?m)"
    then have c: "c \<in> set (rc_CIDRs rc)" using used(2) by simp
    then obtain i where i: "i < length (rc_CIDRs rc)" "rc_CIDRs rc ! i = c" by (auto simp: in_set_conv_nth)
    obtain w b n where p: "ParseCIDR c = Inr (IPv4 w, Net4 b n)" by (rule cidrs_okE [OF ok(1) c])
    have "set (gm_get [] ?m c) = set (gm_get [] m c)" using used(4) [OF c] none by simp
    then have "{a. in_cidr c a \<and> \<not> taken rc [] i a} \<subseteq> {a. in_cidr c a} - set (gm_get [] ?m c)"
      using used_are_taken [OF laws(1,2) ok m i(1)] i(2) by auto
    moreover have "finite ({a. in_cidr c a} - set (gm_get [] ?m c))"
      using finite_in_cidr [OF p ParseCIDR_net_ok(3) [OF p]] by simp
    ultimately have "card {a. in_cidr c a \<and> \<not> taken rc [] i a} \<le> card ({a. in_cidr c a} - set (gm_get [] ?m c))"
      by (rule card_mono [rotated])
    then show "length (rc_UnAssignedNamespaces rc) \<le> card ({a. in_cidr c a} - set (gm_get [] ?m c))"
      using assms(12) i by fastforce
  qed
  from assignNamespace_progress [OF laws(1-3,6) used(1) this assms(10), of rc "[]" h] obtain m' newly h' where
    loop: "go_for_w (assignNamespace E rc) (rc_UnAssignedNamespaces rc) (?m, []) h = (Inr (m', newly), h')" by blast
  have "ns_ips n' \<noteq> None" if "annotated rc n p n'" for n p n'
    using that by (auto simp: annotated_def ns_ips_def getAnnotation_set)
  with assignNamespace_loop [OF loop] have "\<forall>n \<in> set newly. ns_ips n \<noteq> None"
    by (metis append_Nil in_set_conv_nth)
  with m loop show ?thesis by (simp add: assignIPsToNamespaces_def Let_def)
qed

lemma hostsubnets_progress:
  assumes "accepting E" "multierror_laws E" "strset_laws E"
  shows "\<exists>h'. reconcileHSAssignedIPs E rc h = (Inr (), h')" "\<exists>h'. assignCIDRsToHostSubnets E rc h = (Inr (), h')"
proof -
  show "\<exists>h'. reconcileHSAssignedIPs E rc h = (Inr (), h')"
    unfolding reconcileHSAssignedIPs_def update_hostsubnet_follow [OF assms(3)]
    by (rule go_all_accepting [OF assms(1,2)]) (simp add: hs_plan_def)
  have "\<exists>u h'. assignCIDRsToHostSubnets E rc h = (Inr u, h')"
    unfolding assignCIDRsToHostSubnets_def go_for_w_nested
    by (rule go_for_w_total) (simp add: set_cidr_def Let_def perform_accepting [OF assms(1)] split: prod.split)
  then show "\<exists>h'. assignCIDRsToHostSubnets E rc h = (Inr (), h')" by simp
qed

lemma updateMetrics_progress: "\<exists>gs h'. updateMetrics E BareMetalInfra rc h = (Inr gs, h')"
  unfolding updateMetrics_def
  by (rule go_for_w_total) (simp add: capacity_gauge_def BareMetalInfra_def GetIPCapacity_BM_def)

text \<open>What a context must be like for its cycle to succeed.\<close>

definition servable :: "rcontext \<Rightarrow> bool" where
  "servable rc \<longleftrightarrow> (\<forall>n \<in> set (rc_InitiallyAssignedNamespaces rc). readable rc n) \<and>
     (\<forall>n \<in> set (rc_UnAssignedNamespaces rc). ns_annotations n \<noteq> None) \<and>
     fst ` set (rc_AllNodes rc) \<subseteq> fst ` set (rc_AllHostSubnets rc) \<and>
     (\<forall>i < length (rc_CIDRs rc). length (rc_UnAssignedNamespaces rc) \<le>
        card {a. in_cidr (rc_CIDRs rc ! i) a \<and> \<not> taken rc [] i a}) \<and>
     (\<forall>c \<in> set (rc_CIDRs rc). ready_nodes rc c \<noteq> {})"

lemma servableD:
  assumes "servable rc"
  shows "\<forall>n \<in> set (rc_InitiallyAssignedNamespaces rc). readable rc n"
    "\<forall>n \<in> set (rc_UnAssignedNamespaces rc). ns_annotations n \<noteq> None"
    "fst ` set (rc_AllNodes rc) \<subseteq> fst ` set (rc_AllHostSubnets rc)"
    "\<forall>i < length (rc_CIDRs rc). length (rc_UnAssignedNamespaces rc) \<le> card {a. in_cidr (rc_CIDRs rc ! i) a \<and> \<not> taken rc [] i a}"
    "\<forall>c \<in> set (rc_CIDRs rc). ready_nodes rc c \<noteq> {}"
  using assms unfolding servable_def by simp_all

text \<open>
  A cycle succeeds when it can. On bare metal, when the namespaces that have addresses have
  one of each CIDR's network (\<open>readable\<close>), every node has its HostSubnet, every CIDR has as many
  addresses that are not taken as there are namespaces waiting, and a ready node, then a cycle
  whose calls the API server accepts returns without error and without a panic, in
  whatever order maps are visited and goroutines run.
\<close>

lemma processReconcileContext_succeeds:
  assumes "range_laws E" "ipmath_laws E" "size_law E" "u32set_laws E" "strset_laws E" "multierror_laws E"
    and "accepting E" "ctx_ok rc" "distinct (rc_CIDRs rc)" and servable: "servable rc"
  shows "\<exists>gs h'. processReconcileContext E BareMetalInfra rc h = (Inr gs, h')"
proof -
  note served = servableD [OF servable]
  have cidrs: "cidrs_ok rc" "nets_ok rc" using assms(8) by (simp_all add: ctx_ok_def)
  obtain newly h1 where s1: "assignIPsToNamespaces E BareMetalInfra rc h = (Inr newly, h1)"
    and new: "\<forall>n \<in> set newly. ns_ips n \<noteq> None"
    using assignIPsToNamespaces_progress [OF assms(1-5,7) cidrs(1) assms(9) served(1-4)] by blast
  let ?rc1 = "rc\<lparr>rc_FinallyAssignedNamespaces := rc_InitiallyAssignedNamespaces rc @ newly\<rparr>"
  let ?rc2 = "?rc1\<lparr>rc_InitiallyAssignedIPsByNode := getAssignedIPsByNode ?rc1\<rparr>"
  have all: "\<forall>n \<in> set (rc_FinallyAssignedNamespaces ?rc1). ns_ips n \<noteq> None"
    using new assms(8) by (auto simp: ctx_ok_def)
  have planned: "\<forall>n \<in> set (rc_FinallyAssignedNamespaces ?rc1). \<forall>e. netnamespace_plan ?rc1 n \<noteq> Inl e"
  proof (intro ballI allI)
    fix n e assume "n \<in> set (rc_FinallyAssignedNamespaces ?rc1)"
    with all obtain v where "ns_ips n = Some v" by blast
    then show "netnamespace_plan ?rc1 n \<noteq> Inl e" by (simp add: netnamespace_plan_def)
  qed
  obtain h2 where s2: "reconcileNetNamespaces E ?rc1 h1 = (Inr (), h2)"
    using go_all_accepting [OF assms(7,6) planned, of 104 h1]
    unfolding reconcileNetNamespaces_def update_netnamespace_follow by blast
  have same: "node_lists_ok ?rc2 = node_lists_ok (cycle_rc rc newly [])" "initial_ok ?rc2 = initial_ok (cycle_rc rc newly [])"
    "ready_nodes ?rc2 = ready_nodes rc" "nets_ok ?rc2 = nets_ok rc" "rc_CIDRs ?rc2 = rc_CIDRs rc"
    by (simp_all add: fun_eq_iff ready_nodes_def node_lists_ok_def initial_ok_def node_ready_def nets_ok_def cycle_rc_def Let_def)
  have ok2: "node_lists_ok ?rc2" "initial_ok ?rc2" "nets_ok ?rc2"
    unfolding same using ctx_ok_initial [OF assms(8)] cidrs(2) by simp_all
  have "\<nexists>e. assignIPsToNodes E ?rc2 = Inl e"
    using assignIPsToNodes_fails [OF assms(1,5) ok2] all served(5) unfolding same by simp
  then obtain assigned where s3: "assignIPsToNodes E ?rc2 = Inr assigned" by (cases "assignIPsToNodes E ?rc2") auto
  let ?rc3 = "?rc2\<lparr>rc_FinallyAssignedIPsByNode := assigned\<rparr>"
  have s4: "ReconcileInstanceSecondaryIPs BareMetalInfra ?rc3 h2 = (Inr (), h2)"
    by (simp add: BareMetalInfra_def ReconcileInstanceSecondaryIPs_BM_def)
  obtain h5 where s5: "(if isCloudInfrastructure (rc_Infrastructure ?rc3) \<or> 1 < length (rc_CIDRs ?rc3)
      then reconcileHSAssignedIPs E ?rc3 else assignCIDRsToHostSubnets E ?rc3) h2 = (Inr (), h5)"
    using hostsubnets_progress [OF assms(7,6,5), of ?rc3 h2] by (cases "isCloudInfrastructure (rc_Infrastructure ?rc3) \<or> 1 < length (rc_CIDRs ?rc3)") auto
  obtain gs h6 where "updateMetrics E BareMetalInfra ?rc3 h5 = (Inr gs, h6)" using updateMetrics_progress by blast
  with s1 s2 s3 s4 s5 show ?thesis
    by (simp only: processReconcileContext_def bind_w_def pure_w_def Let_def prod.case sum.case) blast
qed

section \<open>A witness\<close>

lemma readable_code [code]:
  "readable rc n \<longleftrightarrow>
     (case ns_ips n of None \<Rightarrow> False | Some v \<Rightarrow> length (rc_CIDRs rc) \<le> length (split_on (CHR '','') v)) \<and>
     (\<forall>i \<in> set [0..<length (rc_CIDRs rc)]. ns_addr n i \<noteq> NilIP \<and>
       (case map_of (rc_NetCIDRByCIDR rc) (rc_CIDRs rc ! i) of
          None \<Rightarrow> False | Some net \<Rightarrow> net_contains net (ns_addr n i)))"
proof -
  have some: "(\<exists>y. x = Some y \<and> Q y) \<longleftrightarrow> (case x of None \<Rightarrow> False | Some y \<Rightarrow> Q y)" for x and Q :: "'a \<Rightarrow> bool"
    by (cases x) simp_all
  show ?thesis unfolding readable_def some by (simp only: set_upt atLeast0LessThan lessThan_iff Ball_def)
qed

text \<open>Addresses that are free, so many are enough.\<close>

lemma enough_room:
  assumes "ParseCIDR c = Inr (base, net)" "net_ok net" "rc_CIDRs rc ! i = c" "distinct as"
    "\<forall>a \<in> set as. in_cidr c a \<and> \<not> taken rc [] i a"
  shows "length as \<le> card {a. in_cidr (rc_CIDRs rc ! i) a \<and> \<not> taken rc [] i a}"
proof -
  have "finite {a. in_cidr c a \<and> \<not> taken rc [] i a}"
    by (rule finite_subset [OF _ finite_in_cidr [OF assms(1,2)]]) auto
  then have "card (set as) \<le> card {a. in_cidr c a \<and> \<not> taken rc [] i a}"
    by (rule card_mono) (use assms(5) in blast)
  then show ?thesis using assms(3,4) by (simp add: distinct_card)
qed

lemma example_servable: "servable example_loaded"
  unfolding servable_def
proof (intro conjI)
  show "\<forall>n \<in> set (rc_InitiallyAssignedNamespaces example_loaded). readable example_loaded n" by code_simp
  show "\<forall>n \<in> set (rc_UnAssignedNamespaces example_loaded). ns_annotations n \<noteq> None" by code_simp
  show "fst ` set (rc_AllNodes example_loaded) \<subseteq> fst ` set (rc_AllHostSubnets example_loaded)" by code_simp
  have two: "length (rc_CIDRs example_loaded) = 2" "length (rc_UnAssignedNamespaces example_loaded) = 2" by code_simp+
  have c: "rc_CIDRs example_loaded ! 0 = ''10.0.0.0/29''" "rc_CIDRs example_loaded ! 1 = ''10.0.1.0/29''" by code_simp+
  have p: "ParseCIDR ''10.0.0.0/29'' = Inr (IPv4 0x0A000000, Net4 0x0A000000 29)" "net_ok (Net4 0x0A000000 29)"
    "ParseCIDR ''10.0.1.0/29'' = Inr (IPv4 0x0A000100, Net4 0x0A000100 29)" "net_ok (Net4 0x0A000100 29)" by code_simp+
  have 0: "\<forall>a \<in> set [IPv4 0x0A000004, IPv4 0x0A000005]. in_cidr ''10.0.0.0/29'' a \<and> \<not> taken example_loaded [] 0 a" by code_simp
  have 1: "\<forall>a \<in> set [IPv4 0x0A000103, IPv4 0x0A000104]. in_cidr ''10.0.1.0/29'' a \<and> \<not> taken example_loaded [] 1 a" by code_simp
  show "\<forall>i < length (rc_CIDRs example_loaded). length (rc_UnAssignedNamespaces example_loaded) \<le>
      card {a. in_cidr (rc_CIDRs example_loaded ! i) a \<and> \<not> taken example_loaded [] i a}"
    using enough_room [OF p(1,2) c(1) _ 0] enough_room [OF p(3,4) c(2) _ 1] unfolding two by (simp add: less_2_cases_iff)
  have "\<forall>c \<in> set (rc_CIDRs example_loaded). filter (node_ready example_loaded) (gm_get [] (rc_SelectedNodesByCIDR example_loaded) c) \<noteq> []"
    by code_simp
  then show "\<forall>c \<in> set (rc_CIDRs example_loaded). ready_nodes example_loaded c \<noteq> {}"
    by (simp add: ready_nodes_def filter_empty_conv) blast
qed

end
