(* ===== verification/Completion.thy ===== *)
theory Completion
  imports Progress Lifecycle
begin

text \<open>
  When a whole \<open>Reconcile\<close> comes to its end on bare metal: from what the API server lists, over
  the loading of the context, to the success path, or to the removal of the finalizer.
\<close>

section \<open>Loading succeeds\<close>

text \<open>The four lists and the node selector can be read.\<close>

definition can_read :: "goenv \<Rightarrow> EgressIPAM \<Rightarrow> history \<Rightarrow> bool" where
  "can_read E x h \<longleftrightarrow> \<not> isl (list_nodes E h) \<and> \<not> isl (list_hostsubnets E h) \<and> \<not> isl (list_namespaces E h) \<and>
     \<not> isl (list_netnamespaces E h) \<and> \<not> isl (selector_of E (NodeSelector x))"

lemma load_assignment_progress:
  assumes "assignment_ok a"
  shows "\<exists>rc'. load_assignment a rc = Inr rc' \<and> rc_EgressIPAM rc' = rc_EgressIPAM rc \<and> rc_Infrastructure rc' = rc_Infrastructure rc"
proof -
  from assms obtain base net where a: "ParseCIDR (CIDR a) = Inr (base, net)" "\<forall>s \<in> set (ReservedIPs a). net_contains net (ParseIP s)"
    by (auto simp: assignment_ok_def)
  have "\<exists>ips. go_for parse_reserved (ReservedIPs a) [] = Inr ips \<and> True"
  proof (rule go_for_total)
    fix s ips assume "s \<in> set (ReservedIPs a)"
    with a(2) have "ParseIP s \<noteq> NilIP" by (metis net_contains_NilIP)
    then show "\<exists>ips'. parse_reserved s ips = Inr ips' \<and> True" by (simp add: parse_reserved_def)
  qed simp
  with a(1) show ?thesis by (auto simp: load_assignment_def)
qed

lemma load_objects_progress:
  assumes "multierror_laws E" "can_read E (rc_EgressIPAM rc) h"
  shows "\<exists>rc'. load_objects E h rc = Inr rc' \<and> rc_EgressIPAM rc' = rc_EgressIPAM rc \<and> rc_Infrastructure rc' = rc_Infrastructure rc"
proof -
  from assms(2) obtain nodes subnets items netns where
    "list_nodes E h = Inr nodes" "list_hostsubnets E h = Inr subnets" "list_namespaces E h = Inr items" "list_netnamespaces E h = Inr netns"
    unfolding can_read_def by (metis isl_def sum.exhaust_sel)
  moreover have "multierror E (scheduled E 497 [None, None, None, None]) = None"
    using assms(1) scheduled_subset [of E 497 "[None, None, None, None]"] unfolding multierror_laws_def by fastforce
  ultimately show ?thesis
    by (simp add: load_objects_def getAllNodes_def getAllHostSubnets_def getReferringNamespaces_def getAllNetNamespaces_def
        error_of_def Let_def split: prod.split)
qed

lemma loadReconcileContext_progress:
  assumes "multierror_laws E" "can_read E x h" "IsValid (ClientEgressIPAM x) = (True, None)" "\<not> isCloudInfrastructure p"
  shows "\<exists>rc. loadReconcileContext E P p x h = (Inr (rc, BareMetalInfra), h)"
proof -
  have "load_secret E h (empty_rc p x) = Inr (empty_rc p x)" using assms(4) by (simp add: load_secret_def empty_rc_def)
  moreover have "\<exists>rc1. go_for load_assignment (CIDRAssignments x) (empty_rc p x) = Inr rc1 \<and> (rc_EgressIPAM rc1 = x \<and> rc_Infrastructure rc1 = p)"
    using assms(3) [unfolded IsValid_iff_ok] load_assignment_progress by (intro go_for_total) (fastforce simp: empty_rc_def)+
  ultimately obtain rc1 rc2 where rc2: "load_objects E h rc1 = Inr rc2" "rc_EgressIPAM rc2 = x" "rc_Infrastructure rc2 = p"
    and load: "load_cluster E p x h = select_nodes E rc2"
    using load_objects_progress [OF assms(1)] assms(2) by (fastforce simp: load_cluster_def)
  obtain matches where "selector_of E (NodeSelector x) = Inr matches"
    using assms(2) unfolding can_read_def by (metis isl_def sum.exhaust_sel)
  then obtain rc3 where rc3: "load_cluster E p x h = Inr rc3" "rc_Infrastructure rc3 = p"
    using load rc2(2,3) by (simp add: select_nodes_def getSelectedNodes_def Let_def)
  obtain rc where rc: "load_used E BareMetalInfra rc3 h = (Inr rc, h)"
  proof -
    have "multierror E [None] = None" using assms(1) unfolding multierror_laws_def by simp
    then show ?thesis by (intro that) (simp add: load_used_def BareMetalInfra_def GetUsedIPsByCIDR_BM_def error_of_def)
  qed
  have "make_infra E P rc3 h = (Inr BareMetalInfra, h)"
    using assms(4) rc3(2) by (cases p) (simp_all add: make_infra_def pure_w_def isCloudInfrastructure_def)
  with rc3(1) rc show ?thesis by (simp add: loadReconcileContext_def bind_w_def pure_w_def)
qed

section \<open>The clean-up succeeds\<close>

lemma removals_progress:
  assumes "accepting E" "multierror_laws E"
  shows "\<exists>h'. removeNamespaceAssignedIPs E rc h = (Inr (), h')" "\<exists>h'. removeNetnamespaceAssignedIPs E rc h = (Inr (), h')"
    "\<exists>h'. removeHostsubnetAssignedIPsAndCIDRs E rc h = (Inr (), h')"
proof -
  note go = go_all_accepting [OF assms]
  show "\<exists>h'. removeNamespaceAssignedIPs E rc h = (Inr (), h')"
    unfolding removeNamespaceAssignedIPs_def perform_follow [of E "\<lambda>n. UpdateNamespace (without_ips n)"] by (rule go) simp
  show "\<exists>h'. removeNetnamespaceAssignedIPs E rc h = (Inr (), h')"
    unfolding removeNetnamespaceAssignedIPs_def clear_netnamespace_follow by (rule go) simp
  show "\<exists>h'. removeHostsubnetAssignedIPsAndCIDRs E rc h = (Inr (), h')"
    unfolding removeHostsubnetAssignedIPsAndCIDRs_def clear_hostsubnet_follow by (rule go) simp
qed

lemma manageCleanUpLogic_progress:
  assumes "accepting E" "multierror_laws E" "can_read E x h" "IsValid (ClientEgressIPAM x) = (True, None)"
    and "\<not> isCloudInfrastructure p"
  shows "\<exists>h'. manageCleanUpLogic E P p x h = (Inr (), h')"
proof -
  obtain rc where load: "loadReconcileContext E P p x h = (Inr (rc, BareMetalInfra), h)"
    using loadReconcileContext_progress [OF assms(2-5)] by blast
  note removals = removals_progress [OF assms(1,2), of rc]
  obtain h1 where 1: "removeNamespaceAssignedIPs E rc h = (Inr (), h1)" using removals(1) by blast
  obtain h2 where 2: "removeNetnamespaceAssignedIPs E rc h1 = (Inr (), h2)" using removals(2) by blast
  obtain h3 where 3: "removeHostsubnetAssignedIPsAndCIDRs E rc h2 = (Inr (), h3)" using removals(3) by blast
  have "RemoveAllAssignedIPs BareMetalInfra rc h3 = (Inr (), h3)" by (simp add: BareMetalInfra_def RemoveAllAssignedIPs_BM_def)
  with load 1 2 3 show ?thesis by (auto simp: manageCleanUpLogic_def bind_w_def pure_w_def)
qed

section \<open>A reconcile comes to its end\<close>

text \<open>
  C3. An EgressIPAM is served when it can be. Off the clouds, for a valid IPv4 instance with
  the finalizer that is not being deleted, with pairwise different CIDRs, when the API server
  lists the objects and accepts the calls and the context that is loaded is \<open>servable\<close> (every
  annotation has an address of each CIDR's network, every node its HostSubnet, every CIDR as
  many addresses that are not taken as there are namespaces waiting, and a ready node),
  \<open>Reconcile\<close> ends in \<open>ManageSuccess\<close>: without an error and without a panic, in whatever order
  maps are visited and goroutines run.
\<close>

theorem Reconcile_serves:
  assumes "range_laws E" "ipmath_laws E" "size_law E" "u32set_laws E" "strset_laws E" "multierror_laws E" "schedule_laws E"
    and "accepting E" "\<not> isCloudInfrastructure p" "get_egressipam E name h = Inr x" "can_read E x h"
    and "IsValid (ClientEgressIPAM x) = (True, None)" "ipv4_cidrs x" "distinct (map CIDR (CIDRAssignments x))"
    and "has_finalizer E x controllerName" "\<not> is_being_deleted E x"
    and "\<forall>rc infra. loadReconcileContext E P p x h = (Inr (rc, infra), h) \<longrightarrow> servable rc"
  shows "\<exists>gs h'. Reconcile E P p name h = (ManagedSuccess gs, h')"
proof -
  obtain rc where load: "loadReconcileContext E P p x h = (Inr (rc, BareMetalInfra), h)"
    using loadReconcileContext_progress [OF assms(6,11,12,9)] by blast
  note ok = loadReconcileContext_ok [OF assms(1,6,7,12,13) load]
  then have "distinct (rc_CIDRs rc)" using assms(14) by simp
  then obtain gs h' where "processReconcileContext E BareMetalInfra rc h = (Inr gs, h')"
    using processReconcileContext_succeeds [OF assms(1-6,8)] ok assms(17) load by blast
  with load show ?thesis using assms(10,12,15,16) by (simp add: Reconcile_def IsInitialized_def)
qed

text \<open>
  C12. An EgressIPAM is cleaned up and let go when it can be. Off the clouds, for a valid
  instance with the finalizer that is being deleted, when the API server lists the objects and
  accepts the calls, \<open>Reconcile\<close> clears every namespace with addresses, the NetNamespace of
  every namespace that refers to the instance and every selected HostSubnet, each once, and
  then removes the finalizer; whether the addresses could be served plays no part.
\<close>

theorem Reconcile_deletes:
  assumes "schedule_laws E" "multierror_laws E" "platforms_ok assured E P" "assured (map CIDR (CIDRAssignments x))"
    and "accepting E" "\<not> isCloudInfrastructure p" "get_egressipam E name h = Inr x" "can_read E x h"
    and "IsValid (ClientEgressIPAM x) = (True, None)" "has_finalizer E x controllerName" "is_being_deleted E x"
  shows "\<exists>rc infra k. loadReconcileContext E P p x h = (Inr (rc, infra), h) \<and> cleanup_calls rc k \<and>
    Reconcile E P p name h = (Done, h @ k @ [(UpdateEgressIPAM (remove_finalizer E x controllerName), None)])"
proof -
  obtain h' where clean: "manageCleanUpLogic E P p x h = (Inr (), h')"
    using manageCleanUpLogic_progress [OF assms(5,2,8,9,6)] by blast
  from manageCleanUpLogic_run(2) [OF assms(1-3) clean refl assms(4)] obtain rc infra k where
    "loadReconcileContext E P p x h = (Inr (rc, infra), h)" "h' = h @ k" "cleanup_calls rc k" by blast
  moreover from this(2) have "Reconcile E P p name h = (Done, h @ k @ [(UpdateEgressIPAM (remove_finalizer E x controllerName), None)])"
    using clean assms(7,9-11) by (simp add: Reconcile_def IsInitialized_def update_instance_def perform_accepting [OF assms(5)])
  ultimately show ?thesis by blast
qed

section \<open>Witnesses\<close>

lemma example_accepting: "accepting example_cluster" "accepting (cluster_with x)"
  by (simp_all add: accepting_def cluster_with_def example_cluster_def example_env_def)

theorem Reconcile_serves_witness:
  "\<exists>gs h'. Reconcile example_cluster example_platforms (OtherPlatform ''None'') ''ipam'' [] = (ManagedSuccess gs, h')"
proof (rule Reconcile_serves [OF example_cluster_laws(1,3,4,5,6,7,2) example_accepting(1)])
  show "\<not> isCloudInfrastructure (OtherPlatform ''None'')" by (simp add: isCloudInfrastructure_def)
  show "get_egressipam example_cluster ''ipam'' [] = Inr example_instance" by (simp add: example_cluster_def)
  show "can_read example_cluster example_instance []" "IsValid (ClientEgressIPAM example_instance) = (True, None)"
    "distinct (map CIDR (CIDRAssignments example_instance))" "has_finalizer example_cluster example_instance controllerName"
    "\<not> is_being_deleted example_cluster example_instance" by code_simp+
  have "ParseCIDR ''10.0.0.0/29'' = Inr (IPv4 0x0A000000, Net4 0x0A000000 29)"
    "ParseCIDR ''10.0.1.0/29'' = Inr (IPv4 0x0A000100, Net4 0x0A000100 29)" by code_simp+
  then show "ipv4_cidrs example_instance" by (simp add: ipv4_cidrs_def example_instance_def example_egressipam_def)
  show "\<forall>rc infra. loadReconcileContext example_cluster example_platforms (OtherPlatform ''None'') example_instance [] =
      (Inr (rc, infra), []) \<longrightarrow> servable rc"
    using example_servable by (simp add: example_loads)
qed

theorem Reconcile_deletes_witness:
  "\<exists>k. Reconcile (cluster_with example_deleting) example_platforms (OtherPlatform ''None'') ''ipam'' [] =
    (Done, k @ [(UpdateEgressIPAM (example_deleting\<lparr>ei_finalizers := []\<rparr>), None)]) \<and> calls k = example_cleanup"
proof -
  have "\<not> isCloudInfrastructure (OtherPlatform ''None'')" by (simp add: isCloudInfrastructure_def)
  moreover have "can_read (cluster_with example_deleting) example_deleting []" "IsValid (ClientEgressIPAM example_deleting) = (True, None)"
    "has_finalizer (cluster_with example_deleting) example_deleting controllerName"
    "is_being_deleted (cluster_with example_deleting) example_deleting"
    "remove_finalizer (cluster_with example_deleting) example_deleting controllerName = example_deleting\<lparr>ei_finalizers := []\<rparr>" by code_simp+
  ultimately obtain k where k: "Reconcile (cluster_with example_deleting) example_platforms (OtherPlatform ''None'') ''ipam'' [] =
      (Done, [] @ k @ [(UpdateEgressIPAM (example_deleting\<lparr>ei_finalizers := []\<rparr>), None)])"
    using Reconcile_deletes [OF cluster_with_laws(1,3) example_platforms_ok _ example_accepting(2), where x = example_deleting
        and name = "''ipam''" and h = "[]" and p = "OtherPlatform ''None''"]
    by (fastforce simp: cluster_with_def)
  moreover have "snd (Reconcile (cluster_with example_deleting) example_platforms (OtherPlatform ''None'') ''ipam'' []) =
      map (\<lambda>c. (c, None)) (example_cleanup @ [UpdateEgressIPAM (example_deleting\<lparr>ei_finalizers := []\<rparr>)])" by code_simp
  ultimately have "k = map (\<lambda>c. (c, None)) example_cleanup" by simp
  with k show ?thesis by (simp add: calls_def comp_def)
qed

end
