(* ===== verification/Convergence.thy ===== *)
theory Convergence
  imports Completion Loaded
begin

text \<open>
  The control loop as a whole: an API server that stores what the operator writes, and
  reconciles in a row. The second one, and every one after it, finds what the first one wrote,
  in objects that it reads back from the server, and changes nothing.
\<close>

section \<open>A store of named objects\<close>

definition updated :: "('a \<Rightarrow> string) \<Rightarrow> 'a \<Rightarrow> 'a list \<Rightarrow> 'a list" where
  "updated name u xs = map (\<lambda>x. if name x = name u then u else x) xs"

lemma updated_names [simp]: "map name (updated name u xs) = map name xs"
  by (simp add: updated_def)

lemma fold_updated_names [simp]: "map name (fold (updated name) us xs) = map name xs"
  by (induction us arbitrary: xs) simp_all

lemma fold_updated_name_set [simp]: "name ` set (fold (updated name) us xs) = name ` set xs"
  using fold_updated_names [of name us xs] by (metis set_map)

lemma updated_same: "distinct (map name xs) \<Longrightarrow> u \<in> set xs \<Longrightarrow> updated name u xs = xs"
  unfolding updated_def by (rule map_idI) (auto simp: distinct_map inj_on_def)

lemma fold_updated_same: "distinct (map name xs) \<Longrightarrow> set us \<subseteq> set xs \<Longrightarrow> fold (updated name) us xs = xs"
  by (induction us) (simp_all add: updated_same)

lemma fold_updated_set:
  "distinct (map name us) \<Longrightarrow> set (fold (updated name) us xs) =
    {u \<in> set us. name u \<in> name ` set xs} \<union> {x \<in> set xs. name x \<notin> name ` set us}"
proof (induction us arbitrary: xs)
  case (Cons u us)
  have one: "set (updated name u xs) = {v. v = u \<and> name u \<in> name ` set xs} \<union> {x \<in> set xs. name x \<noteq> name u}"
    by (auto simp: updated_def image_iff split: if_splits) metis+
  have "name ` set (updated name u xs) = name ` set xs" using updated_names [of name u xs] by (metis set_map)
  with Cons show ?case by (auto simp: one)
qed simp

lemma by_name_get:
  "distinct (map name xs) \<Longrightarrow> x \<in> set xs \<Longrightarrow> map_of (fold (\<lambda>x. gm_put (name x) x) xs []) (name x) = Some x"
  using fold_put_by_name_Some [where f = name and m = "[]"] .

lemma by_name_in:
  assumes "distinct (map name xs)" "map_of (fold (\<lambda>x. gm_put (name x) x) xs []) k = Some x"
  shows "x \<in> set xs" "name x = k"
proof -
  have "k \<in> name ` set xs" using fold_put_by_name_other [of k name xs "[]"] assms(2) by force
  then obtain y where "y \<in> set xs" "k = name y" by blast
  with by_name_get [OF assms(1)] assms(2) show "x \<in> set xs" "name x = k" by auto
qed

section \<open>The API server\<close>

definition written_namespaces :: "api_call list \<Rightarrow> namespace list" where
  "written_namespaces cs = List.map_filter (\<lambda>c. case c of UpdateNamespace n \<Rightarrow> Some n | _ \<Rightarrow> None) cs"

definition written_netnamespaces :: "api_call list \<Rightarrow> netnamespace list" where
  "written_netnamespaces cs = List.map_filter (\<lambda>c. case c of UpdateNetNamespace nn \<Rightarrow> Some nn | _ \<Rightarrow> None) cs"

definition written_hostsubnets :: "api_call list \<Rightarrow> hostsubnet list" where
  "written_hostsubnets cs = List.map_filter (\<lambda>c. case c of UpdateHostSubnet hs \<Rightarrow> Some hs | _ \<Rightarrow> None) cs"

lemmas written_defs = written_namespaces_def written_netnamespaces_def written_hostsubnets_def

lemma written_simps [simp]:
  "written_namespaces [] = []" "written_netnamespaces [] = []" "written_hostsubnets [] = []"
  "written_namespaces (cs @ ds) = written_namespaces cs @ written_namespaces ds"
  "written_netnamespaces (cs @ ds) = written_netnamespaces cs @ written_netnamespaces ds"
  "written_hostsubnets (cs @ ds) = written_hostsubnets cs @ written_hostsubnets ds"
  by (simp_all add: written_defs List.map_filter_def)

lemma written_netnamespaces_in: "nn \<in> set (written_netnamespaces cs) \<longleftrightarrow> UpdateNetNamespace nn \<in> set cs"
  by (induction cs) (auto simp: written_netnamespaces_def List.map_filter_simps split: api_call.splits)

definition after_write :: "('a \<Rightarrow> 'b) \<Rightarrow> err + 'a \<Rightarrow> err + 'b" where
  "after_write f r = (case r of Inl e \<Rightarrow> Inl e | Inr x \<Rightarrow> Inr (f x))"

lemma after_write_simps [simp]:
  "after_write f (Inr x) = Inr (f x)" "after_write f (Inl e) = Inl e" "isl (after_write f r) = isl r"
  "after_write f (after_write g r) = after_write (\<lambda>x. f (g x)) r" "after_write (\<lambda>x. x) r = r" "after_write id r = r"
  by (simp_all add: after_write_def split: sum.split)

text \<open>
  What an API server promises that nobody else writes to: an accepted update replaces the object
  of that name, in the next listing, and touches no other; no call of the operator changes a
  node, and an EgressIPAM changes by an update of it only.
\<close>

definition server_laws :: "goenv \<Rightarrow> bool" where
  "server_laws E \<longleftrightarrow> (\<forall>h c.
     list_nodes E (h @ [(c, None)]) = list_nodes E h \<and>
     list_namespaces E (h @ [(c, None)]) = after_write (fold (updated ns_name) (written_namespaces [c])) (list_namespaces E h) \<and>
     list_netnamespaces E (h @ [(c, None)]) = after_write (fold (updated nn_name) (written_netnamespaces [c])) (list_netnamespaces E h) \<and>
     list_hostsubnets E (h @ [(c, None)]) = after_write (fold (updated hs_name) (written_hostsubnets [c])) (list_hostsubnets E h) \<and>
     (\<forall>name. (case c of UpdateEgressIPAM x \<Rightarrow> True | _ \<Rightarrow> get_egressipam E name (h @ [(c, None)]) = get_egressipam E name h)))"

lemma server_after:
  assumes "server_laws E" "all_ok k"
  shows "list_nodes E (h @ k) = list_nodes E h"
    "list_namespaces E (h @ k) = after_write (fold (updated ns_name) (written_namespaces (calls k))) (list_namespaces E h)"
    "list_netnamespaces E (h @ k) = after_write (fold (updated nn_name) (written_netnamespaces (calls k))) (list_netnamespaces E h)"
    "list_hostsubnets E (h @ k) = after_write (fold (updated hs_name) (written_hostsubnets (calls k))) (list_hostsubnets E h)"
    "\<forall>c \<in> set (calls k). \<forall>x. c \<noteq> UpdateEgressIPAM x \<Longrightarrow> get_egressipam E name (h @ k) = get_egressipam E name h"
proof -
  have "list_nodes E (h @ k) = list_nodes E h \<and>
    list_namespaces E (h @ k) = after_write (fold (updated ns_name) (written_namespaces (calls k))) (list_namespaces E h) \<and>
    list_netnamespaces E (h @ k) = after_write (fold (updated nn_name) (written_netnamespaces (calls k))) (list_netnamespaces E h) \<and>
    list_hostsubnets E (h @ k) = after_write (fold (updated hs_name) (written_hostsubnets (calls k))) (list_hostsubnets E h) \<and>
    ((\<forall>c \<in> set (calls k). \<forall>x. c \<noteq> UpdateEgressIPAM x) \<longrightarrow> get_egressipam E name (h @ k) = get_egressipam E name h)"
    using assms(2)
  proof (induction k rule: rev_induct)
    case Nil
    then show ?case by simp
  next
    case (snoc cq k)
    then obtain c where c: "cq = (c, None)" and k: "all_ok k" by (cases cq) (auto simp: all_ok_def)
    note law = assms(1) [unfolded server_laws_def, rule_format, of "h @ k" c]
    have same: "get_egressipam E name ((h @ k) @ [(c, None)]) = get_egressipam E name (h @ k)" if "\<forall>x. c \<noteq> UpdateEgressIPAM x"
      using law that by (cases c) auto
    from snoc.IH [OF k] law same show ?case
      unfolding c append_assoc [symmetric] calls_simps written_simps fold_append by (auto simp: o_def)
  qed
  then show "list_nodes E (h @ k) = list_nodes E h"
    "list_namespaces E (h @ k) = after_write (fold (updated ns_name) (written_namespaces (calls k))) (list_namespaces E h)"
    "list_netnamespaces E (h @ k) = after_write (fold (updated nn_name) (written_netnamespaces (calls k))) (list_netnamespaces E h)"
    "list_hostsubnets E (h @ k) = after_write (fold (updated hs_name) (written_hostsubnets (calls k))) (list_hostsubnets E h)"
    "\<forall>c \<in> set (calls k). \<forall>x. c \<noteq> UpdateEgressIPAM x \<Longrightarrow> get_egressipam E name (h @ k) = get_egressipam E name h"
    by blast+
qed

section \<open>Selected nodes\<close>

text \<open>A node that is listed under a CIDR is selected.\<close>

lemma listed_selected:
  assumes "range_laws E" "distinct (gm_keys (rc_SelectedNodes rc))" "n \<in> set (gm_get [] (by_cidr E rc) c)"
  shows "n \<in> set (gm_keys (rc_SelectedNodes rc))"
  using assms(3) range_lawsD(2) [OF assms(1,2)] by (auto simp: by_cidr_def by_cidr_loop)

section \<open>What a cycle writes\<close>

lemma mset_map_filter: "mset (List.map_filter f xs) = image_mset (the \<circ> f) (filter_mset (\<lambda>x. f x \<noteq> None) (mset xs))"
  by (induction xs) (auto simp: List.map_filter_simps split: option.split)

lemma written_mset:
  assumes "mset cs = mset ds"
  shows "mset (written_netnamespaces cs) = mset (written_netnamespaces ds)" "mset (written_hostsubnets cs) = mset (written_hostsubnets ds)"
  using assms by (simp_all add: written_defs mset_map_filter)

lemma fold_updated_mset:
  assumes "mset us = mset vs" "distinct (map name vs)"
  shows "set (fold (updated name) us xs) = {u \<in> set vs. name u \<in> name ` set xs} \<union> {x \<in> set xs. name x \<notin> name ` set vs}"
proof -
  have "mset (map name us) = mset (map name vs)" using assms(1) by simp
  then have "distinct (map name us)" using assms(2) mset_eq_imp_distinct_iff by blast
  from fold_updated_set [OF this] show ?thesis unfolding mset_eq_setD [OF assms(1)] .
qed

definition netnamespace_object :: "rcontext \<Rightarrow> namespace \<Rightarrow> netnamespace" where
  "netnamespace_object rc n = (gm_get zero_netnamespace (rc_NetNamespaces rc) (ns_name n))
     \<lparr>nn_egressIPs := Some (split_on (CHR '','') (the (ns_ips n)))\<rparr>"

lemma netnamespace_with_object:
  "netnamespace_with rc (split_on (CHR '','') (the (ns_ips n))) n = UpdateNetNamespace (netnamespace_object rc n)"
  by (simp add: netnamespace_with_def netnamespace_object_def)

text \<open>The history of a successful cycle on bare metal.\<close>

lemma bare_metal_cycle:
  assumes laws: "strset_laws E" "schedule_laws E" "multierror_laws E"
    and run: "processReconcileContext E BareMetalInfra rc h = (Inr gs, h')"
  obtains newly assigned nn hs rc1 where
    "h' = h @ map (\<lambda>n. (UpdateNamespace n, None)) newly @ nn @ hs"
    "assignIPsToNamespaces E BareMetalInfra rc h = (Inr newly, h @ map (\<lambda>n. (UpdateNamespace n, None)) newly)"
    "all_ok nn" "mset (calls nn) = mset (map (\<lambda>n. UpdateNetNamespace (netnamespace_object rc n)) (rc_InitiallyAssignedNamespaces rc @ newly))"
    "rc1 = rc\<lparr>rc_FinallyAssignedNamespaces := rc_InitiallyAssignedNamespaces rc @ newly\<rparr>"
    "assignIPsToNodes E (rc1\<lparr>rc_InitiallyAssignedIPsByNode := getAssignedIPsByNode rc1\<rparr>) = Inr assigned"
    "hostsubnet_calls_ok E (cycle_rc rc newly assigned) hs"
proof -
  let ?rc1 = "\<lambda>newly. rc\<lparr>rc_FinallyAssignedNamespaces := rc_InitiallyAssignedNamespaces rc @ newly\<rparr>"
  obtain newly h1 h2 assigned h3 h4 where
    s1: "assignIPsToNamespaces E BareMetalInfra rc h = (Inr newly, h1)" and
    s2: "reconcileNetNamespaces E (?rc1 newly) h1 = (Inr (), h2)" and
    s3: "assignIPsToNodes E ((?rc1 newly)\<lparr>rc_InitiallyAssignedIPsByNode := getAssignedIPsByNode (?rc1 newly)\<rparr>) = Inr assigned" and
    s4: "ReconcileInstanceSecondaryIPs BareMetalInfra (cycle_rc rc newly assigned) h2 = (Inr (), h3)" and
    s5: "(if isCloudInfrastructure (rc_Infrastructure (cycle_rc rc newly assigned)) \<or> 1 < length (rc_CIDRs (cycle_rc rc newly assigned))
      then reconcileHSAssignedIPs E (cycle_rc rc newly assigned) else assignCIDRsToHostSubnets E (cycle_rc rc newly assigned)) h3 = (Inr (), h4)" and
    s6: "updateMetrics E BareMetalInfra (cycle_rc rc newly assigned) h4 = (Inr gs, h')"
    by (rule processReconcileContext_steps [OF run]) blast
  obtain used where "GetUsedIPsByCIDR BareMetalInfra rc h = (Inr used, h)"
    and h1: "h1 = h @ map (\<lambda>n. (UpdateNamespace n, None)) newly"
    using assignIPsToNamespaces_calls [OF s1] bare_metal.used_ips_reads by metis
  obtain nn where nn: "h2 = h1 @ nn" "all_ok nn"
    "mset (calls nn) = mset (map (\<lambda>n. netnamespace_with rc (split_on (CHR '','') (the (ns_ips n))) n)
      (rc_InitiallyAssignedNamespaces rc @ newly))"
    using s2 by (auto elim!: reconcileNetNamespaces_Inr [OF laws(2,3)] simp: netnamespace_with_def)
  have h3: "h3 = h2" using s4 by (simp add: BareMetalInfra_def ReconcileInstanceSecondaryIPs_BM_def)
  obtain hs where hs: "h4 = h3 @ hs" "hostsubnet_calls_ok E (cycle_rc rc newly assigned) hs"
    using hostsubnet_Inr [OF laws(2,3,1) s5] .
  have "h' = h4" by (rule bare_metal.updateMetrics_reads [OF s6])
  with that [of newly nn hs "?rc1 newly" assigned] s1 h1 nn s3 h3 hs show ?thesis unfolding netnamespace_with_object by simp
qed

section \<open>Namespaces after a cycle\<close>

lemma namespaces_after:
  assumes "distinct (map ns_name items)"
    and "\<And>m. m \<in> set newly \<Longrightarrow> ns_egressipam m = Some x \<and> ns_ips m \<noteq> None"
    and names: "map ns_name newly = map ns_name (filter (\<lambda>n. ns_egressipam n = Some x \<and> ns_ips n = None) items)"
  shows "filter (\<lambda>n. ns_egressipam n = Some x \<and> ns_ips n = None) (fold (updated ns_name) newly items) = []"
    "set (filter (\<lambda>n. ns_egressipam n = Some x \<and> ns_ips n \<noteq> None) (fold (updated ns_name) newly items)) =
      set (filter (\<lambda>n. ns_egressipam n = Some x \<and> ns_ips n \<noteq> None) items @ newly)"
    "distinct (map ns_name (filter (\<lambda>n. ns_egressipam n = Some x \<and> ns_ips n \<noteq> None) items @ newly))"
proof -
  let ?un = "filter (\<lambda>n. ns_egressipam n = Some x \<and> ns_ips n = None) items"
  let ?as = "filter (\<lambda>n. ns_egressipam n = Some x \<and> ns_ips n \<noteq> None) items"
  have inj: "m = n" if "m \<in> set items" "n \<in> set items" "ns_name m = ns_name n" for m n
    using assms(1) that by (auto simp: distinct_map inj_on_def)
  have apart: "ns_name m \<notin> ns_name ` set ?un" if "m \<in> set ?as" for m
  proof
    assume "ns_name m \<in> ns_name ` set ?un"
    then obtain n where "n \<in> set ?un" "ns_name m = ns_name n" by blast
    with inj [of m n] that show False by simp
  qed
  have name_set: "ns_name ` set newly = ns_name ` set ?un" using names by (metis set_map)
  have d: "distinct (map ns_name newly)" unfolding names using assms(1) by (rule distinct_map_filter)
  have after: "set (fold (updated ns_name) newly items) = set newly \<union> {m \<in> set items. ns_name m \<notin> ns_name ` set ?un}"
  proof -
    have "ns_name u \<in> ns_name ` set items" if "u \<in> set newly" for u
      using that name_set by (metis (no_types, lifting) filter_is_subset image_mono imageI subsetD)
    then show ?thesis using fold_updated_set [OF d] name_set by auto
  qed
  show "filter (\<lambda>n. ns_egressipam n = Some x \<and> ns_ips n = None) (fold (updated ns_name) newly items) = []"
    unfolding filter_empty_conv after using assms(2) by force
  show "set (filter (\<lambda>n. ns_egressipam n = Some x \<and> ns_ips n \<noteq> None) (fold (updated ns_name) newly items)) = set (?as @ newly)"
    unfolding set_filter set_append after using assms(2) apart by auto
  have "ns_name ` set ?as \<inter> ns_name ` set ?un = {}" using apart by blast
  then have "ns_name ` set ?as \<inter> ns_name ` set newly = {}" by (simp only: name_set)
  moreover have "distinct (map ns_name ?as)" using assms(1) by (rule distinct_map_filter)
  ultimately show "distinct (map ns_name (?as @ newly))" using d by (simp only: map_append distinct_append set_map simp_thms)
qed

section \<open>NetNamespaces after a cycle\<close>

lemma netnamespaces_after:
  assumes d: "distinct (map nn_name nns)" "distinct (map ns_name ns)"
    and has: "\<And>n. n \<in> set ns \<Longrightarrow> ns_name n \<in> nn_name ` set nns"
    and rc: "rc_NetNamespaces rc = fold (\<lambda>nn. gm_put (nn_name nn) nn) nns []"
    and us: "mset us = mset (map (netnamespace_object rc) ns)" and nns': "nns' = fold (updated nn_name) us nns"
    and rc': "rc_NetNamespaces rc' = fold (\<lambda>nn. gm_put (nn_name nn) nn) nns' []"
    and n: "n \<in> set ns"
  shows "netnamespace_object rc' n \<in> set nns'"
proof -
  have name: "nn_name (netnamespace_object rc m) = ns_name m" if m: "m \<in> set ns" for m
  proof -
    from has [OF m] obtain nn where nn: "nn \<in> set nns" "nn_name nn = ns_name m" by force
    with by_name_get [OF d(1) nn(1)] rc have "map_of (rc_NetNamespaces rc) (ns_name m) = Some nn" by simp
    with nn(2) show ?thesis by (simp add: netnamespace_object_def gm_get_def)
  qed
  have "map nn_name (map (netnamespace_object rc) ns) = map ns_name ns" using name by simp
  then have dn: "distinct (map nn_name (map (netnamespace_object rc) ns))" using d(2) by (simp only:)
  have "netnamespace_object rc n \<in> set nns'"
    unfolding nns' fold_updated_mset [OF us dn] using n name [OF n] has [OF n] by auto
  moreover have "distinct (map nn_name nns')" using d(1) by (simp add: nns')
  ultimately have "map_of (rc_NetNamespaces rc') (ns_name n) = Some (netnamespace_object rc n)"
    using by_name_get [of nn_name nns' "netnamespace_object rc n"] name [OF n] rc' by simp
  then have "netnamespace_object rc' n = netnamespace_object rc n"
    by (simp add: netnamespace_object_def gm_get_def)
  with \<open>netnamespace_object rc n \<in> set nns'\<close> show ?thesis by simp
qed

section \<open>HostSubnets after a cycle\<close>

lemma by_name_entry:
  assumes "distinct (map name xs)" "(k, x) \<in> set (fold (\<lambda>x. gm_put (name x) x) xs [])"
  shows "x \<in> set xs" "name x = k"
proof -
  have "distinct (gm_keys (fold (\<lambda>x. gm_put (name x) x) xs []))" by (rule distinct_fold_put_by_name) simp
  with assms(2) have "map_of (fold (\<lambda>x. gm_put (name x) x) xs []) k = Some x" by simp
  from by_name_in [OF assms(1) this] show "x \<in> set xs" "name x = k" .
qed

lemma in_by_name:
  assumes "distinct (map name xs)" "x \<in> set xs"
  shows "(name x, x) \<in> set (fold (\<lambda>x. gm_put (name x) x) xs [])"
  using by_name_get [OF assms] by (rule map_of_SomeD)

lemma hs_with_ips_name [simp]: "hs_name (hs_with_ips hs ips) = hs_name hs" "hs_egressIPs (hs_with_ips hs ips) = Some ips"
  by (simp_all add: hs_with_ips_def)

lemma written_hs_updates:
  "written_hostsubnets (hs_updates rc m) =
    map (\<lambda>(name, hs). hs_with_ips hs (gm_get [] (rc_FinallyAssignedIPsByNode rc) name)) (filter (hs_differs rc) m)"
  by (induction m) (auto simp: written_hostsubnets_def hs_updates_def List.map_filter_simps)

text \<open>With several CIDRs: the selected HostSubnets carry what was assigned to their nodes.\<close>

lemma hostsubnets_placed:
  assumes d: "distinct (map hs_name subnets)"
    and m: "m = filter (\<lambda>(name, hs). S name) (fold (\<lambda>hs. gm_put (hs_name hs) hs) subnets [])"
    and cs: "mset cs = mset (hs_updates rc m)"
    and m': "m' = filter (\<lambda>(name, hs). S name) (fold (\<lambda>hs. gm_put (hs_name hs) hs) (fold (updated hs_name) (written_hostsubnets cs) subnets) [])"
    and hs': "(name, hs') \<in> set m'"
  shows "set (slice_elems (hs_egressIPs hs')) = set (gm_get [] (rc_FinallyAssignedIPsByNode rc) name)"
proof -
  let ?R = "rc_FinallyAssignedIPsByNode rc" and ?subnets = "fold (updated hs_name) (written_hostsubnets cs) subnets"
  let ?us = "map (\<lambda>(name, hs). hs_with_ips hs (gm_get [] ?R name)) (filter (hs_differs rc) m)"
  have entry: "hs \<in> set subnets \<and> hs_name hs = n \<and> S n" if "(n, hs) \<in> set m" for n hs
    using that by_name_entry [OF d, of n hs] by (auto simp: m)
  have names: "map hs_name ?us = map fst (filter (hs_differs rc) m)" using entry by auto
  have "distinct (map fst m)" unfolding m by (intro distinct_map_filter distinct_fold_put_by_name) simp
  then have "distinct (map hs_name ?us)" unfolding names by (rule distinct_map_filter)
  with fold_updated_mset [of "written_hostsubnets cs" ?us hs_name subnets] written_mset(2) [OF cs]
  have after: "set ?subnets = {u \<in> set ?us. hs_name u \<in> hs_name ` set subnets} \<union> {hs \<in> set subnets. hs_name hs \<notin> hs_name ` set ?us}"
    unfolding written_hs_updates by blast
  have "hs' \<in> set ?subnets" and name: "hs_name hs' = name" "S name"
    using hs' by_name_entry [of hs_name ?subnets name hs'] d unfolding m' by auto
  then consider "hs' \<in> set ?us" | "hs' \<in> set subnets" "hs_name hs' \<notin> hs_name ` set ?us" using after by blast
  then show ?thesis
  proof cases
    case 1
    then obtain n hs where "(n, hs) \<in> set m" "hs' = hs_with_ips hs (gm_get [] ?R n)" by auto
    with entry name(1) show ?thesis by auto
  next
    case 2
    then have "(name, hs') \<in> set m" using in_by_name [OF d 2(1)] name by (auto simp: m)
    moreover have "\<not> hs_differs rc (name, hs')"
    proof
      assume "hs_differs rc (name, hs')"
      with \<open>(name, hs') \<in> set m\<close> have "hs_with_ips hs' (gm_get [] ?R name) \<in> set ?us" by force
      then have "hs_name (hs_with_ips hs' (gm_get [] ?R name)) \<in> hs_name ` set ?us" by (rule imageI)
      with 2(2) show False by simp
    qed
    ultimately show ?thesis by (simp add: hs_differs_def)
  qed
qed

text \<open>With one CIDR: no node needs its egress CIDR any more.\<close>

lemma distinct_concat_disjoint:
  assumes "distinct ks" "\<And>c. distinct (f c)" "\<And>c c'. c \<noteq> c' \<Longrightarrow> set (f c) \<inter> set (f c') = {}"
  shows "distinct (concat (map f ks))"
  using assms(1)
proof (induction ks)
  case (Cons k ks)
  then have "set (f k) \<inter> set (f c) = {}" if "c \<in> set ks" for c using assms(3) [of k c] that by auto
  with Cons assms(2) show ?case by auto
qed simp

lemma cidr_nodes_distinct:
  assumes "range_laws E" "node_lists_ok rc"
  shows "distinct (map snd (cidr_nodes E rc))"
proof -
  have "map snd (cidr_nodes E rc) = concat (map (gm_get [] (rc_SelectedNodesByCIDR rc)) (range_order E 138 (gm_keys (rc_SelectedNodesByCIDR rc))))"
    by (simp add: cidr_nodes_def map_concat comp_def)
  also have "distinct \<dots>"
    using assms range_lawsD(1) [OF assms(1)] by (intro distinct_concat_disjoint) (auto simp: node_lists_ok_def)
  finally show ?thesis .
qed

lemma hostsubnets_cidrs:
  assumes d: "distinct (map hs_name subnets)" "distinct (map snd (cidr_nodes E rc))"
    and has: "\<And>c n. (c, n) \<in> set (cidr_nodes E rc) \<Longrightarrow> n \<in> hs_name ` set subnets"
    and rc: "rc_AllHostSubnets rc = fold (\<lambda>hs. gm_put (hs_name hs) hs) subnets []"
    and cs: "cs = map (cidr_update rc) (filter (needs_cidr rc) (cidr_nodes E rc))"
    and rc': "rc_AllHostSubnets rc' = fold (\<lambda>hs. gm_put (hs_name hs) hs) (fold (updated hs_name) (written_hostsubnets cs) subnets) []"
    and cn: "(c, n) \<in> set (cidr_nodes E rc)"
  shows "\<not> needs_cidr rc' (c, n)"
proof -
  let ?hs = "gm_get zero_hostsubnet (rc_AllHostSubnets rc)" and ?subnets = "fold (updated hs_name) (written_hostsubnets cs) subnets"
  let ?new = "\<lambda>(c, n). (?hs n)\<lparr>hs_egressCIDRs := Some [c], hs_egressIPs := Some []\<rparr>"
  let ?us = "map ?new (filter (needs_cidr rc) (cidr_nodes E rc))"
  have old: "?hs n \<in> set subnets \<and> hs_name (?hs n) = n" if cn: "(c, n) \<in> set (cidr_nodes E rc)" for c n
  proof -
    from has [OF cn] obtain hs where "hs \<in> set subnets" "hs_name hs = n" by blast
    with by_name_get [OF d(1), of hs] rc show ?thesis by (simp add: gm_get_def)
  qed
  have us: "written_hostsubnets cs = ?us"
    unfolding cs written_hostsubnets_def List.map_filter_def by (auto simp: cidr_update_def comp_def split: prod.splits intro!: arg_cong2 [where f = map] )
  have names: "map hs_name ?us = map snd (filter (needs_cidr rc) (cidr_nodes E rc))" using old by auto
  then have dus: "distinct (map hs_name ?us)" using d(2) by (simp only: distinct_map_filter)
  from has [OF cn] obtain hs' where hs': "hs' \<in> set ?subnets" "hs_name hs' = n"
    using fold_updated_name_set [of hs_name "written_hostsubnets cs" subnets] by (metis imageE)
  then have get: "gm_get zero_hostsubnet (rc_AllHostSubnets rc') n = hs'"
    using by_name_get [of hs_name ?subnets hs'] d(1) rc' by (simp add: gm_get_def)
  have "hs' \<in> set (fold (updated hs_name) ?us subnets)" using hs'(1) unfolding us .
  then consider "hs' \<in> set ?us" | "hs' \<in> set subnets" "n \<notin> hs_name ` set ?us"
    unfolding fold_updated_set [OF dus] using hs'(2) by blast
  then show ?thesis
  proof cases
    case 1
    then obtain c' n' where c': "(c', n') \<in> set (cidr_nodes E rc)" "hs' = ?new (c', n')" by auto
    then have "n' = n" using old hs'(2) by simp
    have "inj_on snd (set (cidr_nodes E rc))" using d(2) by (simp add: distinct_map)
    from inj_onD [OF this _ c'(1) cn] have "c' = c" using \<open>n' = n\<close> by simp
    with c'(2) get show ?thesis by (simp add: needs_cidr_def)
  next
    case 2
    have "\<not> needs_cidr rc (c, n)"
    proof
      assume "needs_cidr rc (c, n)"
      then have "?new (c, n) \<in> set ?us" using cn by force
      then have "hs_name (?new (c, n)) \<in> hs_name ` set ?us" by (rule imageI)
      with 2(2) old [OF cn] show False by simp
    qed
    moreover have "?hs n = hs'" using by_name_get [OF d(1) 2(1)] hs'(2) rc by (simp add: gm_get_def)
    ultimately show ?thesis using get by (simp add: needs_cidr_def)
  qed
qed

section \<open>The context of the second cycle\<close>

definition same_frame :: "rcontext \<Rightarrow> rcontext \<Rightarrow> bool" where
  "same_frame rc rc' \<longleftrightarrow> rc_Infrastructure rc' = rc_Infrastructure rc \<and> rc_CIDRs rc' = rc_CIDRs rc \<and>
     rc_NetCIDRByCIDR rc' = rc_NetCIDRByCIDR rc \<and> rc_AllNodes rc' = rc_AllNodes rc \<and>
     rc_SelectedNodes rc' = rc_SelectedNodes rc \<and> rc_SelectedNodesByCIDR rc' = rc_SelectedNodesByCIDR rc"

lemma loaded_same_frame:
  assumes "loaded_from E rc0 matches nodes subnets items nns rc" "loaded_from E rc0 matches nodes subnets' items' nns' rc'"
  shows "same_frame rc rc'"
proof -
  have "by_cidr E rc' = by_cidr E rc" by (rule by_cidr_cong) (use assms in \<open>simp_all add: loaded_from_def\<close>)
  with assms show ?thesis by (simp add: same_frame_def loaded_from_def)
qed

lemma same_frame_facts:
  assumes "same_frame rc rc'"
  shows "readable rc' = readable rc" "ready_nodes rc' = ready_nodes rc" "node_ready rc' = node_ready rc"
    "cidr_nodes E rc' = cidr_nodes E rc" "nets_ok rc' = nets_ok rc"
  using assms by (simp_all add: same_frame_def fun_eq_iff readable_def ready_nodes_def node_ready_def cidr_nodes_def nets_ok_def)

lemma started_ok:
  assumes "ctx_ok rc" "rc1 = rc\<lparr>rc_FinallyAssignedNamespaces := ns\<rparr>"
  shows "node_lists_ok (rc1\<lparr>rc_InitiallyAssignedIPsByNode := getAssignedIPsByNode rc1\<rparr>)"
    "initial_ok (rc1\<lparr>rc_InitiallyAssignedIPsByNode := getAssignedIPsByNode rc1\<rparr>)"
    "cidrs_ok (rc1\<lparr>rc_InitiallyAssignedIPsByNode := getAssignedIPsByNode rc1\<rparr>)"
    "nets_ok (rc1\<lparr>rc_InitiallyAssignedIPsByNode := getAssignedIPsByNode rc1\<rparr>)"
proof -
  let ?rc = "rc1\<lparr>rc_InitiallyAssignedIPsByNode := getAssignedIPsByNode rc1\<rparr>"
  show "node_lists_ok ?rc" "initial_ok ?rc"
    using ctx_ok_initial [OF assms(1), of "[]" "[]"]
    by (simp_all add: assms(2) cycle_rc_def Let_def node_lists_ok_def initial_ok_def node_ready_def getAssignedIPsByNode_def)
  have "cidrs_ok ?rc = cidrs_ok rc" by (rule cidrs_ok_cong) (simp_all add: assms(2))
  then show "cidrs_ok ?rc" "nets_ok ?rc" using assms by (simp_all add: ctx_ok_def nets_ok_def)
qed

text \<open>An address that is on a node is on a ready one, which is selected and has a HostSubnet.\<close>

lemma assigned_nodes:
  assumes laws: "range_laws E" "strset_laws E" and ok: "ctx_ok rc"
    and listing: "rc_SelectedNodesByCIDR rc = by_cidr E rc"
    and sel: "rc_SelectedHostSubnets rc = filter (\<lambda>(name, hs). map_of (rc_SelectedNodes rc) name \<noteq> None) (rc_AllHostSubnets rc)"
    and run: "assignIPsToNodes E (rc1\<lparr>rc_InitiallyAssignedIPsByNode := getAssignedIPsByNode rc1\<rparr>) = Inr R"
    and rc1: "rc1 = rc\<lparr>rc_FinallyAssignedNamespaces := ns\<rparr>"
    and ip: "ip \<in> set (gm_get [] R n)"
  shows "node_ready rc n" "map_of (rc_SelectedNodes rc) n \<noteq> None"
proof -
  let ?rc = "rc1\<lparr>rc_InitiallyAssignedIPsByNode := getAssignedIPsByNode rc1\<rparr>"
  have sel_keys: "distinct (gm_keys (rc_SelectedNodes rc))" using ok by (simp add: ctx_ok_def)
  have same: "ready_nodes ?rc = ready_nodes rc" by (simp add: fun_eq_iff rc1 ready_nodes_def node_ready_def)
  note ok2 = started_ok(1,2) [OF ok rc1]
  have listed: "node_ready rc n \<and> map_of (rc_SelectedNodes rc) n \<noteq> None" if "n \<in> ready_nodes rc c" for c
  proof -
    from that have "node_ready rc n" "n \<in> set (gm_get [] (by_cidr E rc) c)" by (simp_all add: ready_nodes_def listing)
    with listed_selected [OF laws(1) sel_keys] show ?thesis by (simp add: map_of_eq_None_iff)
  qed
  have carrying: "node_ready rc n \<and> map_of (rc_SelectedNodes rc) n \<noteq> None" if "ip \<in> set (gm_get [] (getAssignedIPsByNode rc1) n)"
  proof -
    have d: "distinct (gm_keys (rc_SelectedHostSubnets rc1))" using ok by (simp add: ctx_ok_def rc1)
    from that obtain v where "map_of (getAssignedIPsByNode rc1) n = Some v"
      by (cases "map_of (getAssignedIPsByNode rc1) n") (auto simp: gm_get_def)
    then obtain hs nd where "map_of (rc_SelectedHostSubnets rc1) n = Some hs" "map_of (rc_AllNodes rc1) n = Some nd" "is_ready nd"
      unfolding getAssignedIPsByNode_get [OF d] by (auto split: option.splits if_splits)
    then have "map_of (rc_SelectedHostSubnets rc) n = Some hs" "map_of (rc_AllNodes rc) n = Some nd" "is_ready nd"
      by (simp_all add: rc1)
    then show ?thesis by (auto simp: node_ready_def sel dest!: map_of_SomeD)
  qed
  have "node_ready rc n \<and> map_of (rc_SelectedNodes rc) n \<noteq> None"
    using assignIPsToNodes_keeps [OF laws ok2 run, of ip n] ip listed carrying unfolding same
    by (cases "ip \<in> set (gm_get [] (getAssignedIPsByNode rc1) n)") auto
  then show "node_ready rc n" "map_of (rc_SelectedNodes rc) n \<noteq> None" by blast+
qed

text \<open>With several CIDRs the second cycle finds every address on the node where the first put it.\<close>

lemma found_again:
  assumes frame: "same_frame rc rc'" and ok: "distinct (gm_keys (rc_SelectedHostSubnets rc'))"
    and has: "fst ` set (rc_AllNodes rc) \<subseteq> fst ` set (rc_AllHostSubnets rc')"
    and sel: "rc_SelectedHostSubnets rc' = filter (\<lambda>(name, hs). map_of (rc_SelectedNodes rc') name \<noteq> None) (rc_AllHostSubnets rc')"
    and placed: "\<And>name hs. (name, hs) \<in> set (rc_SelectedHostSubnets rc') \<Longrightarrow> set (slice_elems (hs_egressIPs hs)) = set (gm_get [] R name)"
    and R: "\<And>ip n. ip \<in> set (gm_get [] R n) \<Longrightarrow> node_ready rc n \<and> map_of (rc_SelectedNodes rc) n \<noteq> None"
  shows "set (gm_get [] (getAssignedIPsByNode rc') n) = set (gm_get [] R n)"
proof (cases "gm_get [] R n")
  case Nil
  show ?thesis
  proof (cases "map_of (getAssignedIPsByNode rc') n")
    case (Some v)
    then obtain hs where hs: "map_of (rc_SelectedHostSubnets rc') n = Some hs" and v: "v = slice_elems (hs_egressIPs hs)"
      by (auto simp: getAssignedIPsByNode_get [OF ok] split: option.splits if_splits)
    have "gm_get [] (getAssignedIPsByNode rc') n = v" by (simp add: gm_get_def Some)
    with placed [OF map_of_SomeD [OF hs]] v show ?thesis by simp
  qed (use Nil in \<open>simp add: gm_get_def\<close>)
next
  case (Cons ip ips)
  then have n: "node_ready rc n" "map_of (rc_SelectedNodes rc) n \<noteq> None" using R [of ip n] by auto
  then obtain nd where nd: "map_of (rc_AllNodes rc) n = Some nd" "is_ready nd" by (auto simp: node_ready_def split: option.splits)
  then have "n \<in> fst ` set (rc_AllHostSubnets rc')" using has by (force dest: map_of_SomeD)
  then obtain hs where "(n, hs) \<in> set (rc_AllHostSubnets rc')" by force
  then have hs: "(n, hs) \<in> set (rc_SelectedHostSubnets rc')" using n(2) frame by (simp add: sel same_frame_def)
  with ok have "map_of (rc_SelectedHostSubnets rc') n = Some hs" by simp
  then have "gm_get [] (getAssignedIPsByNode rc') n = slice_elems (hs_egressIPs hs)"
    using nd frame by (simp add: gm_get_def getAssignedIPsByNode_get [OF ok] same_frame_def)
  with placed [OF hs] show ?thesis by simp
qed

section \<open>Two cycles in a row\<close>

text \<open>What the first cycle leaves in the lists, as the second one loads it.\<close>

lemma first_cycle:
  assumes laws: "range_laws E" "ipmath_laws E" "u32set_laws E" "strset_laws E" "multierror_laws E" "schedule_laws E"
    and server: "server_laws E" and ok: "ctx_ok rc"
    and loaded: "loaded_from E rc0 matches nodes subnets items nns rc" and x: "x = ei_name (rc_EgressIPAM rc0)"
    and names: "distinct (map ns_name items)"
    and run: "processReconcileContext E BareMetalInfra rc h = (Inr gs, h1)"
  obtains newly assigned nn hs rc1 k where "h1 = h @ k" "all_ok k" "\<forall>c \<in> set (calls k). \<forall>y. c \<noteq> UpdateEgressIPAM y"
    "written_namespaces (calls k) = newly" "written_netnamespaces (calls k) = written_netnamespaces (calls nn)"
    "written_hostsubnets (calls k) = written_hostsubnets (calls hs)"
    "\<forall>n \<in> set newly. readable rc n \<and> ns_egressipam n = Some x \<and> ns_ips n \<noteq> None"
    "map ns_name newly = map ns_name (filter (\<lambda>n. ns_egressipam n = Some x \<and> ns_ips n = None) items)"
    "mset (calls nn) = mset (map (\<lambda>n. UpdateNetNamespace (netnamespace_object rc n)) (rc_InitiallyAssignedNamespaces rc @ newly))"
    "rc1 = rc\<lparr>rc_FinallyAssignedNamespaces := rc_InitiallyAssignedNamespaces rc @ newly\<rparr>"
    "assignIPsToNodes E (rc1\<lparr>rc_InitiallyAssignedIPsByNode := getAssignedIPsByNode rc1\<rparr>) = Inr assigned"
    "hostsubnet_calls_ok E (cycle_rc rc newly assigned) hs"
proof -
  obtain newly assigned nn hs rc1 where h1: "h1 = h @ map (\<lambda>n. (UpdateNamespace n, None)) newly @ nn @ hs"
    and alloc: "assignIPsToNamespaces E BareMetalInfra rc h = (Inr newly, h @ map (\<lambda>n. (UpdateNamespace n, None)) newly)"
    and nn: "all_ok nn" "mset (calls nn) = mset (map (\<lambda>n. UpdateNetNamespace (netnamespace_object rc n)) (rc_InitiallyAssignedNamespaces rc @ newly))"
    and rc1: "rc1 = rc\<lparr>rc_FinallyAssignedNamespaces := rc_InitiallyAssignedNamespaces rc @ newly\<rparr>"
    and nodes: "assignIPsToNodes E (rc1\<lparr>rc_InitiallyAssignedIPsByNode := getAssignedIPsByNode rc1\<rparr>) = Inr assigned"
    and hs: "hostsubnet_calls_ok E (cycle_rc rc newly assigned) hs"
    by (rule bare_metal_cycle [OF laws(4,6,5) run]) blast
  let ?k = "map (\<lambda>n. (UpdateNamespace n, None)) newly @ nn @ hs"
  have un: "rc_UnAssignedNamespaces rc = filter (\<lambda>n. ns_egressipam n = Some x \<and> ns_ips n = None) items"
    using loaded x by (simp add: loaded_from_def)
  have "GetUsedIPsByCIDR BareMetalInfra rc h = (Inr (fold (\<lambda>cidr. gm_put cidr []) (rc_CIDRs rc) []), h)"
    by (simp add: BareMetalInfra_def GetUsedIPsByCIDR_BM_def)
  moreover have "used_ips_ok (rc_CIDRs rc) (fold (\<lambda>cidr. gm_put cidr []) (rc_CIDRs rc) [])"
    by (simp add: used_ips_ok_def gm_get_fold_put)
  moreover have "cidrs_ok rc" using ok by (simp add: ctx_ok_def)
  ultimately obtain ps where len: "length ps = length (rc_UnAssignedNamespaces rc)" "length newly = length ps"
    and readable: "\<forall>n \<in> set newly. readable rc n"
    and ann: "\<And>j. j < length newly \<Longrightarrow> annotated rc (rc_UnAssignedNamespaces rc ! j) (ps ! j) (newly ! j)"
    using assigned_draws [OF laws(1-4) _ _ _ alloc] by metis
  have "ns_egressipam n = Some x \<and> ns_ips n \<noteq> None" if n: "n \<in> set newly" for n
  proof -
    from n obtain j where j: "j < length newly" "n = newly ! j" by (auto simp: in_set_conv_nth)
    then have "ns_egressipam (rc_UnAssignedNamespaces rc ! j) = Some x"
      using len nth_mem [of j "rc_UnAssignedNamespaces rc"] by (simp add: un)
    then show ?thesis using ann [OF j(1)] readable n j(2)
      by (auto simp: annotated_def ns_egressipam_def getAnnotation_set readable_def)
  qed
  moreover have netcalls: "\<forall>c \<in> set (calls nn). is_netnamespace_call c" using mset_eq_setD [OF nn(2)] by auto
  moreover have hscalls: "all_ok hs \<and> (\<forall>c \<in> set (calls hs). is_hostsubnet_call c)"
  proof -
    have "\<forall>c \<in> set (hs_updates rc m). is_hostsubnet_call c" "\<forall>c \<in> set (map (cidr_update rc) l). is_hostsubnet_call c" for rc m l
      by (auto simp: hs_updates_def cidr_update_def)
    then show ?thesis using hs unfolding hostsubnet_calls_ok_def by (metis mset_eq_setD)
  qed
  ultimately have "\<forall>n \<in> set newly. readable rc n \<and> ns_egressipam n = Some x \<and> ns_ips n \<noteq> None" using readable by blast
  have none: "written_namespaces cs = []" if "\<forall>c \<in> set cs. is_netnamespace_call c \<or> is_hostsubnet_call c" for cs
    using that by (induction cs) (auto simp: written_defs List.map_filter_simps split: api_call.splits)
  have none': "written_netnamespaces cs = []" if "\<forall>c \<in> set cs. is_namespace_call c \<or> is_hostsubnet_call c" for cs
    using that by (induction cs) (auto simp: written_defs List.map_filter_simps split: api_call.splits)
  have none'': "written_hostsubnets cs = []" if "\<forall>c \<in> set cs. is_namespace_call c \<or> is_netnamespace_call c" for cs
    using that by (induction cs) (auto simp: written_defs List.map_filter_simps split: api_call.splits)
  have news: "calls (map (\<lambda>n. (UpdateNamespace n, None)) newly) = map UpdateNamespace newly" by (simp add: calls_def)
  have all: "written_namespaces (map UpdateNamespace newly) = newly"
    by (induction newly) (simp_all add: written_defs List.map_filter_simps)
  show ?thesis
  proof (rule that [of ?k newly nn hs rc1 assigned])
    show "all_ok ?k" using nn(1) hscalls by simp
    show "\<forall>c \<in> set (calls ?k). \<forall>y. c \<noteq> UpdateEgressIPAM y" using netcalls hscalls by (auto simp: news)
    show "written_namespaces (calls ?k) = newly" using none [of "calls nn"] none [of "calls hs"] netcalls hscalls by (simp add: news all)
    show "written_netnamespaces (calls ?k) = written_netnamespaces (calls nn)"
      using none' [of "map UpdateNamespace newly"] none' [of "calls hs"] hscalls by (simp add: news)
    show "written_hostsubnets (calls ?k) = written_hostsubnets (calls hs)"
      using none'' [of "map UpdateNamespace newly"] none'' [of "calls nn"] netcalls by (simp add: news)
    show "map ns_name newly = map ns_name (filter (\<lambda>n. ns_egressipam n = Some x \<and> ns_ips n = None) items)"
      using assigned_names [OF alloc] un by simp
  qed (fact h1 nn(2) rc1 nodes hs \<open>\<forall>n \<in> set newly. readable rc n \<and> ns_egressipam n = Some x \<and> ns_ips n \<noteq> None\<close>)+
qed

text \<open>The second cycle, on what the server lists after the first.\<close>

lemma second_cycle:
  assumes laws: "range_laws E" "ipmath_laws E" "size_law E" "u32set_laws E" "strset_laws E" "multierror_laws E" "schedule_laws E"
    and server: "accepting E" "server_laws E" and ok: "ctx_ok rc" "ctx_ok rc'" "distinct (rc_CIDRs rc)" and serve: "servable rc"
    and loaded: "loaded_from E rc0 matches nodes subnets items nns rc" and x: "x = ei_name (rc_EgressIPAM rc0)"
    and names: "distinct (map ns_name items)" "distinct (map nn_name nns)" "distinct (map hs_name subnets)"
    and nets: "\<And>n. n \<in> set items \<Longrightarrow> ns_egressipam n = Some x \<Longrightarrow> ns_name n \<in> nn_name ` set nns"
    and run: "processReconcileContext E BareMetalInfra rc h = (Inr gs, h @ k)"
    and k: "written_namespaces (calls k) = newly" "written_netnamespaces (calls k) = written_netnamespaces (calls nn)"
      "written_hostsubnets (calls k) = written_hostsubnets (calls hs)"
      "\<forall>n \<in> set newly. readable rc n \<and> ns_egressipam n = Some x \<and> ns_ips n \<noteq> None"
      "map ns_name newly = map ns_name (filter (\<lambda>n. ns_egressipam n = Some x \<and> ns_ips n = None) items)"
      "mset (calls nn) = mset (map (\<lambda>n. UpdateNetNamespace (netnamespace_object rc n)) (rc_InitiallyAssignedNamespaces rc @ newly))"
      "rc1 = rc\<lparr>rc_FinallyAssignedNamespaces := rc_InitiallyAssignedNamespaces rc @ newly\<rparr>"
      "assignIPsToNodes E (rc1\<lparr>rc_InitiallyAssignedIPsByNode := getAssignedIPsByNode rc1\<rparr>) = Inr assigned"
      "hostsubnet_calls_ok E (cycle_rc rc newly assigned) hs"
    and loaded': "loaded_from E rc0 matches nodes (fold (updated hs_name) (written_hostsubnets (calls k)) subnets)
      (fold (updated ns_name) (written_namespaces (calls k)) items) (fold (updated nn_name) (written_netnamespaces (calls k)) nns) rc'"
  shows "\<exists>gs' k'. processReconcileContext E BareMetalInfra rc' h' = (Inr gs', h' @ k') \<and> all_ok k' \<and>
    written_namespaces (calls k') = [] \<and> written_hostsubnets (calls k') = [] \<and>
    set (written_netnamespaces (calls k')) \<subseteq> set (fold (updated nn_name) (written_netnamespaces (calls k)) nns) \<and>
    (\<forall>c \<in> set (calls k'). is_netnamespace_call c)"
proof -
  let ?final = "rc_InitiallyAssignedNamespaces rc @ newly"
  let ?nns = "fold (updated nn_name) (written_netnamespaces (calls k)) nns"
  let ?subnets = "fold (updated hs_name) (written_hostsubnets (calls k)) subnets"
  note frame = loaded_same_frame [OF loaded loaded'] and L = loaded [unfolded loaded_from_def] and L' = loaded' [unfolded loaded_from_def]
  note same = same_frame_facts [OF frame] and F = frame [unfolded same_frame_def]
  have init: "rc_InitiallyAssignedNamespaces rc = filter (\<lambda>n. ns_egressipam n = Some x \<and> ns_ips n \<noteq> None) items"
    using L x by simp
  have "\<And>m. m \<in> set newly \<Longrightarrow> ns_egressipam m = Some x \<and> ns_ips m \<noteq> None" using k(4) by blast
  note after = namespaces_after [OF names(1) this k(5)]
  have un': "rc_UnAssignedNamespaces rc' = []" using L' x k(1) after(1) by simp
  have init': "set (rc_InitiallyAssignedNamespaces rc') = set ?final" using L' x k(1) after(2) init by simp
  have keys: "fst ` set (rc_AllHostSubnets rc') = fst ` set (rc_AllHostSubnets rc)"
    using L L' by (simp add: keys_fold_put_by_name)
  have serve': "servable rc'"
    unfolding servable_def same un' keys init' using servableD [OF serve] k(4) F by (auto simp: readable_def)
  have dist': "distinct (rc_CIDRs rc')" using ok(3) F by simp
  obtain gs' h2 where run': "processReconcileContext E BareMetalInfra rc' h' = (Inr gs', h2)"
    using processReconcileContext_succeeds [OF laws(1-6) server(1) ok(2) dist' serve'] by blast
  obtain newly' assigned' nn' hs' rc1' where h2: "h2 = h' @ map (\<lambda>n. (UpdateNamespace n, None)) newly' @ nn' @ hs'"
    and alloc': "assignIPsToNamespaces E BareMetalInfra rc' h' = (Inr newly', h' @ map (\<lambda>n. (UpdateNamespace n, None)) newly')"
    and nn': "all_ok nn'" "mset (calls nn') = mset (map (\<lambda>n. UpdateNetNamespace (netnamespace_object rc' n)) (rc_InitiallyAssignedNamespaces rc' @ newly'))"
    and rc1': "rc1' = rc'\<lparr>rc_FinallyAssignedNamespaces := rc_InitiallyAssignedNamespaces rc' @ newly'\<rparr>"
    and nodes': "assignIPsToNodes E (rc1'\<lparr>rc_InitiallyAssignedIPsByNode := getAssignedIPsByNode rc1'\<rparr>) = Inr assigned'"
    and hs': "hostsubnet_calls_ok E (cycle_rc rc' newly' assigned') hs'"
    by (rule bare_metal_cycle [OF laws(5,7,6) run']) blast
  have newly': "newly' = []" using assigned_names [OF alloc'] un' by simp
  have nets': "netnamespace_object rc' n \<in> set ?nns" if "n \<in> set ?final" for n
  proof (rule netnamespaces_after [where rc = rc and ns = ?final])
    show "distinct (map ns_name ?final)" using after(3) init by simp
    have sub: "ns_name ` set newly \<subseteq> ns_name ` {n \<in> set items. ns_egressipam n = Some x}"
      using arg_cong [OF k(5), of set] by auto
    show "ns_name m \<in> nn_name ` set nns" if "m \<in> set ?final" for m
      using that nets sub init by auto
    have "mset (written_netnamespaces (calls nn)) = mset (written_netnamespaces (map (\<lambda>n. UpdateNetNamespace (netnamespace_object rc n)) ?final))"
      by (rule written_mset(1) [OF k(6)])
    moreover have "written_netnamespaces (map (\<lambda>n. UpdateNetNamespace (f n)) ns) = map f ns" for f and ns :: "namespace list"
      by (induction ns) (simp_all add: written_defs List.map_filter_simps)
    ultimately show "mset (written_netnamespaces (calls nn)) = mset (map (netnamespace_object rc) ?final)" by (simp only:)
    show "?nns = fold (updated nn_name) (written_netnamespaces (calls nn)) nns" using k(2) by simp
  qed (use names(2) L L' that in simp_all)
  have hs'_none: "hs' = []"
  proof (cases "isCloudInfrastructure (rc_Infrastructure rc) \<or> 1 < length (rc_CIDRs rc)")
    case True
    let ?S = "\<lambda>name. map_of (rc_SelectedNodes rc) name \<noteq> None"
    have cs: "mset (calls hs) = mset (hs_updates (cycle_rc rc newly assigned) (rc_SelectedHostSubnets rc))"
      using k(9) True by (simp add: hostsubnet_calls_ok_def cycle_rc_def Let_def)
    have placed: "set (slice_elems (hs_egressIPs hs)) = set (gm_get [] assigned name)"
      if "(name, hs) \<in> set (rc_SelectedHostSubnets rc')" for name hs
    proof -
      have "set (slice_elems (hs_egressIPs hs)) = set (gm_get [] (rc_FinallyAssignedIPsByNode (cycle_rc rc newly assigned)) name)"
        by (rule hostsubnets_placed [OF names(3) _ cs _ that, where S = ?S]) (use L L' F k(3) in simp_all)
      then show ?thesis by (simp add: cycle_rc_def Let_def)
    qed
    note start = started_ok [OF ok(1) k(7)] and start' = started_ok [OF ok(2) rc1']
    have found: "set (gm_get [] (getAssignedIPsByNode rc1') n) = set (gm_get [] assigned n)" for n
    proof -
      have "set (gm_get [] (getAssignedIPsByNode rc') n) = set (gm_get [] assigned n)"
      proof (rule found_again [OF frame])
        show "node_ready rc n \<and> map_of (rc_SelectedNodes rc) n \<noteq> None" if "ip \<in> set (gm_get [] assigned n)" for ip n
          using assigned_nodes [OF laws(1,5) ok(1) _ _ k(8,7) that] L by simp
        show "fst ` set (rc_AllNodes rc) \<subseteq> fst ` set (rc_AllHostSubnets rc')" unfolding keys by (rule servableD(3) [OF serve])
        show "distinct (gm_keys (rc_SelectedHostSubnets rc'))" using ok(2) by (simp add: ctx_ok_def)
        show "rc_SelectedHostSubnets rc' = filter (\<lambda>(name, hs). map_of (rc_SelectedNodes rc') name \<noteq> None) (rc_AllHostSubnets rc')"
          using L' by blast
      qed (fact placed)
      then show ?thesis by (simp add: rc1' getAssignedIPsByNode_def)
    qed
    have ips: "\<forall>n \<in> set (rc_InitiallyAssignedNamespaces rc' @ newly'). ns_ips n \<noteq> None"
      using ok(2) by (simp add: newly' ctx_ok_def)
    let ?a = "rc1\<lparr>rc_InitiallyAssignedIPsByNode := getAssignedIPsByNode rc1\<rparr>"
    let ?b = "rc1'\<lparr>rc_InitiallyAssignedIPsByNode := getAssignedIPsByNode rc1'\<rparr>"
    have "\<exists>R'. assignIPsToNodes E ?b = Inr R' \<and> (\<forall>n. set (gm_get [] R' n) = set (gm_get [] assigned n))"
    proof (rule assignIPsToNodes_again [OF laws(1,5) start(1,2) k(8) start(3) laws(1,5) start'(1,2,4)])
      show "\<forall>n \<in> set (rc_FinallyAssignedNamespaces ?b). ns_ips n \<noteq> None" using ips by (simp add: rc1')
      show "rc_CIDRs ?b = rc_CIDRs ?a" using F by (simp add: rc1' k(7))
      show "wanted ?b = wanted ?a" using init' by (simp add: fun_eq_iff wanted_def rc1' k(7) newly' del: set_append)
      show "set (gm_get [] (rc_InitiallyAssignedIPsByNode ?b) n) = set (gm_get [] assigned n)" for n
        using found [of n] by simp
    qed
    then obtain R' where R': "assignIPsToNodes E ?b = Inr R'" "\<forall>n. set (gm_get [] R' n) = set (gm_get [] assigned n)" by blast
    have "hs_updates (cycle_rc rc' newly' assigned') (rc_SelectedHostSubnets rc') = []"
      using R' nodes' placed by (auto simp: hs_updates_def hs_differs_def filter_empty_conv cycle_rc_def Let_def)
    then have "calls hs' = []" using hs' True F by (simp add: hostsubnet_calls_ok_def cycle_rc_def Let_def)
    then show ?thesis by (simp add: calls_def)
  next
    case False
    have pairs: "cidr_nodes E (cycle_rc rc newly assigned) = cidr_nodes E rc" "cidr_nodes E (cycle_rc rc' newly' assigned') = cidr_nodes E rc"
      using same(4) by (simp_all add: cidr_nodes_def cycle_rc_def Let_def)
    have "\<not> needs_cidr (cycle_rc rc' newly' assigned') (c, n)" if cn: "(c, n) \<in> set (cidr_nodes E rc)" for c n
    proof (rule hostsubnets_cidrs [where rc = "cycle_rc rc newly assigned" and E = E, unfolded pairs, OF names(3) _ _ _ refl _ cn])
      show "distinct (map snd (cidr_nodes E rc))" using ok(1) by (intro cidr_nodes_distinct [OF laws(1)]) (simp add: ctx_ok_def)
      show "n \<in> hs_name ` set subnets" if "(c, n) \<in> set (cidr_nodes E rc)" for c n
      proof -
        have "n \<in> set (gm_get [] (by_cidr E rc) c)" using that L by (auto simp: cidr_nodes_def)
        then have "n \<in> set (gm_keys (rc_SelectedNodes rc))" using ok(1) by (intro listed_selected [OF laws(1)]) (simp_all add: ctx_ok_def)
        then have "map_of (rc_AllNodes rc) n = Some (gm_get zero_node (rc_SelectedNodes rc) n)" using ok(1) unfolding ctx_ok_def by blast
        then have "n \<in> fst ` set (rc_AllNodes rc)" by (force dest: map_of_SomeD)
        then show ?thesis using servableD(3) [OF serve] L by (auto simp: keys_fold_put_by_name)
      qed
      have "calls hs = map (cidr_update (cycle_rc rc newly assigned)) (filter (needs_cidr (cycle_rc rc newly assigned)) (cidr_nodes E rc))"
        using k(9) False pairs by (simp add: hostsubnet_calls_ok_def cycle_rc_def Let_def)
      then show "rc_AllHostSubnets (cycle_rc rc' newly' assigned') = fold (\<lambda>hs. gm_put (hs_name hs) hs) (fold (updated hs_name) (written_hostsubnets
          (map (cidr_update (cycle_rc rc newly assigned)) (filter (needs_cidr (cycle_rc rc newly assigned)) (cidr_nodes E rc)))) subnets) []"
        using L' k(3) by (simp add: cycle_rc_def Let_def)
    qed (use L in \<open>simp add: cycle_rc_def Let_def\<close>)
    then have "calls hs' = []"
      using hs' False F pairs by (auto simp: hostsubnet_calls_ok_def cycle_rc_def Let_def filter_empty_conv)
    then show ?thesis by (simp add: calls_def)
  qed
  have netcalls: "\<forall>c \<in> set (calls nn'). \<exists>n \<in> set ?final. c = UpdateNetNamespace (netnamespace_object rc' n)"
    using mset_eq_setD [OF nn'(2)] init' newly' by auto
  have sub: "set (written_netnamespaces (calls nn')) \<subseteq> set ?nns"
  proof
    fix u assume "u \<in> set (written_netnamespaces (calls nn'))"
    then have "UpdateNetNamespace u \<in> set (calls nn')" by (simp only: written_netnamespaces_in)
    with netcalls obtain n where "n \<in> set ?final" "UpdateNetNamespace u = UpdateNetNamespace (netnamespace_object rc' n)" by blast
    with nets' [of n] show "u \<in> set ?nns" by simp
  qed
  have none: "written_namespaces cs = []" "written_hostsubnets cs = []" if "\<forall>c \<in> set cs. is_netnamespace_call c" for cs
    using that by (induction cs) (auto simp: written_defs List.map_filter_simps split: api_call.splits)
  have only: "\<forall>c \<in> set (calls nn'). is_netnamespace_call c" using netcalls by auto
  have "h2 = h' @ nn'" using h2 newly' hs'_none by simp
  with run' nn'(1) none [OF only] sub only show ?thesis by blast
qed

section \<open>Reconciles in a row\<close>

text \<open>Two histories after which the server shows the same.\<close>

definition same_view :: "goenv \<Rightarrow> string \<Rightarrow> history \<Rightarrow> history \<Rightarrow> bool" where
  "same_view E name h h' \<longleftrightarrow> list_nodes E h' = list_nodes E h \<and> list_namespaces E h' = list_namespaces E h \<and>
     list_netnamespaces E h' = list_netnamespaces E h \<and> list_hostsubnets E h' = list_hostsubnets E h \<and>
     get_egressipam E name h' = get_egressipam E name h"

text \<open>A reconcile that ends well and leaves every object as it is.\<close>

definition settled :: "goenv \<Rightarrow> platforms \<Rightarrow> platform \<Rightarrow> string \<Rightarrow> history \<Rightarrow> bool" where
  "settled E P p name h \<longleftrightarrow> (\<exists>gs k. Reconcile E P p name h = (ManagedSuccess gs, h @ k) \<and>
     (\<forall>c \<in> set (calls k). is_netnamespace_call c) \<and> same_view E name h (h @ k))"

fun reconciled :: "goenv \<Rightarrow> platforms \<Rightarrow> platform \<Rightarrow> string \<Rightarrow> nat \<Rightarrow> history \<Rightarrow> history" where
  "reconciled E P p name 0 h = h"
| "reconciled E P p name (Suc n) h = reconciled E P p name n (snd (Reconcile E P p name h))"

lemma settled_stays:
  assumes "\<And>h'. same_view E name h h' \<Longrightarrow> settled E P p name h'" "same_view E name h h'"
  shows "settled E P p name (reconciled E P p name n h')"
  using assms(2)
proof (induction n arbitrary: h')
  case 0
  then show ?case using assms(1) by simp
next
  case (Suc n)
  from assms(1) [OF Suc.prems] obtain gs k where k: "Reconcile E P p name h' = (ManagedSuccess gs, h' @ k)" "same_view E name h' (h' @ k)"
    by (auto simp: settled_def)
  from k(2) Suc.prems have "same_view E name h (h' @ k)" by (simp add: same_view_def)
  from Suc.IH [OF this] k(1) show ?case by simp
qed

lemma Reconcile_served:
  assumes "\<not> isCloudInfrastructure p" "get_egressipam E name h = Inr x" "IsValid (ClientEgressIPAM x) = (True, None)"
    "has_finalizer E x controllerName" "\<not> is_being_deleted E x"
    "loadReconcileContext E P p x h = (Inr (rc, infra), h)" "processReconcileContext E infra rc h = (Inr gs, h')"
  shows "Reconcile E P p name h = (ManagedSuccess gs, h')"
  using assms by (simp add: Reconcile_def IsInitialized_def)

text \<open>
  C4. The control loop converges. Off the clouds, for a valid IPv4 instance that can be served
  (room, readable annotations, a HostSubnet per node and a ready node per CIDR), when the API
  server stores what the operator writes and nobody else writes, the names of a listing are
  pairwise different and every namespace that refers to the EgressIPAM has its NetNamespace,
  the first \<open>Reconcile\<close> succeeds and every later one, however many there are, succeeds as well,
  makes no call but updates of NetNamespaces, and leaves all nodes, namespaces, NetNamespaces,
  HostSubnets and the EgressIPAM as the first one left them: addresses do not wander between
  nodes or namespaces.
\<close>

theorem Reconcile_converges:
  assumes laws: "range_laws E" "ipmath_laws E" "size_law E" "u32set_laws E" "strset_laws E" "multierror_laws E" "schedule_laws E"
    and server: "accepting E" "server_laws E"
    and run: "\<not> isCloudInfrastructure p" "get_egressipam E name h = Inr x" "can_read E x h"
    and valid: "IsValid (ClientEgressIPAM x) = (True, None)" "ipv4_cidrs x" "distinct (map CIDR (CIDRAssignments x))"
    and serve: "has_finalizer E x controllerName" "\<not> is_being_deleted E x"
      "\<forall>rc infra. loadReconcileContext E P p x h = (Inr (rc, infra), h) \<longrightarrow> servable rc"
    and lists: "list_namespaces E h = Inr items" "list_netnamespaces E h = Inr nns" "list_hostsubnets E h = Inr subnets"
    and names: "distinct (map ns_name items)" "distinct (map nn_name nns)" "distinct (map hs_name subnets)"
    and nets: "\<forall>n \<in> set items. ns_egressipam n = Some (ei_name x) \<longrightarrow> ns_name n \<in> nn_name ` set nns"
  shows "(\<exists>gs. fst (Reconcile E P p name h) = ManagedSuccess gs) \<and>
    (\<forall>n. settled E P p name (reconciled E P p name (Suc n) h))"
proof -
  from run(3) obtain nodes where nodes: "list_nodes E h = Inr nodes" unfolding can_read_def by (metis isl_def sum.exhaust_sel)
  obtain rc where load: "loadReconcileContext E P p x h = (Inr (rc, BareMetalInfra), h)"
    using loadReconcileContext_progress [OF laws(6) run(3) valid(1) run(1)] by blast
  note ok = loadReconcileContext_ok [OF laws(1,6,7) valid(1,2) load]
  have dist: "distinct (rc_CIDRs rc)" using ok valid(3) by simp
  have servable: "servable rc" using serve(3) load by blast
  obtain rc0 matches where rc0: "go_for load_assignment (CIDRAssignments x) (empty_rc p x) = Inr rc0"
    and matches: "selector_of E (NodeSelector (rc_EgressIPAM rc0)) = Inr matches"
    and loaded: "loaded_from E rc0 matches nodes subnets items nns rc"
    by (rule loadReconcileContext_lists_off_cloud [OF run(1) load nodes lists(3,1,2)])
  have x: "ei_name x = ei_name (rc_EgressIPAM rc0)"
    using load_assignments [OF rc0] by (simp add: empty_rc_def loaded_cidrs_def)
  obtain gs h1 where proc: "processReconcileContext E BareMetalInfra rc h = (Inr gs, h1)"
    using processReconcileContext_succeeds [OF laws(1-6) server(1) _ dist servable] ok by blast
  obtain newly assigned nn hs rc1 k where h1: "h1 = h @ k" and k: "all_ok k" "\<forall>c \<in> set (calls k). \<forall>y. c \<noteq> UpdateEgressIPAM y"
    and written: "written_namespaces (calls k) = newly" "written_netnamespaces (calls k) = written_netnamespaces (calls nn)"
      "written_hostsubnets (calls k) = written_hostsubnets (calls hs)"
      "\<forall>n \<in> set newly. readable rc n \<and> ns_egressipam n = Some (ei_name x) \<and> ns_ips n \<noteq> None"
      "map ns_name newly = map ns_name (filter (\<lambda>n. ns_egressipam n = Some (ei_name x) \<and> ns_ips n = None) items)"
      "mset (calls nn) = mset (map (\<lambda>n. UpdateNetNamespace (netnamespace_object rc n)) (rc_InitiallyAssignedNamespaces rc @ newly))"
      "rc1 = rc\<lparr>rc_FinallyAssignedNamespaces := rc_InitiallyAssignedNamespaces rc @ newly\<rparr>"
      "assignIPsToNodes E (rc1\<lparr>rc_InitiallyAssignedIPsByNode := getAssignedIPsByNode rc1\<rparr>) = Inr assigned"
      "hostsubnet_calls_ok E (cycle_rc rc newly assigned) hs"
    by (rule first_cycle [OF laws(1,2,4-7) server(2) conjunct1 [OF ok] loaded x names(1) proc]) blast
  note first = Reconcile_served [OF run(1,2) valid(1) serve(1,2) load proc]
  note after = server_after [OF server(2) k(1), where h = h]
  have later: "settled E P p name h'" if view: "same_view E name (h @ k) h'" for h'
  proof -
    note shown = view [unfolded same_view_def after(1-4) after(5) [OF k(2)] lists nodes run(2) after_write_simps]
    from shown run(3) have "can_read E x h'" unfolding can_read_def by simp
    then obtain rc' where load': "loadReconcileContext E P p x h' = (Inr (rc', BareMetalInfra), h')"
      using loadReconcileContext_progress [OF laws(6) _ valid(1) run(1)] by blast
    have ok': "ctx_ok rc'" using loadReconcileContext_ok [OF laws(1,6,7) valid(1,2) load'] by blast
    have loaded': "loaded_from E rc0 matches nodes (fold (updated hs_name) (written_hostsubnets (calls k)) subnets)
      (fold (updated ns_name) (written_namespaces (calls k)) items) (fold (updated nn_name) (written_netnamespaces (calls k)) nns) rc'"
      using shown rc0 matches by (elim conjE) (rule loadReconcileContext_lists_off_cloud [OF run(1) load'], auto)
    obtain gs' k' where proc': "processReconcileContext E BareMetalInfra rc' h' = (Inr gs', h' @ k')"
      and k': "all_ok k'" "written_namespaces (calls k') = []" "written_hostsubnets (calls k') = []"
        "set (written_netnamespaces (calls k')) \<subseteq> set (fold (updated nn_name) (written_netnamespaces (calls k)) nns)"
        "\<forall>c \<in> set (calls k'). is_netnamespace_call c"
      using second_cycle [OF laws server conjunct1 [OF ok] ok' dist servable loaded x names _ proc [unfolded h1] written loaded'] nets by blast
    note after' = server_after [OF server(2) k'(1), where h = h']
    have "\<forall>c \<in> set (calls k'). \<forall>y. c \<noteq> UpdateEgressIPAM y" using k'(5) by auto
    moreover have "distinct (map nn_name (fold (updated nn_name) (written_netnamespaces (calls k)) nns))" using names(2) by simp
    ultimately have "same_view E name h' (h' @ k')"
      using shown after' k'(2,3) fold_updated_same [OF _ k'(4)] by (simp add: same_view_def)
    moreover have "Reconcile E P p name h' = (ManagedSuccess gs', h' @ k')"
      using shown by (intro Reconcile_served [OF run(1) _ valid(1) serve(1,2) load' proc']) blast
    ultimately show ?thesis using k'(5) unfolding settled_def by blast
  qed
  have "same_view E name (h @ k) (h @ k)" by (simp add: same_view_def)
  from settled_stays [OF later this] show ?thesis using first h1 by simp
qed

section \<open>Witness\<close>

text \<open>The objects of \<open>example_cluster\<close> in a server that stores what it accepts.\<close>

definition accepted :: "history \<Rightarrow> api_call list" where
  "accepted h = calls (filter (\<lambda>(c, q). q = None) h)"

definition live_cluster :: goenv where
  "live_cluster = example_cluster\<lparr>
     list_hostsubnets := (\<lambda>h. Inr (fold (updated hs_name) (written_hostsubnets (accepted h)) (map snd (rc_AllHostSubnets example_rc)))),
     list_namespaces := (\<lambda>h. Inr (fold (updated ns_name) (written_namespaces (accepted h)) (map snd (rc_ReferringNamespaces example_rc)))),
     list_netnamespaces := (\<lambda>h. Inr (fold (updated nn_name) (written_netnamespaces (accepted h)) (map snd (rc_NetNamespaces example_rc))))\<rparr>"

lemma live_cluster_same:
  "range_laws live_cluster = range_laws example_cluster" "schedule_laws live_cluster = schedule_laws example_cluster"
  "ipmath_laws live_cluster = ipmath_laws example_cluster" "size_law live_cluster = size_law example_cluster"
  "u32set_laws live_cluster = u32set_laws example_cluster" "strset_laws live_cluster = strset_laws example_cluster"
  "multierror_laws live_cluster = multierror_laws example_cluster" "accepting live_cluster = accepting example_cluster"
  by (simp_all add: range_laws_def schedule_laws_def ipmath_laws_def size_law_def u32set_laws_def strset_laws_def
      multierror_laws_def accepting_def live_cluster_def)

lemma live_cluster_laws: "range_laws live_cluster" "ipmath_laws live_cluster" "size_law live_cluster" "u32set_laws live_cluster"
  "strset_laws live_cluster" "multierror_laws live_cluster" "schedule_laws live_cluster" "accepting live_cluster"
  by (simp_all only: live_cluster_same example_cluster_laws example_accepting)

lemma live_cluster_server: "server_laws live_cluster"
proof -
  have "accepted (h @ [(c, None)]) = accepted h @ [c]" for h c by (simp add: accepted_def)
  then show ?thesis by (auto simp: server_laws_def live_cluster_def example_cluster_def split: api_call.splits)
qed

lemma live_cluster_loads:
  "loadReconcileContext live_cluster example_platforms (OtherPlatform ''None'') example_instance [] =
     (Inr (example_loaded, BareMetalInfra), [])"
proof -
  have 1: "load_cluster live_cluster (OtherPlatform ''None'') example_instance [] =
      Inr (example_loaded\<lparr>rc_UsedIPsByCIDR := []\<rparr>)" by code_simp
  have 2: "make_infra live_cluster example_platforms (example_loaded\<lparr>rc_UsedIPsByCIDR := []\<rparr>) h = (Inr BareMetalInfra, h)" for h
    by (simp add: make_infra_def example_loaded_def example_rc_def Let_def pure_w_def)
  have 3: "load_used live_cluster BareMetalInfra (example_loaded\<lparr>rc_UsedIPsByCIDR := []\<rparr>) [] = (Inr example_loaded, [])"
    by code_simp
  show ?thesis by (simp add: loadReconcileContext_def bind_w_def pure_w_def 1 2 3)
qed

theorem Reconcile_converges_witness:
  "(\<exists>gs. fst (Reconcile live_cluster example_platforms (OtherPlatform ''None'') ''ipam'' []) = ManagedSuccess gs) \<and>
     settled live_cluster example_platforms (OtherPlatform ''None'') ''ipam''
       (reconciled live_cluster example_platforms (OtherPlatform ''None'') ''ipam'' 1 [])"
proof -
  let ?items = "map snd (rc_ReferringNamespaces example_rc)" and ?nns = "map snd (rc_NetNamespaces example_rc)"
    and ?subnets = "map snd (rc_AllHostSubnets example_rc)"
  have p: "\<not> isCloudInfrastructure (OtherPlatform ''None'')" by (simp add: isCloudInfrastructure_def)
  have get: "get_egressipam live_cluster ''ipam'' [] = Inr example_instance" by (simp add: live_cluster_def example_cluster_def)
  have read: "can_read live_cluster example_instance []" by code_simp
  have valid: "IsValid (ClientEgressIPAM example_instance) = (True, None)" "distinct (map CIDR (CIDRAssignments example_instance))"
    "has_finalizer live_cluster example_instance controllerName" "\<not> is_being_deleted live_cluster example_instance" by code_simp+
  have "ParseCIDR ''10.0.0.0/29'' = Inr (IPv4 0x0A000000, Net4 0x0A000000 29)"
    "ParseCIDR ''10.0.1.0/29'' = Inr (IPv4 0x0A000100, Net4 0x0A000100 29)" by code_simp+
  then have v4: "ipv4_cidrs example_instance" by (simp add: ipv4_cidrs_def example_instance_def example_egressipam_def)
  have serve: "\<forall>rc infra. loadReconcileContext live_cluster example_platforms (OtherPlatform ''None'') example_instance [] =
      (Inr (rc, infra), []) \<longrightarrow> servable rc" using example_servable by (simp add: live_cluster_loads)
  have lists: "list_namespaces live_cluster [] = Inr ?items" "list_netnamespaces live_cluster [] = Inr ?nns"
    "list_hostsubnets live_cluster [] = Inr ?subnets" by (simp_all add: live_cluster_def accepted_def)
  have names: "distinct (map ns_name ?items)" "distinct (map nn_name ?nns)" "distinct (map hs_name ?subnets)" by code_simp+
  have nets: "\<forall>n \<in> set ?items. ns_egressipam n = Some (ei_name example_instance) \<longrightarrow> ns_name n \<in> nn_name ` set ?nns" by code_simp
  show ?thesis
    using Reconcile_converges [OF live_cluster_laws(1-8) live_cluster_server p get read valid(1) v4 valid(2-4) serve lists names nets]
    unfolding One_nat_def by blast
qed

end
