(* ===== verification/Channels.thy ===== *)
theory Channels
  imports Goroutines "HOL-Library.Multiset"
begin

text \<open>
  What a parallel loop of the operator does in Go, step by step: goroutines that run at their
  own speed, an unbuffered channel over which a goroutine hands its result to the loop, and a
  loop that receives one result per goroutine. \<open>Goroutines\<close> computes with \<open>go_procs\<close> instead;
  here is the proof that this is the same: every run stops, none is blocked before all
  results are in, and the results of the runs are those of \<open>go_procs\<close> over all interleavings.
\<close>

section \<open>Steps\<close>

datatype loop = Running gostate history | Crashed err history

text \<open>
  \<open>n\<close> is the number of results the loop receives. A send waits for the receiver, so it takes
  place only while results are still awaited. A panic ends the process.
\<close>

inductive loop_step :: "goenv \<Rightarrow> nat \<Rightarrow> loop \<Rightarrow> loop \<Rightarrow> bool" for E n where
  read: "i < length gs \<Longrightarrow> gs ! i = Some (Read f) \<Longrightarrow>
    loop_step E n (Running (gs, rs) h) (Running (gs[i := Some (f h)], rs) h)"
| call: "i < length gs \<Longrightarrow> gs ! i = Some (Call c f) \<Longrightarrow> perform E c h = (q, h') \<Longrightarrow>
    loop_step E n (Running (gs, rs) h) (Running (gs[i := Some (f q)], rs) h')"
| send: "i < length gs \<Longrightarrow> gs ! i = Some (Send r) \<Longrightarrow> not_panic r \<Longrightarrow> length rs < n \<Longrightarrow>
    loop_step E n (Running (gs, rs) h) (Running (gs[i := None], rs @ [r]) h)"
| crash: "i < length gs \<Longrightarrow> gs ! i = Some (Send (Some (GoPanic m))) \<Longrightarrow>
    loop_step E n (Running (gs, rs) h) (Crashed (GoPanic m) h)"

inductive_cases loop_step_RunningE: "loop_step E n (Running s h) c"
inductive_cases loop_step_CrashedE [elim!]: "loop_step E n (Crashed e h) c"

text \<open>The loop as line \<open>for ... go func\<close> starts it, and what it returns.\<close>

definition loop_start :: "('a \<Rightarrow> proc) \<Rightarrow> 'a list \<Rightarrow> history \<Rightarrow> loop" where
  "loop_start f xs h = Running (map (\<lambda>x. Some (f x)) xs, []) h"

definition loop_result :: "goenv \<Rightarrow> loop \<Rightarrow> (err + unit) \<times> history" where
  "loop_result E c = (case c of
     Running (gs, rs) h \<Rightarrow> ((case multierror E rs of None \<Rightarrow> Inr () | Some e \<Rightarrow> Inl e), h)
   | Crashed e h \<Rightarrow> (Inl e, h))"

section \<open>Every run stops\<close>

text \<open>A goroutine gets smaller with each of its steps.\<close>

inductive smaller :: "proc \<Rightarrow> proc \<Rightarrow> bool" where
  "smaller (f h) (Read f)"
| "smaller (f q) (Call c f)"

inductive_cases smaller_SendE [elim!]: "smaller p (Send r)"
inductive_cases smaller_ReadE [elim!]: "smaller p (Read f)"
inductive_cases smaller_CallE [elim!]: "smaller p (Call c f)"

lemma wfp_smaller: "wfp smaller"
proof (rule wfpUNIVI)
  show "P p" if "\<forall>p. (\<forall>p'. smaller p' p \<longrightarrow> P p') \<longrightarrow> P p" for P p
    by (induction p) (use that in \<open>blast+\<close>)
qed

text \<open>The goroutines that have not sent their result, and whether the process still runs.\<close>

primrec awaited :: "proc option list \<Rightarrow> proc multiset" where
  "awaited [] = {#}"
| "awaited (g # gs) = (case g of None \<Rightarrow> {#} | Some p \<Rightarrow> {#p#}) + awaited gs"

lemma awaited_nth:
  assumes "i < length gs" "gs ! i = Some p"
  shows "awaited gs = awaited (gs[i := None]) + {#p#}" "awaited (gs[i := Some p']) = awaited (gs[i := None]) + {#p'#}"
  using assms by (induction gs arbitrary: i) (auto simp: nth_Cons split: nat.splits)

lemma size_awaited_start [simp]: "size (awaited (map (\<lambda>x. Some (f x)) xs)) = length xs"
  by (induction xs) auto

lemma awaited_empty: "awaited gs = {#} \<longleftrightarrow> gs = replicate (length gs) None"
  by (induction gs) (auto split: option.splits)

definition remaining :: "loop \<Rightarrow> proc multiset option" where
  "remaining c = (case c of Running (gs, rs) h \<Rightarrow> Some (awaited gs) | Crashed e h \<Rightarrow> None)"

definition fewer :: "proc multiset option \<Rightarrow> proc multiset option \<Rightarrow> bool" where
  "fewer A B \<longleftrightarrow> (case (A, B) of (Some A, Some B) \<Rightarrow> multp smaller A B | (None, Some B) \<Rightarrow> True | _ \<Rightarrow> False)"

lemma wfp_fewer: "wfp fewer"
proof (rule wfpUNIVI)
  fix P :: "proc multiset option \<Rightarrow> bool" and A
  assume step: "\<forall>A. (\<forall>B. fewer B A \<longrightarrow> P B) \<longrightarrow> P A"
  have "\<not> fewer B None" for B by (simp add: fewer_def split: option.split)
  then have none: "P None" using step by blast
  have "P (Some A)" for A
  proof (induction A rule: wfp_induct_rule [OF wfp_multp [OF wfp_smaller]])
    case (1 A)
    have "P B" if "fewer B (Some A)" for B using that 1 none by (cases B) (simp_all add: fewer_def)
    then show ?case using step by blast
  qed
  with none show "P A" by (cases A) simp_all
qed

lemma loop_step_fewer:
  assumes "loop_step E n c c'"
  shows "fewer (remaining c') (remaining c)"
  using assms
proof cases
  case (read i gs f rs h)
  have "multp smaller (awaited (gs[i := None]) + {#f h#}) (awaited (gs[i := None]) + {#Read f#})"
    by (rule one_step_implies_multp) (auto intro: smaller.intros)
  then show ?thesis using read awaited_nth(1) [OF read(3,4)] awaited_nth(2) [OF read(3,4)]
    by (simp add: remaining_def fewer_def)
next
  case (call i gs c f h q h' rs)
  have "multp smaller (awaited (gs[i := None]) + {#f q#}) (awaited (gs[i := None]) + {#Call c f#})"
    by (rule one_step_implies_multp) (auto intro: smaller.intros)
  then show ?thesis using call awaited_nth(1) [OF call(3,4)] awaited_nth(2) [OF call(3,4)]
    by (simp add: remaining_def fewer_def)
next
  case (send i gs r rs h)
  have "multp smaller (awaited (gs[i := None]) + {#}) (awaited (gs[i := None]) + {#Send r#})"
    by (rule one_step_implies_multp) auto
  then show ?thesis using send awaited_nth(1) [OF send(3,4)] by (simp add: remaining_def fewer_def)
next
  case (crash i gs m rs h)
  then show ?thesis by (simp add: remaining_def fewer_def)
qed

lemma wfp_loop_step: "wfp (\<lambda>c' c. loop_step E n c c')"
  by (rule wfp_if_convertible_to_wfp [OF wfp_fewer]) (rule loop_step_fewer)

section \<open>No goroutine is blocked\<close>

text \<open>As many results are awaited as goroutines have not sent theirs.\<close>

definition balanced :: "nat \<Rightarrow> loop \<Rightarrow> bool" where
  "balanced n c \<longleftrightarrow> (case c of
     Running (gs, rs) h \<Rightarrow> length gs = n \<and> size (awaited gs) + length rs = n
   | Crashed e h \<Rightarrow> True)"

lemma balanced_start: "balanced (length xs) (loop_start f xs h)"
  by (simp add: balanced_def loop_start_def)

lemma balanced_step: "loop_step E n c c' \<Longrightarrow> balanced n c \<Longrightarrow> balanced n c'"
  by (induction rule: loop_step.induct) (auto simp: balanced_def awaited_nth)

lemma balanced_steps: "(loop_step E n)\<^sup>*\<^sup>* c c' \<Longrightarrow> balanced n c \<Longrightarrow> balanced n c'"
  by (induction rule: rtranclp_induct) (auto dest: balanced_step)

lemma stuck_is_finished:
  assumes "balanced n c" "\<And>c'. \<not> loop_step E n c c'"
  shows "case c of Running (gs, rs) h \<Rightarrow> gs = replicate n None \<and> length rs = n | Crashed e h \<Rightarrow> True"
proof (cases c)
  case (Running s h)
  obtain gs rs where s: "s = (gs, rs)" by (cases s)
  have "gs ! i = None" if i: "i < length gs" for i
  proof (rule ccontr)
    assume "gs ! i \<noteq> None"
    then obtain p where p: "gs ! i = Some p" by blast
    have "length rs < n" using assms(1) awaited_nth(1) [OF i p] by (simp add: Running s balanced_def)
    have "\<exists>c'. loop_step E n c c'"
    proof (cases p)
      case (Send r)
      show ?thesis
      proof (cases "not_panic r")
        case True
        with send [OF i, of r rs n E h] p Send \<open>length rs < n\<close> show ?thesis unfolding Running s by blast
      next
        case False
        then obtain m where "r = Some (GoPanic m)" by blast
        with crash [OF i, of m E n rs h] p Send show ?thesis unfolding Running s by blast
      qed
    next
      case (Read f)
      with read [OF i] p show ?thesis unfolding Running s by blast
    next
      case (Call d f)
      obtain q h' where "perform E d h = (q, h')" by fastforce
      with call [OF i] p Call show ?thesis unfolding Running s by blast
    qed
    with assms(2) show False by blast
  qed
  then have gs: "gs = replicate (length gs) None" by (simp add: list_eq_iff_nth_eq)
  then have "size (awaited gs) = 0" by (simp add: awaited_empty)
  with gs assms(1) show ?thesis by (simp add: Running s balanced_def)
qed simp

section \<open>The results are those of the interleavings\<close>

text \<open>What \<open>turn\<close> gives, as a state of the loop.\<close>

definition after :: "(err + gostate) \<times> history \<Rightarrow> loop" where
  "after x = (case x of (Inl e, h) \<Rightarrow> Crashed e h | (Inr s, h) \<Rightarrow> Running s h)"

lemma step_is_turn:
  assumes "loop_step E n (Running s h) c"
  shows "\<exists>i < length (fst s). c = after (turn E i s h)"
  using assms by (cases rule: loop_step_RunningE) (auto simp: turn_def after_def split: option.splits err.splits)

lemma turn_is_steps:
  assumes "balanced n (Running s h)" "i < n"
  shows "(loop_step E n)\<^sup>*\<^sup>* (Running s h) (after (turn E i s h))"
proof -
  obtain gs rs where s: "s = (gs, rs)" by (cases s)
  have i: "i < length gs" using assms by (simp add: s balanced_def)
  show ?thesis
  proof (cases "gs ! i")
    case None
    then show ?thesis by (simp add: s turn_def after_def)
  next
    case (Some p)
    have room: "length rs < n" using assms(1) awaited_nth(1) [OF i Some] by (simp add: s balanced_def)
    have "loop_step E n (Running s h) (after (turn E i s h))"
    proof (cases p)
      case (Send r)
      show ?thesis
      proof (cases "not_panic r")
        case True
        then have "after (turn E i s h) = Running (gs[i := None], rs @ [r]) h"
          using Some Send by (auto simp: s turn_def after_def split: option.splits err.splits)
        with send [OF i, of r rs n E h] Some Send True room show ?thesis by (simp add: s)
      next
        case False
        then obtain m where "r = Some (GoPanic m)" by blast
        with crash [OF i, of m E n rs h] Some Send show ?thesis by (simp add: s turn_def after_def)
      qed
    next
      case (Read f)
      with read [OF i, of f E n rs h] Some show ?thesis by (simp add: s turn_def after_def)
    next
      case (Call d f)
      obtain q h' where "perform E d h = (q, h')" by fastforce
      with call [OF i, of d f E h q h' n rs] Some Call show ?thesis by (simp add: s turn_def after_def)
    qed
    then show ?thesis by blast
  qed
qed

lemma run_is_turns:
  assumes "(loop_step E n)\<^sup>*\<^sup>* (Running s h) c" "length (fst s) = n"
  shows "\<exists>js. set js \<subseteq> {..<n} \<and> c = after (go_for_w (turn E) js s h)"
  using assms(1)
proof (induction rule: rtranclp_induct)
  case base
  show ?case by (intro exI [of _ "[]"]) (simp add: after_def)
next
  case (step c c')
  then obtain js where js: "set js \<subseteq> {..<n}" "c = after (go_for_w (turn E) js s h)" by blast
  obtain r h1 where run: "go_for_w (turn E) js s h = (r, h1)" by fastforce
  from step(2) js(2) run obtain s1 where s1: "r = Inr s1" by (cases r) (auto simp: after_def)
  then have "loop_step E n (Running s1 h1) c'" using js(2) run step(2) by (simp add: after_def)
  from step_is_turn [OF this] obtain i where i: "i < length (fst s1)" "c' = after (turn E i s1 h1)" by blast
  have "kept_by_steps n (\<lambda>h s. True)" by (simp add: kept_by_steps_def)
  have "continues n (\<lambda>h s. True) r h1"
    by (rule go_for_w_continues [where f = "turn E", OF _ TrueI assms(2) run])
      (use js(1) turn_continues [OF \<open>kept_by_steps n (\<lambda>h s. True)\<close>] in blast)
  then have "length (fst s1) = n" by (simp add: s1 continues_def)
  with i js(1) run s1 show ?case
    by (intro exI [of _ "js @ [i]"]) (auto simp: go_for_w_append split: prod.splits sum.splits)
qed

lemma turns_are_steps:
  assumes "\<And>j s h. balanced n (Running s h) \<Longrightarrow> j \<in> set js \<Longrightarrow> (loop_step E n)\<^sup>*\<^sup>* (Running s h) (after (f j s h))"
    and "balanced n (Running s h)"
  shows "(loop_step E n)\<^sup>*\<^sup>* (Running s h) (after (go_for_w f js s h))"
  using assms
proof (induction js arbitrary: s h)
  case Nil
  then show ?case by (simp add: after_def)
next
  case (Cons j js)
  obtain r h1 where 1: "f j s h = (r, h1)" by fastforce
  have first: "(loop_step E n)\<^sup>*\<^sup>* (Running s h) (after (r, h1))" using Cons.prems(1) [of s h j] Cons.prems(2) 1 by simp
  show ?case
  proof (cases r)
    case (Inl e)
    with first 1 show ?thesis by (simp add: after_def)
  next
    case (Inr s1)
    then have "balanced n (Running s1 h1)" using balanced_steps [OF first Cons.prems(2)] by (simp add: after_def)
    then have "(loop_step E n)\<^sup>*\<^sup>* (Running s1 h1) (after (go_for_w f js s1 h1))" using Cons.IH Cons.prems(1) by simp
    with first 1 Inr show ?thesis by (auto simp: after_def intro: rtranclp_trans)
  qed
qed

lemma last_turn_is_steps:
  assumes "balanced n (Running s h)" "i < n"
  shows "(loop_step E n)\<^sup>*\<^sup>* (Running s h) (after (last_turn E i s h))"
proof -
  obtain gs rs where s: "s = (gs, rs)" by (cases s)
  show ?thesis
  proof (cases "gs ! i")
    case None
    then show ?thesis by (simp add: s last_turn_def after_def)
  next
    case (Some p)
    have "(loop_step E n)\<^sup>*\<^sup>* (Running (gs, rs) h) (after (last_turn E i (gs, rs) h))"
      using assms(1) [unfolded s] Some
    proof (induction p arbitrary: gs h)
      case (Send r)
      have "last_turn E i (gs, rs) h = turn E i (gs, rs) h"
        using Send(2) by (auto simp: last_turn_def turn_def split: option.splits err.splits)
      with turn_is_steps [OF Send(1) assms(2)] show ?case by simp
    next
      case (Read f)
      have i: "i < length gs" using Read(2) assms(2) by (simp add: balanced_def)
      let ?gs = "gs[i := Some (f h)]"
      have step: "loop_step E n (Running (gs, rs) h) (Running (?gs, rs) h)" by (rule read [OF i Read(3)])
      have "last_turn E i (gs, rs) h = last_turn E i (?gs, rs) h" using Read(3) i by (simp add: last_turn_def split: prod.split sum.split)
      moreover have "(loop_step E n)\<^sup>*\<^sup>* (Running (?gs, rs) h) (after (last_turn E i (?gs, rs) h))"
        by (rule Read.IH [OF rangeI balanced_step [OF step Read(2)]]) (use i in simp)
      ultimately show ?case using step by (simp add: converse_rtranclp_into_rtranclp)
    next
      case (Call d f)
      have i: "i < length gs" using Call(2) assms(2) by (simp add: balanced_def)
      obtain q h' where q: "perform E d h = (q, h')" by fastforce
      let ?gs = "gs[i := Some (f q)]"
      have step: "loop_step E n (Running (gs, rs) h) (Running (?gs, rs) h')" by (rule call [OF i Call(3) q])
      have "last_turn E i (gs, rs) h = last_turn E i (?gs, rs) h'" using Call(3) i q by (simp add: last_turn_def split: prod.split sum.split)
      moreover have "(loop_step E n)\<^sup>*\<^sup>* (Running (?gs, rs) h') (after (last_turn E i (?gs, rs) h'))"
        by (rule Call.IH [OF rangeI balanced_step [OF step Call(2)]]) (use i in simp)
      ultimately show ?case using step by (simp add: converse_rtranclp_into_rtranclp)
    qed
    with s show ?thesis by simp
  qed
qed

text \<open>
  Every value of \<open>go_procs\<close> is the result of a finished run, and every finished run has the
  value of \<open>go_procs\<close> for the interleaving that takes the turns of the run.
\<close>

lemma go_procs_result:
  "go_procs E l f xs h =
     (case after (go_for_w (turn E) (filter (\<lambda>i. i < length xs) (go_interleave E l (length xs))) (map (\<lambda>x. Some (f x)) xs, []) h) of
        Crashed e h1 \<Rightarrow> (Inl e, h1)
      | Running s h1 \<Rightarrow> loop_result E (after (go_for_w (last_turn E) [0..<length xs] s h1)))"
  by (auto simp: go_procs_def bind_w_def after_def loop_result_def split: prod.splits sum.splits option.splits)

lemma go_procs_is_run:
  "\<exists>c. (loop_step E (length xs))\<^sup>*\<^sup>* (loop_start f xs h) c \<and> (\<nexists>c'. loop_step E (length xs) c c') \<and>
     loop_result E c = go_procs E l f xs h"
proof -
  let ?n = "length xs" and ?js = "filter (\<lambda>i. i < length xs) (go_interleave E l (length xs))"
  let ?s = "(map (\<lambda>x. Some (f x)) xs, []) :: gostate"
  have start: "loop_start f xs h = Running ?s h" by (simp add: loop_start_def)
  note bal = balanced_start [of xs f h, unfolded start]
  have 1: "(loop_step E ?n)\<^sup>*\<^sup>* (Running ?s h) (after (go_for_w (turn E) ?js ?s h))"
    by (rule turns_are_steps [OF _ bal]) (simp add: turn_is_steps)
  show ?thesis
  proof (cases "after (go_for_w (turn E) ?js ?s h)")
    case (Crashed e h1)
    with 1 go_procs_result [of E l f xs h] show ?thesis unfolding start
      by (intro exI [of _ "Crashed e h1"]) (auto simp: loop_result_def)
  next
    case (Running s1 h1)
    have bal1: "balanced ?n (Running s1 h1)" using balanced_steps [OF 1 bal] Running by simp
    let ?c = "after (go_for_w (last_turn E) [0..<?n] s1 h1)"
    have "(loop_step E ?n)\<^sup>*\<^sup>* (Running s1 h1) ?c"
      by (rule turns_are_steps [OF _ bal1]) (simp add: last_turn_is_steps)
    with 1 Running have run: "(loop_step E ?n)\<^sup>*\<^sup>* (Running ?s h) ?c" by (auto intro: rtranclp_trans)
    have "\<not> loop_step E ?n ?c c'" for c'
    proof (cases ?c)
      case (Running s2 h2)
      then have last: "go_for_w (last_turn E) [0..<?n] s1 h1 = (Inr s2, h2)" by (auto simp: after_def split: prod.splits sum.splits)
      have len: "length (fst s1) = ?n" using bal1 by (cases s1) (simp add: balanced_def)
      have "kept_by_steps ?n (\<lambda>h s. True)" by (simp add: kept_by_steps_def)
      from last_turns_done [OF this TrueI len last] have none: "\<forall>i < ?n. fst s2 ! i = None" by simp
      have "balanced ?n ?c" using balanced_steps [OF run bal] .
      then have "length (fst s2) = ?n" by (cases s2) (simp add: Running balanced_def)
      with none show ?thesis unfolding Running by (auto elim!: loop_step_RunningE)
    qed auto
    with run go_procs_result [of E l f xs h] Running show ?thesis unfolding start by (intro exI [of _ ?c]) simp
  qed
qed

lemma run_is_go_procs:
  assumes "(loop_step E (length xs))\<^sup>*\<^sup>* (loop_start f xs h) c" "\<nexists>c'. loop_step E (length xs) c c'"
  shows "\<exists>js. go_procs (E\<lparr>go_interleave := \<lambda>l n. js\<rparr>) l f xs h = loop_result E c"
proof -
  let ?n = "length xs" and ?s = "(map (\<lambda>x. Some (f x)) xs, []) :: gostate"
  have start: "loop_start f xs h = Running ?s h" by (simp add: loop_start_def)
  from run_is_turns [OF assms(1) [unfolded start]] obtain js where js: "set js \<subseteq> {..<?n}"
    and c: "c = after (go_for_w (turn E) js ?s h)" by auto
  let ?E = "E\<lparr>go_interleave := \<lambda>l n. js\<rparr>"
  have call: "perform ?E = perform E" by (simp add: fun_eq_iff perform_def)
  have "complete ?E p = complete E p" for p
    by (induction p) (simp_all add: fun_eq_iff call split: prod.split)
  then have complete: "complete ?E = complete E" by (rule ext)
  have multi: "multierror ?E = multierror E" by simp
  have same: "turn ?E = turn E" "loop_result ?E = loop_result E" "last_turn ?E = last_turn E"
    unfolding turn_def last_turn_def loop_result_def [abs_def] call complete multi by (rule refl)+
  have js': "filter (\<lambda>i. i < ?n) (go_interleave ?E l ?n) = js" using js by (auto simp: filter_id_conv)
  have "go_procs ?E l f xs h = loop_result E c"
    unfolding go_procs_result js' unfolding same c [symmetric]
  proof (cases c)
    case (Running s1 h1)
    obtain gs rs where s1: "s1 = (gs, rs)" by (cases s1)
    have "gs = replicate ?n None"
      using stuck_is_finished [OF balanced_steps [OF assms(1) balanced_start], of E] assms(2) by (simp add: Running s1)
    then have "go_for_w (last_turn E) ks s1 h1 = (Inr s1, h1)" if "set ks \<subseteq> {..<?n}" for ks :: "nat list"
      using that by (induction ks) (auto simp: s1 last_turn_def)
    then have "go_for_w (last_turn E) [0..<?n] s1 h1 = (Inr s1, h1)" by (auto simp: subset_iff)
    then show "(case c of Crashed e h1 \<Rightarrow> (Inl e, h1)
      | Running s h1 \<Rightarrow> loop_result E (after (go_for_w (last_turn E) [0..<?n] s h1))) = loop_result E c"
      by (simp add: Running after_def)
  qed (simp add: loop_result_def)
  then show ?thesis by blast
qed

section \<open>A loop of the operator\<close>

text \<open>
  \<open>run\<close> computes what the loop does in Go: no run goes on for ever; where a run ends, a
  goroutine has panicked or all have sent their result and all results are received; what the
  loop then returns is what \<open>run\<close> gives for some interleaving; and what \<open>run\<close> gives for any
  interleaving, some run of the loop returns.
\<close>

definition ends :: "goenv \<Rightarrow> nat \<Rightarrow> loop \<Rightarrow> loop \<Rightarrow> bool" where
  "ends E n c0 c \<longleftrightarrow> (loop_step E n)\<^sup>*\<^sup>* c0 c \<and> (\<nexists>c'. loop_step E n c c')"

definition all_received :: "nat \<Rightarrow> loop \<Rightarrow> bool" where
  "all_received n c \<longleftrightarrow> (case c of
     Running (gs, rs) h \<Rightarrow> gs = replicate n None \<and> length rs = n | Crashed e h \<Rightarrow> is_panic e)"

definition runs_like :: "goenv \<Rightarrow> (goenv \<Rightarrow> (history, unit) action) \<Rightarrow> ('a \<Rightarrow> proc) \<Rightarrow> 'a list \<Rightarrow> history \<Rightarrow> bool" where
  "runs_like E run f xs h \<longleftrightarrow>
     (\<nexists>cs. cs 0 = loop_start f xs h \<and> (\<forall>k. loop_step E (length xs) (cs k) (cs (Suc k)))) \<and>
     (\<forall>c. ends E (length xs) (loop_start f xs h) c \<longrightarrow>
        all_received (length xs) c \<and> (\<exists>js. run (E\<lparr>go_interleave := \<lambda>l n. js\<rparr>) h = loop_result E c)) \<and>
     (\<exists>c. ends E (length xs) (loop_start f xs h) c \<and> loop_result E c = run E h)"

lemma crash_is_panic: "(loop_step E n)\<^sup>*\<^sup>* c0 (Crashed e h) \<Longrightarrow> c0 \<noteq> Crashed e h \<Longrightarrow> is_panic e"
  by (erule rtranclp.cases) (auto elim: loop_step.cases)

lemma go_procs_runs_like:
  assumes "\<And>js. run (E\<lparr>go_interleave := \<lambda>l n. js\<rparr>) = go_procs (E\<lparr>go_interleave := \<lambda>l n. js\<rparr>) l f xs"
    and "run E = go_procs E l f xs"
  shows "runs_like E run f xs h"
  unfolding runs_like_def
proof (intro conjI allI impI)
  show "\<nexists>cs. cs 0 = loop_start f xs h \<and> (\<forall>k. loop_step E (length xs) (cs k) (cs (Suc k)))"
    using wfp_loop_step [of E "length xs"] unfolding wfp_def wf_iff_no_infinite_down_chain by auto
  fix c assume c: "ends E (length xs) (loop_start f xs h) c"
  then show "\<exists>js. run (E\<lparr>go_interleave := \<lambda>l n. js\<rparr>) h = loop_result E c"
    unfolding assms(1) ends_def by (intro run_is_go_procs) blast+
  show "all_received (length xs) c"
  proof (cases c)
    case (Running s h')
    obtain gs rs where "s = (gs, rs)" by (cases s)
    with stuck_is_finished [OF balanced_steps [OF _ balanced_start], of E xs f h c E] c Running show ?thesis
      by (auto simp: ends_def all_received_def)
  next
    case (Crashed e h')
    with crash_is_panic [of E "length xs" "loop_start f xs h" e h'] c show ?thesis
      by (simp add: ends_def all_received_def loop_start_def)
  qed
next
  show "\<exists>c. ends E (length xs) (loop_start f xs h) c \<and> loop_result E c = run E h"
    unfolding assms(2) ends_def using go_procs_is_run [of E xs f h l] by simp
qed

end
