(* ===== verification/Bodies.thy ===== *)
theory Bodies
  imports Channels
begin

text \<open>
  The parallel loops with every use of the channel as the code has it. A goroutine is a body of
  statements that may send any number of results, or none; the loop receives a number of
  results that is written down apart from the goroutines it starts, and closes the channel when
  it returns (\<open>defer close(results)\<close>). So a body may forget to send, or send again after an
  error because its \<open>return\<close> is missing, and a loop may await too many results or too few:
  it then waits for ever, or the process panics with a send on a closed channel. \<open>finishes\<close> says
  that none of this happens. The bodies that send once are shown to behave like the goroutines
  of \<open>Channels\<close>.
\<close>

section \<open>Two machines in lockstep\<close>

locale lockstep =
  fixes step1 :: "'a \<Rightarrow> 'a \<Rightarrow> bool" and step2 :: "'b \<Rightarrow> 'b \<Rightarrow> bool" and match :: "'a \<Rightarrow> 'b \<Rightarrow> bool"
  assumes forward: "match c d \<Longrightarrow> step1 c c' \<Longrightarrow> \<exists>d'. step2 d d' \<and> match c' d'"
    and backward: "match c d \<Longrightarrow> step2 d d' \<Longrightarrow> \<exists>c'. step1 c c' \<and> match c' d'"
begin

lemma forward_steps: "step1\<^sup>*\<^sup>* c c' \<Longrightarrow> match c d \<Longrightarrow> \<exists>d'. step2\<^sup>*\<^sup>* d d' \<and> match c' d'"
  by (induction rule: rtranclp_induct) (blast, meson forward rtranclp.rtrancl_into_rtrancl)

lemma backward_steps: "step2\<^sup>*\<^sup>* d d' \<Longrightarrow> match c d \<Longrightarrow> \<exists>c'. step1\<^sup>*\<^sup>* c c' \<and> match c' d'"
  by (induction rule: rtranclp_induct) (blast, meson backward rtranclp.rtrancl_into_rtrancl)

lemma same_ends: "match c d \<Longrightarrow> (\<nexists>c'. step1 c c') \<longleftrightarrow> (\<nexists>d'. step2 d d')"
  using forward backward by blast

lemma no_infinite_run:
  assumes "wfp (\<lambda>d' d. step2 d d')" "match c d"
  shows "\<nexists>cs. cs 0 = c \<and> (\<forall>k. step1 (cs k) (cs (Suc k)))"
  using assms
proof (induction d arbitrary: c rule: wfp_induct_rule)
  case (less d)
  show ?case
  proof
    assume "\<exists>cs. cs 0 = c \<and> (\<forall>k. step1 (cs k) (cs (Suc k)))"
    then obtain cs where cs: "cs 0 = c" "\<And>k. step1 (cs k) (cs (Suc k))" by blast
    from cs(2) [of 0] obtain d' where "step2 d d'" "match (cs 1) d'" using forward [OF less(2)] cs(1) by auto
    then have "\<nexists>cs'. cs' 0 = cs 1 \<and> (\<forall>k. step1 (cs' k) (cs' (Suc k)))" by (rule less(1))
    moreover have "\<exists>cs'. cs' 0 = cs 1 \<and> (\<forall>k. step1 (cs' k) (cs' (Suc k)))"
      by (rule exI [of _ "\<lambda>k. cs (Suc k)"]) (simp add: cs(2))
    ultimately show False by (rule notE)
  qed
qed

end

section \<open>Bodies of goroutines\<close>

text \<open>
  \<open>Put r b\<close> is \<open>results <- r\<close> followed by \<open>b\<close>, so \<open>Put r Stop\<close> is a send with its \<open>return\<close>;
  \<open>Look\<close> reads something that may depend on the calls made so far, \<open>Do\<close> makes a call.
\<close>

datatype body =
    Stop
  | Panic string
  | Put "err option" body
  | Look "history \<Rightarrow> body"
  | Do api_call "err option \<Rightarrow> body"

text \<open>An error that occurs: a panic, or a value that is sent, after which the body goes on as \<open>b\<close>.\<close>

definition report :: "err \<Rightarrow> body \<Rightarrow> body" where
  "report e b = (case e of GoPanic m \<Rightarrow> Panic m | _ \<Rightarrow> Put (Some e) b)"

text \<open>A loop: the goroutines that it starts, and the number of results that it receives.\<close>

type_synonym go_loop = "body list \<times> nat"

text \<open>
  While the loop runs and afterwards: what is left of the goroutines, the results received, each
  with the goroutine that sent it, and the calls made. \<open>Down\<close> is a panic of a goroutine,
  \<open>Misused\<close> the panic of a send on the closed channel.
\<close>

datatype running = Active "body list" "(nat \<times> err option) list" history | Down err history | Misused history

inductive body_step :: "goenv \<Rightarrow> nat \<Rightarrow> running \<Rightarrow> running \<Rightarrow> bool" for E n where
  look: "i < length bs \<Longrightarrow> bs ! i = Look f \<Longrightarrow> body_step E n (Active bs rs h) (Active (bs[i := f h]) rs h)"
| call: "i < length bs \<Longrightarrow> bs ! i = Do c f \<Longrightarrow> perform E c h = (q, h') \<Longrightarrow>
    body_step E n (Active bs rs h) (Active (bs[i := f q]) rs h')"
| put: "i < length bs \<Longrightarrow> bs ! i = Put r b \<Longrightarrow> length rs < n \<Longrightarrow>
    body_step E n (Active bs rs h) (Active (bs[i := b]) (rs @ [(i, r)]) h)"
| misuse: "i < length bs \<Longrightarrow> bs ! i = Put r b \<Longrightarrow> n \<le> length rs \<Longrightarrow> body_step E n (Active bs rs h) (Misused h)"
| down: "i < length bs \<Longrightarrow> bs ! i = Panic m \<Longrightarrow> body_step E n (Active bs rs h) (Down (GoPanic m) h)"

inductive_cases body_step_ActiveE: "body_step E n (Active bs rs h) c"
inductive_cases body_step_DownE [elim!]: "body_step E n (Down e h) c"
inductive_cases body_step_MisusedE [elim!]: "body_step E n (Misused h) c"

text \<open>Where an execution of a loop ends, and what the loop returns there.\<close>

definition loop_ends :: "goenv \<Rightarrow> go_loop \<Rightarrow> history \<Rightarrow> running \<Rightarrow> bool" where
  "loop_ends E l h c \<longleftrightarrow> (case l of (bs, n) \<Rightarrow>
     (body_step E n)\<^sup>*\<^sup>* (Active bs [] h) c \<and> (\<nexists>c'. body_step E n c c'))"

definition loop_value :: "goenv \<Rightarrow> running \<Rightarrow> (err + unit) \<times> history" where
  "loop_value E c = (case c of
     Active bs rs h \<Rightarrow> ((case multierror E (map snd rs) of None \<Rightarrow> Inr () | Some e \<Rightarrow> Inl e), h)
   | Down e h \<Rightarrow> (Inl e, h)
   | Misused h \<Rightarrow> (Inl (GoPanic ''send on closed channel''), h))"

text \<open>
  A loop that finishes: no execution goes on for ever; each ends with the panic of a body, or
  with all results received and every goroutine at its end, heard exactly once. So the loop does
  not wait for a result that nobody sends, no goroutine is left behind with a result that nobody
  receives, and nothing is sent on the closed channel.
\<close>

definition finishes :: "goenv \<Rightarrow> history \<Rightarrow> go_loop \<Rightarrow> bool" where
  "finishes E h l \<longleftrightarrow>
     (\<nexists>cs. cs 0 = Active (fst l) [] h \<and> (\<forall>k. body_step E (snd l) (cs k) (cs (Suc k)))) \<and>
     (\<forall>c. loop_ends E l h c \<longrightarrow> (case c of
        Active bs rs h' \<Rightarrow> bs = replicate (length (fst l)) Stop \<and> length rs = snd l \<and>
          mset (map fst rs) = mset [0..<length (fst l)]
      | Down e h' \<Rightarrow> is_panic e
      | Misused h' \<Rightarrow> False))"

text \<open>What a loop returns is what \<open>run\<close> computes, over all interleavings.\<close>

definition returns :: "goenv \<Rightarrow> (goenv \<Rightarrow> (history, unit) action) \<Rightarrow> go_loop \<Rightarrow> history \<Rightarrow> bool" where
  "returns E run l h \<longleftrightarrow>
     (\<forall>c. loop_ends E l h c \<longrightarrow> (\<exists>js. run (E\<lparr>go_interleave := \<lambda>l n. js\<rparr>) h = loop_value E c)) \<and>
     (\<exists>c. loop_ends E l h c \<and> loop_value E c = run E h)"

text \<open>The machine tells the mistakes apart: two sends, no send, too few and too many receives.\<close>

lemma two_sends: "\<not> finishes E h ([Put (Some e) (Put None Stop)], 1)"
proof -
  let ?l = "([Put (Some e) (Put None Stop)], 1) :: go_loop"
  have "body_step E 1 (Active (fst ?l) [] h) (Active [Put None Stop] [(0, Some e)] h)"
    using put [of 0 "fst ?l" "Some e" "Put None Stop" "[]" 1 E h] by simp
  moreover have "body_step E 1 (Active [Put None Stop] [(0, Some e)] h) (Misused h)"
    by (rule misuse [of 0 _ None Stop]) simp_all
  ultimately have "(body_step E 1)\<^sup>*\<^sup>* (Active (fst ?l) [] h) (Misused h)" by (meson converse_rtranclp_into_rtranclp rtranclp.rtrancl_refl)
  then have "loop_ends E ?l h (Misused h)" by (auto simp: loop_ends_def)
  then show ?thesis by (auto simp: finishes_def)
qed

lemma no_send: "\<not> finishes E h ([Stop], 1)"
proof -
  have "loop_ends E ([Stop], 1) h (Active [Stop] [] h)" by (auto simp: loop_ends_def elim!: body_step_ActiveE)
  then show ?thesis by (auto simp: finishes_def)
qed

lemma wrong_number_of_receives:
  assumes "n \<noteq> 1"
  shows "\<not> finishes E h ([Put r Stop], n)"
proof (cases n)
  case 0
  then have "body_step E n (Active [Put r Stop] [] h) (Misused h)" by (intro misuse [of 0 _ r Stop]) simp_all
  then have "loop_ends E ([Put r Stop], n) h (Misused h)" by (auto simp: loop_ends_def)
  then show ?thesis by (auto simp: finishes_def)
next
  case (Suc k)
  have "body_step E n (Active [Put r Stop] [] h) (Active [Stop] [(0, r)] h)"
    using put [of 0 "[Put r Stop]" r Stop "[]" n E h] Suc by simp
  moreover have "\<not> body_step E n (Active [Stop] [(0, r)] h) c'" for c' by (auto elim!: body_step_ActiveE)
  ultimately have "loop_ends E ([Put r Stop], n) h (Active [Stop] [(0, r)] h)" by (auto simp: loop_ends_def)
  then show ?thesis using Suc assms by (auto simp: finishes_def)
qed

section \<open>Bodies that send once\<close>

primrec once :: "body \<Rightarrow> bool" where
  "once Stop \<longleftrightarrow> False"
| "once (Panic m) \<longleftrightarrow> True"
| "once (Put r b) \<longleftrightarrow> not_panic r \<and> b = Stop"
| "once (Look f) \<longleftrightarrow> (\<forall>h. once (f h))"
| "once (Do c f) \<longleftrightarrow> (\<forall>q. once (f q))"

primrec body_of :: "proc \<Rightarrow> body" where
  "body_of (Send r) = (case r of None \<Rightarrow> Put None Stop | Some e \<Rightarrow> report e Stop)"
| "body_of (Read f) = Look (\<lambda>h. body_of (f h))"
| "body_of (Call c f) = Do c (\<lambda>q. body_of (f q))"

lemma once_report [simp]: "once (report e b) \<longleftrightarrow> is_panic e \<or> b = Stop"
  by (cases e) (simp_all add: report_def)

lemma once_is_proc: "once b \<Longrightarrow> \<exists>p. b = body_of p"
proof (induction b)
  case (Panic m)
  show ?case by (rule exI [of _ "Send (Some (GoPanic m))"]) (simp add: report_def)
next
  case (Put r b)
  then show ?case by (intro exI [of _ "Send r"]) (auto simp: report_def split: option.split err.split)
next
  case (Look f)
  then have "\<forall>h. \<exists>p. f h = body_of p" by auto
  then obtain g where "\<forall>h. f h = body_of (g h)" by metis
  then show ?case by (intro exI [of _ "Read g"]) (simp add: fun_eq_iff)
next
  case (Do c f)
  then have "\<forall>q. \<exists>p. f q = body_of p" by auto
  then obtain g where "\<forall>q. f q = body_of (g q)" by metis
  then show ?case by (intro exI [of _ "Call c g"]) (simp add: fun_eq_iff)
qed simp

lemma body_of_simps:
  "body_of p = Look f \<longleftrightarrow> (\<exists>g. p = Read g \<and> f = (\<lambda>h. body_of (g h)))"
  "body_of p = Do c f' \<longleftrightarrow> (\<exists>g. p = Call c g \<and> f' = (\<lambda>q. body_of (g q)))"
  "body_of p = Put r b \<longleftrightarrow> p = Send r \<and> not_panic r \<and> b = Stop"
  "body_of p = Panic m \<longleftrightarrow> p = Send (Some (GoPanic m))"
  "body_of p \<noteq> Stop"
  by (cases p; auto simp: report_def split: option.splits err.splits)+

section \<open>They run as in \<open>Channels\<close>\<close>

definition left :: "proc option \<Rightarrow> body" where
  "left g = (case g of None \<Rightarrow> Stop | Some p \<Rightarrow> body_of p)"

lemma left_simps [simp]: "left None = Stop" "left (Some p) = body_of p"
  by (simp_all add: left_def)

definition matching :: "nat \<Rightarrow> running \<Rightarrow> loop \<Rightarrow> bool" where
  "matching n c d \<longleftrightarrow> balanced n d \<and> (case (c, d) of
     (Active bs rs h, Running (gs, rs') h') \<Rightarrow> bs = map left gs \<and> rs' = map snd rs \<and> h' = h \<and>
        mset (map fst rs) = mset (filter (\<lambda>i. gs ! i = None) [0..<n])
   | (Down e h, Crashed e' h') \<Rightarrow> e' = e \<and> h' = h
   | _ \<Rightarrow> False)"

lemma heard_send:
  fixes gs :: "proc option list"
  assumes "i < length gs" "gs ! i = Some p"
  shows "mset (filter (\<lambda>j. gs[i := None] ! j = None) [0..<length gs]) =
    add_mset i (mset (filter (\<lambda>j. gs ! j = None) [0..<length gs]))"
proof -
  let ?P = "\<lambda>gs' :: proc option list. filter (\<lambda>j. gs' ! j = None) [0..<length gs]"
  have "set (?P (gs[i := None])) = insert i (set (?P gs))" "i \<notin> set (?P gs)"
    using assms by (auto simp: nth_list_update)
  then have new: "set (?P (gs[i := None])) = set (i # ?P gs)" "distinct (i # ?P gs)" by simp_all
  have "mset (?P (gs[i := None])) = mset (i # ?P gs)"
    by (rule set_eq_iff_mset_eq_distinct [THEN iffD1, OF _ new(2,1)]) simp
  then show ?thesis by simp
qed

lemma heard_step:
  assumes "i < length gs" "gs ! i = Some p"
  shows "filter (\<lambda>j. gs[i := Some p'] ! j = None) [0..<n] = filter (\<lambda>j. gs ! j = None) [0..<n]"
  using assms by (intro filter_cong) (auto simp: nth_list_update)

lemma room: "balanced n (Running (gs, rs) h) \<Longrightarrow> i < length gs \<Longrightarrow> gs ! i = Some p \<Longrightarrow> length gs = n \<and> length rs < n"
  using awaited_nth(1) [of i gs p] by (simp add: balanced_def)

lemma matching_forward:
  assumes m: "matching n c d" and s: "body_step E n c c'"
  shows "\<exists>d'. loop_step E n d d' \<and> matching n c' d'"
proof -
  obtain bs rs h gs where c: "c = Active bs rs h" and d: "d = Running (gs, map snd rs) h" and bs: "bs = map left gs"
    and heard: "mset (map fst rs) = mset (filter (\<lambda>i. gs ! i = None) [0..<n])" and b: "balanced n d"
    using m s by (auto simp: matching_def split: running.splits loop.splits prod.splits elim: body_step.cases)
  have upd: "bs[i := left g] = map left (gs[i := g])" for i g by (simp add: bs map_update)
  have at: "\<exists>p. i < length gs \<and> gs ! i = Some p \<and> body_of p = b" if "i < length bs" "bs ! i = b" "b \<noteq> Stop" for i b
  proof -
    from that(1) have "i < length gs" "bs ! i = left (gs ! i)" by (simp_all add: bs)
    with that(2,3) show ?thesis by (cases "gs ! i") auto
  qed
  have match: "matching n (Active (map left gs') rs' h') (Running (gs', map snd rs') h')"
    if "loop_step E n d (Running (gs', map snd rs') h')" "mset (map fst rs') = mset (filter (\<lambda>i. gs' ! i = None) [0..<n])" for gs' rs' h'
    using balanced_step [OF that(1) b] that(2) by (simp add: matching_def)
  show ?thesis using s
  proof cases
    case (look i bs' f rs' h0)
    then have [simp]: "bs' = bs" "rs' = rs" "h0 = h" using c by simp_all
    from look at [of i] obtain g where i: "i < length gs" "gs ! i = Some (Read g)" "f = (\<lambda>h. body_of (g h))"
      by (auto simp: body_of_simps)
    then have st: "loop_step E n d (Running (gs[i := Some (g h)], map snd rs) h)" unfolding d by (intro read)
    from match [OF st] heard heard_step [OF i(1,2)] upd [of i "Some (g h)"] look i st show ?thesis by auto
  next
    case (call i bs' a f h0 q h' rs')
    then have [simp]: "bs' = bs" "rs' = rs" "h0 = h" using c by simp_all
    from call at [of i] obtain g where i: "i < length gs" "gs ! i = Some (Call a g)" "f = (\<lambda>q. body_of (g q))"
      by (auto simp: body_of_simps)
    then have st: "loop_step E n d (Running (gs[i := Some (g q)], map snd rs) h')" using call unfolding d by (intro loop_step.call) simp_all
    from match [OF st] heard heard_step [OF i(1,2)] upd [of i "Some (g q)"] call i st show ?thesis by auto
  next
    case (put i bs' r b' rs' h0)
    then have [simp]: "bs' = bs" "rs' = rs" "h0 = h" using c by simp_all
    from put at [of i] have i: "i < length gs" "gs ! i = Some (Send r)" "not_panic r" "b' = Stop" by (auto simp: body_of_simps)
    have st: "loop_step E n d (Running (gs[i := None], map snd (rs @ [(i, r)])) h)"
      using send [of i gs r "map snd rs" n E h] i put unfolding d by simp
    have "mset (map fst (rs @ [(i, r)])) = mset (filter (\<lambda>i'. gs[i := None] ! i' = None) [0..<n])"
      using heard heard_send [OF i(1,2)] room [OF b [unfolded d] i(1,2)] by simp
    from match [OF st this] upd [of i None] put i st show ?thesis by auto
  next
    case (misuse i bs' r b' rs' h0)
    then have [simp]: "bs' = bs" "rs' = rs" "h0 = h" using c by simp_all
    from misuse at [of i] have i: "i < length gs" "gs ! i = Some (Send r)" by (auto simp: body_of_simps)
    with room [OF b [unfolded d] i] misuse show ?thesis by simp
  next
    case (down i bs' m rs' h0)
    then have [simp]: "bs' = bs" "rs' = rs" "h0 = h" using c by simp_all
    from down at [of i] have "i < length gs" "gs ! i = Some (Send (Some (GoPanic m)))" by (auto simp: body_of_simps)
    then have "loop_step E n d (Crashed (GoPanic m) h)" unfolding d by (rule crash)
    with down show ?thesis by (auto simp: matching_def balanced_def)
  qed
qed

lemma matching_backward:
  assumes m: "matching n c d" and s: "loop_step E n d d'"
  shows "\<exists>c'. body_step E n c c' \<and> matching n c' d'"
proof -
  obtain bs rs h gs where c: "c = Active bs rs h" and d: "d = Running (gs, map snd rs) h" and bs: "bs = map left gs"
    and heard: "mset (map fst rs) = mset (filter (\<lambda>i. gs ! i = None) [0..<n])" and b: "balanced n d"
    using m s by (auto simp: matching_def split: running.splits loop.splits prod.splits elim: loop_step.cases)
  have bal: "balanced n d'" by (rule balanced_step [OF s b])
  have upd: "bs[i := left g] = map left (gs[i := g])" for i g by (simp add: bs map_update)
  have match: ?thesis if "body_step E n c (Active (map left gs') rs' h')" "d' = Running (gs', map snd rs') h'"
    "mset (map fst rs') = mset (filter (\<lambda>i. gs' ! i = None) [0..<n])" for gs' rs' h'
    by (rule exI, rule conjI [OF that(1)]) (use bal that(2,3) in \<open>simp add: matching_def\<close>)
  show ?thesis using s
  proof cases
    case (read i gs' f rs' h0)
    with d have r: "i < length gs" "gs ! i = Some (Read f)" "d' = Running (gs[i := Some (f h)], map snd rs) h" by simp_all
    have "body_step E n c (Active (bs[i := left (Some (f h))]) rs h)"
      unfolding c left_simps by (rule look) (use r bs in simp_all)
    from match [OF this [unfolded upd] r(3)] heard heard_step [OF r(1,2)] show ?thesis by simp
  next
    case (call i gs' a f h0 q h' rs')
    with d have r: "i < length gs" "gs ! i = Some (Call a f)" "perform E a h = (q, h')"
      "d' = Running (gs[i := Some (f q)], map snd rs) h'" by simp_all
    have "body_step E n c (Active (bs[i := left (Some (f q))]) rs h')"
      unfolding c left_simps by (rule body_step.call [where c = a]) (use r bs in simp_all)
    from match [OF this [unfolded upd] r(4)] heard heard_step [OF r(1,2)] show ?thesis by simp
  next
    case (send i gs' r rs' h0)
    with d have r: "i < length gs" "gs ! i = Some (Send r)" "not_panic r"
      "d' = Running (gs[i := None], map snd (rs @ [(i, r)])) h" by simp_all
    note n = room [OF b [unfolded d] r(1,2)]
    have "body_of (Send r) = Put r Stop" using r(3) body_of_simps(3) [of "Send r" r Stop] by blast
    with r bs have "bs ! i = Put r Stop" by simp
    then have "body_step E n c (Active (bs[i := left None]) (rs @ [(i, r)]) h)"
      unfolding c left_simps by (intro put) (use r bs n in simp_all)
    moreover have "mset (map fst (rs @ [(i, r)])) = mset (filter (\<lambda>i'. gs[i := None] ! i' = None) [0..<n])"
      using heard heard_send [OF r(1,2)] n by simp
    ultimately show ?thesis using match [OF _ r(4)] unfolding upd by blast
  next
    case (crash i gs' m rs' h0)
    with d have r: "i < length gs" "gs ! i = Some (Send (Some (GoPanic m)))" "d' = Crashed (GoPanic m) h" by simp_all
    have "body_step E n c (Down (GoPanic m) h)"
      unfolding c by (rule down [of i]) (use r bs in \<open>simp_all add: report_def\<close>)
    with r(3) bal show ?thesis by (auto simp: matching_def)
  qed
qed

interpretation bodies: lockstep "body_step E n" "loop_step E n" "matching n" for E n
  by unfold_locales (rule matching_forward matching_backward; assumption)+

lemma matching_start: "matching (length ps) (Active (map body_of ps) [] h) (loop_start (\<lambda>p. p) ps h)"
proof -
  show ?thesis using balanced_start [of ps "\<lambda>p. p" h] by (auto simp: matching_def loop_start_def comp_def mset_set_empty_iff)
qed

lemma matching_value: "matching n c d \<Longrightarrow> loop_value E c = loop_result E d"
  by (auto simp: matching_def loop_value_def loop_result_def split: running.splits loop.splits prod.splits)

text \<open>An execution of bodies that ends is one of \<open>Channels\<close>, and the other way round.\<close>

lemma ends_forward:
  assumes "loop_ends E (map body_of ps, length ps) h c"
  shows "\<exists>d. ends E (length ps) (loop_start (\<lambda>p. p) ps h) d \<and> matching (length ps) c d"
proof -
  from assms have run: "(body_step E (length ps))\<^sup>*\<^sup>* (Active (map body_of ps) [] h) c" and stop: "\<nexists>c'. body_step E (length ps) c c'"
    by (simp_all add: loop_ends_def)
  from bodies.forward_steps [OF run matching_start] obtain d where
    "(loop_step E (length ps))\<^sup>*\<^sup>* (loop_start (\<lambda>p. p) ps h) d" "matching (length ps) c d" by blast
  with bodies.same_ends [OF this(2), of E] stop show ?thesis unfolding ends_def by blast
qed

lemma ends_backward:
  assumes "ends E (length ps) (loop_start (\<lambda>p. p) ps h) d"
  shows "\<exists>c. loop_ends E (map body_of ps, length ps) h c \<and> matching (length ps) c d"
proof -
  from assms have run: "(loop_step E (length ps))\<^sup>*\<^sup>* (loop_start (\<lambda>p. p) ps h) d" and stop: "\<nexists>d'. loop_step E (length ps) d d'"
    by (simp_all add: ends_def)
  from bodies.backward_steps [OF run matching_start] obtain c where
    "(body_step E (length ps))\<^sup>*\<^sup>* (Active (map body_of ps) [] h) c" "matching (length ps) c d" by blast
  with bodies.same_ends [OF this(2), of E] stop show ?thesis unfolding loop_ends_def by auto
qed

lemma all_received_matching:
  assumes "matching n c d" "all_received n d" "length (fst l) = n" "snd l = n"
  shows "case c of Active bs rs h' \<Rightarrow> bs = replicate (length (fst l)) Stop \<and> length rs = snd l \<and>
          mset (map fst rs) = mset [0..<length (fst l)]
      | Down e h' \<Rightarrow> is_panic e | Misused h' \<Rightarrow> False"
proof (cases c)
  case (Active bs rs h)
  then obtain gs where d: "d = Running (gs, map snd rs) h" and bs: "bs = map left gs"
    and heard: "mset (map fst rs) = mset (filter (\<lambda>i. gs ! i = None) [0..<n])"
    using assms(1) by (auto simp: matching_def split: loop.splits prod.splits)
  from d assms(2) have gs: "gs = replicate n None" "length rs = n" by (simp_all add: all_received_def)
  then have "filter (\<lambda>i. gs ! i = None) [0..<n] = [0..<n]" by (auto simp: filter_id_conv)
  with gs bs heard assms(3,4) show ?thesis by (simp add: Active)
qed (use assms(1,2) in \<open>auto simp: matching_def all_received_def split: loop.splits prod.splits\<close>)

text \<open>What is to be shown of a loop: its bodies send once, and it receives once for each of them.\<close>

lemma once_are_procs: "\<forall>b \<in> set bs. once b \<Longrightarrow> \<exists>ps. bs = map body_of ps"
  by (induction bs) (auto dest!: once_is_proc intro: exI [of _ "[]"] simp: Cons_eq_map_conv)

lemma once_finishes:
  assumes "list_all once bs" "n = length bs"
  shows "finishes E h (bs, n)"
proof -
  obtain ps where bs: "bs = map body_of ps" using once_are_procs assms(1) by (auto simp: list_all_iff)
  then have n: "n = length ps" using assms(2) by simp
  let ?run = "\<lambda>E. go_procs E 0 (\<lambda>p. p) ps"
  have like: "runs_like E ?run (\<lambda>p. p) ps h" by (rule go_procs_runs_like) simp_all
  show ?thesis
    unfolding finishes_def bs n fst_conv snd_conv
  proof (intro conjI allI impI)
    show "\<nexists>cs. cs 0 = Active (map body_of ps) [] h \<and> (\<forall>k. body_step E (length ps) (cs k) (cs (Suc k)))"
      by (rule bodies.no_infinite_run [OF wfp_loop_step matching_start])
    fix c assume "loop_ends E (map body_of ps, length ps) h c"
    from ends_forward [OF this] like obtain d where "matching (length ps) c d" "all_received (length ps) d"
      unfolding runs_like_def by blast
    from all_received_matching [OF this, of "(map body_of ps, length ps)"]
    show "case c of Active bs rs h' \<Rightarrow> bs = replicate (length (map body_of ps)) Stop \<and> length rs = length ps \<and>
        mset (map fst rs) = mset [0..<length (map body_of ps)] | Down e h' \<Rightarrow> is_panic e | Misused h' \<Rightarrow> False"
      by (simp only: fst_conv snd_conv length_map)
  qed
qed

text \<open>What such a loop returns, when the model computes it with \<open>go_procs\<close>.\<close>

lemma go_procs_returns:
  assumes "\<And>js. run (E\<lparr>go_interleave := \<lambda>l n. js\<rparr>) = go_procs (E\<lparr>go_interleave := \<lambda>l n. js\<rparr>) l f xs"
    and "run E = go_procs E l f xs" and "map body xs = map (\<lambda>x. body_of (f x)) xs" "n = length xs"
  shows "returns E run (map body xs, n) h"
proof -
  let ?ps = "map f xs"
  have go: "go_procs E' l f xs = go_procs E' l (\<lambda>p. p) ?ps" for E' by (simp add: go_procs_def comp_def)
  have like: "runs_like E run (\<lambda>p. p) ?ps h"
    by (rule go_procs_runs_like [where l = l]) (simp_all only: assms(1,2) go)
  have bs: "map body xs = map body_of ?ps" and n: "n = length ?ps" using assms(3,4) by simp_all
  show ?thesis
    unfolding returns_def bs n
  proof (intro conjI allI impI)
    fix c assume "loop_ends E (map body_of ?ps, length ?ps) h c"
    from ends_forward [OF this] like matching_value
    show "\<exists>js. run (E\<lparr>go_interleave := \<lambda>l n. js\<rparr>) h = loop_value E c" unfolding runs_like_def by metis
  next
    from like obtain d where "ends E (length ?ps) (loop_start (\<lambda>p. p) ?ps h) d" "loop_result E d = run E h"
      unfolding runs_like_def by blast
    with ends_backward [OF this(1)] matching_value show "\<exists>c. loop_ends E (map body_of ?ps, length ?ps) h c \<and> loop_value E c = run E h"
      by metis
  qed
qed

end
