(* ===== verification/Loops.thy ===== *)
theory Loops
  imports Controller Azure Bodies
begin

text \<open>
  The thirteen parallel loops of the operator, with their goroutines as bodies of statements:
  the sends are where the code has them, and the number of results that a loop receives is that
  of its second \<open>for\<close>. They all terminate, and those with goroutines of several steps return what
  the model computes.
\<close>

section \<open>Objects\<close>

definition reconcileNetNamespaces_body :: "rcontext \<Rightarrow> namespace \<Rightarrow> body" where
  "reconcileNetNamespaces_body rc n =
     (case ns_ips n of
        None \<Rightarrow> Put (Some (ErrNew (''namespace '' @ ns_name n @ '' doesn't have required annotation: '' @
          NamespaceAssociationAnnotation))) Stop
      | Some ipstring \<Rightarrow>
          let IPs = split_on (CHR '','') ipstring;
              nn = gm_get zero_netnamespace (rc_NetNamespaces rc) (ns_name n)
          in if \<not> DeepEqual (NetNamespaceEgressIPs (nn_egressIPs nn)) (StringSlice (Some IPs))
             then Do (UpdateNetNamespace (nn\<lparr>nn_egressIPs := GetNetNamespaceEgressIPs IPs\<rparr>)) (\<lambda>err.
               (case err of Some e \<Rightarrow> report e Stop | None \<Rightarrow> Put None Stop))
             else Put None Stop)"

definition reconcileNetNamespaces_loop :: "rcontext \<Rightarrow> go_loop" where
  "reconcileNetNamespaces_loop rc =
     (map (reconcileNetNamespaces_body rc) (rc_FinallyAssignedNamespaces rc), length (rc_FinallyAssignedNamespaces rc))"

definition removeNetnamespaceAssignedIPs_body :: "rcontext \<Rightarrow> namespace \<Rightarrow> body" where
  "removeNetnamespaceAssignedIPs_body rc n =
     (let nn = gm_get zero_netnamespace (rc_NetNamespaces rc) (ns_name n)
      in if \<not> DeepEqual (NetNamespaceEgressIPs (nn_egressIPs nn)) (StringSlice (Some []))
         then Do (UpdateNetNamespace (nn\<lparr>nn_egressIPs := Some []\<rparr>)) (\<lambda>err.
           (case err of Some e \<Rightarrow> report e Stop | None \<Rightarrow> Put None Stop))
         else Put None Stop)"

definition removeNetnamespaceAssignedIPs_loop :: "rcontext \<Rightarrow> go_loop" where
  "removeNetnamespaceAssignedIPs_loop rc =
     (map (\<lambda>(name, n). removeNetnamespaceAssignedIPs_body rc n) (rc_ReferringNamespaces rc), length (rc_ReferringNamespaces rc))"

definition removeNamespaceAssignedIPs_body :: "namespace \<Rightarrow> body" where
  "removeNamespaceAssignedIPs_body n =
     Do (UpdateNamespace (without_ips n)) (\<lambda>err. (case err of Some e \<Rightarrow> report e Stop | None \<Rightarrow> Put None Stop))"

definition removeNamespaceAssignedIPs_loop :: "rcontext \<Rightarrow> go_loop" where
  "removeNamespaceAssignedIPs_loop rc =
     (map removeNamespaceAssignedIPs_body (rc_InitiallyAssignedNamespaces rc), length (rc_InitiallyAssignedNamespaces rc))"

definition reconcileHSAssignedIPs_body :: "goenv \<Rightarrow> rcontext \<Rightarrow> string \<times> hostsubnet \<Rightarrow> body" where
  "reconcileHSAssignedIPs_body E rc = (\<lambda>(name, hs).
     let ips = gm_get [] (rc_FinallyAssignedIPsByNode rc) name in
     if \<not> str_is_equal E ips (GetHostHostSubnetEgressIPsAsStrings (hs_egressIPs hs))
     then Do (UpdateHostSubnet (hs\<lparr>hs_egressCIDRs := Some [], hs_egressIPs := GetHostHostSubnetEgressIPs ips\<rparr>)) (\<lambda>err.
       (case err of Some e \<Rightarrow> report e Stop | None \<Rightarrow> Put None Stop))
     else Put None Stop)"

definition reconcileHSAssignedIPs_loop :: "goenv \<Rightarrow> rcontext \<Rightarrow> go_loop" where
  "reconcileHSAssignedIPs_loop E rc =
     (map (reconcileHSAssignedIPs_body E rc) (rc_SelectedHostSubnets rc), length (rc_SelectedHostSubnets rc))"

definition removeHostsubnetAssignedIPsAndCIDRs_body :: "string \<times> hostsubnet \<Rightarrow> body" where
  "removeHostsubnetAssignedIPsAndCIDRs_body = (\<lambda>(name, hs).
     if \<not> DeepEqual (HostSubnetEgressCIDRs (hs_egressCIDRs hs)) (StringSlice (Some [])) \<or>
        \<not> DeepEqual (HostSubnetEgressIPs (hs_egressIPs hs)) (StringSlice (Some []))
     then Do (UpdateHostSubnet (hs\<lparr>hs_egressCIDRs := Some [], hs_egressIPs := Some []\<rparr>)) (\<lambda>err.
       (case err of Some e \<Rightarrow> report e Stop | None \<Rightarrow> Put None Stop))
     else Put None Stop)"

definition removeHostsubnetAssignedIPsAndCIDRs_loop :: "rcontext \<Rightarrow> go_loop" where
  "removeHostsubnetAssignedIPsAndCIDRs_loop rc =
     (map removeHostsubnetAssignedIPsAndCIDRs_body (rc_SelectedHostSubnets rc), length (rc_SelectedHostSubnets rc))"

section \<open>Loading\<close>

text \<open>The fields of the context that the goroutines write are in \<open>load_objects\<close> and \<open>load_used\<close>.\<close>

definition load_objects_loop :: "goenv \<Rightarrow> rcontext \<Rightarrow> go_loop" where
  "load_objects_loop E rc =
     ([Look (\<lambda>h. (case getAllNodes E h of Inl e \<Rightarrow> report e Stop | Inr allNodes \<Rightarrow> Put None Stop)),
       Look (\<lambda>h. (case getAllHostSubnets E h of Inl e \<Rightarrow> report e Stop | Inr allHostSubnets \<Rightarrow> Put None Stop)),
       Look (\<lambda>h. (case getReferringNamespaces E rc h of Inl e \<Rightarrow> report e Stop | Inr namespaces \<Rightarrow> Put None Stop)),
       Look (\<lambda>h. (case getAllNetNamespaces E h of Inl e \<Rightarrow> report e Stop | Inr netNamespaces \<Rightarrow> Put None Stop))],
      length [''nodes'', ''hostsubnets'', ''namespaces'', ''netnamespaces''])"

definition load_used_loop :: "infra \<Rightarrow> rcontext \<Rightarrow> go_loop" where
  "load_used_loop infra rc =
     ([Look (\<lambda>h. (case GetUsedIPsByCIDR infra rc h of
         (Inl e, h') \<Rightarrow> report e Stop | (Inr usedIPsByCIDR, h') \<Rightarrow> Put None Stop))],
      length [''usedIPS''])"

section \<open>AWS\<close>

definition removeAWSUnusedIPs_body :: "goenv \<Rightarrow> instances \<Rightarrow> rcontext \<Rightarrow> string \<times> string list \<Rightarrow> body" where
  "removeAWSUnusedIPs_body E inst rc = (\<lambda>(node, ips).
     (case node_nic inst rc node of
        Inl e \<Rightarrow> report e Stop
      | Inr nic \<Rightarrow>
          let toBeRemovedIPs = str_difference E (awsAssignedIPs nic) ips in
          if 0 < length toBeRemovedIPs
          then Do (UnassignPrivateIpAddresses (NetworkInterfaceId nic) toBeRemovedIPs) (\<lambda>err.
            (case err of Some e \<Rightarrow> report e Stop | None \<Rightarrow> Put None Stop))
          else Put None Stop))"

definition removeAWSUnusedIPs_loop :: "goenv \<Rightarrow> instances \<Rightarrow> rcontext \<Rightarrow> go_loop" where
  "removeAWSUnusedIPs_loop E inst rc =
     (map (removeAWSUnusedIPs_body E inst rc) (rc_FinallyAssignedIPsByNode rc), length (rc_FinallyAssignedIPsByNode rc))"

definition reconcileAWSAssignedIPs_body :: "goenv \<Rightarrow> instances \<Rightarrow> rcontext \<Rightarrow> string \<times> string list \<Rightarrow> body" where
  "reconcileAWSAssignedIPs_body E inst rc = (\<lambda>(node, ips).
     (case node_nic inst rc node of
        Inl e \<Rightarrow> report e Stop
      | Inr nic \<Rightarrow>
          let toBeAssignedIPs = str_difference E ips (awsAssignedIPs nic) in
          if 0 < length toBeAssignedIPs
          then Do (AssignPrivateIpAddresses (NetworkInterfaceId nic) toBeAssignedIPs) (\<lambda>err.
            (case err of Some e \<Rightarrow> report e Stop | None \<Rightarrow> Put None Stop))
          else Put None Stop))"

definition reconcileAWSAssignedIPs_loop :: "goenv \<Rightarrow> instances \<Rightarrow> rcontext \<Rightarrow> go_loop" where
  "reconcileAWSAssignedIPs_loop E inst rc =
     (map (reconcileAWSAssignedIPs_body E inst rc) (rc_FinallyAssignedIPsByNode rc), length (rc_FinallyAssignedIPsByNode rc))"

text \<open>The loop over the further addresses, which returns at the first error, then the last send.\<close>

fun unassign_each :: "string \<Rightarrow> ec2_address list \<Rightarrow> body" where
  "unassign_each nic [] = Put None Stop"
| "unassign_each nic (secondaryIP # ips) =
     Do (UnassignPrivateIpAddresses nic [PrivateIpAddress secondaryIP]) (\<lambda>err.
       (case err of Some e \<Rightarrow> report e Stop | None \<Rightarrow> unassign_each nic ips))"

definition removeAllAWSAssignedIPs_body :: "instances \<Rightarrow> string \<times> node \<Rightarrow> body" where
  "removeAllAWSAssignedIPs_body inst = (\<lambda>(name, n).
     (case map_of inst (getAWSIDFromNode n) of
        None \<Rightarrow> Put (Some (ErrNew ''type assertion failed'')) Stop
      | Some i \<Rightarrow>
          (case first_nic (Some i) of
             Inl e \<Rightarrow> report e Stop
           | Inr nic \<Rightarrow>
               (case PrivateIpAddresses nic of
                  [] \<Rightarrow> Panic ''slice bounds out of range''
                | _ # secondary \<Rightarrow> unassign_each (NetworkInterfaceId nic) secondary))))"

definition removeAllAWSAssignedIPs_loop :: "instances \<Rightarrow> rcontext \<Rightarrow> go_loop" where
  "removeAllAWSAssignedIPs_loop inst rc =
     (map (removeAllAWSAssignedIPs_body inst) (rc_SelectedNodes rc), length (rc_SelectedNodes rc))"

section \<open>Azure\<close>

text \<open>The loop over the interfaces of a machine, as in \<open>load_primary\<close>; a read that fails is sent.\<close>

fun read_primary :: "azure \<Rightarrow> azure_client \<Rightarrow> (network_interface \<Rightarrow> 's \<Rightarrow> err + 's) \<Rightarrow>
    interface_reference list \<Rightarrow> network_interface option \<Rightarrow> 's \<Rightarrow> (network_interface option \<Rightarrow> 's \<Rightarrow> body) \<Rightarrow> body" where
  "read_primary X c visit [] networkInterface s go = go networkInterface s"
| "read_primary X c visit (netif # netifs) networkInterface s go =
     (case reference_Primary netif of
        None \<Rightarrow> report nil_pointer Stop
      | Some False \<Rightarrow> read_primary X c visit netifs networkInterface s go
      | Some True \<Rightarrow>
          (case getResourceGroupFromResourceID (reference_ID netif) of
             Inl e \<Rightarrow> report e Stop
           | Inr resourceGroup \<Rightarrow>
               (case getNameFromResourceID (reference_ID netif) of
                  Inl e \<Rightarrow> report e Stop
                | Inr name \<Rightarrow>
                    Look (\<lambda>h.
                      (case GetInterface X c resourceGroup name h of
                         Inl e \<Rightarrow> report e Stop
                       | Inr nic \<Rightarrow>
                           (case visit nic s of
                              Inl e \<Rightarrow> report e Stop
                            | Inr s' \<Rightarrow> read_primary X c visit netifs (Some nic) s' go))))))"

definition machine_interfaces :: "machines \<Rightarrow> string \<Rightarrow> (interface_reference list \<Rightarrow> body) \<Rightarrow> body" where
  "machine_interfaces inst node f =
     (case map_of inst node of
        None \<Rightarrow> report nil_pointer Stop
      | Some instance \<Rightarrow>
          (case vm_NetworkInterfaces instance of None \<Rightarrow> report nil_pointer Stop | Some netifs \<Rightarrow> f netifs))"

text \<open>The call with the wait for its completion, the send of its error, and the last send.\<close>

definition write_interface :: "err + network_interface \<times> ip_configuration list \<Rightarrow> body" where
  "write_interface r =
     (case r of
        Inl e \<Rightarrow> report e Stop
      | Inr (nic, ipConfigurations) \<Rightarrow>
          (case getResourceGroupFromResourceID (interface_ID nic) of
             Inl e \<Rightarrow> report e Stop
           | Inr resourceGroup \<Rightarrow>
               Do (CreateOrUpdate resourceGroup (interface_Name nic) (nic\<lparr>IPConfigurations := Some ipConfigurations\<rparr>)) (\<lambda>err.
                 (case err of Some e \<Rightarrow> report e Stop | None \<Rightarrow> Put None Stop))))"

definition removeAllAzureSecondaryIPs_body :: "azure \<Rightarrow> azure_client \<Rightarrow> machines \<Rightarrow> string \<times> node \<Rightarrow> body" where
  "removeAllAzureSecondaryIPs_body X c inst = (\<lambda>(node, _).
     machine_interfaces inst node (\<lambda>netifs.
       read_primary X c (\<lambda>nic u. Inr u) netifs None () (\<lambda>networkInterface u.
         write_interface (bind_err (configurations networkInterface) (\<lambda>(nic, cfgs).
           bind_err (go_for (\<lambda>ipConfiguration kept.
             (case config_Primary ipConfiguration of
                None \<Rightarrow> Inl nil_pointer
              | Some p \<Rightarrow> Inr (if p then kept @ [ipConfiguration] else kept))) cfgs []) (\<lambda>ipConfigurations.
             Inr (nic, ipConfigurations)))))))"

definition removeAllAzureSecondaryIPs_loop :: "azure \<Rightarrow> azure_client \<Rightarrow> machines \<Rightarrow> rcontext \<Rightarrow> go_loop" where
  "removeAllAzureSecondaryIPs_loop X c inst rc =
     (map (removeAllAzureSecondaryIPs_body X c inst) (rc_SelectedNodes rc), length (rc_SelectedNodes rc))"

definition removeUnNeededAzureAssignedIPs_body ::
  "goenv \<Rightarrow> azure \<Rightarrow> azure_client \<Rightarrow> machines \<Rightarrow> string \<times> string list \<Rightarrow> body" where
  "removeUnNeededAzureAssignedIPs_body E X c inst = (\<lambda>(node, ips).
     machine_interfaces inst node (\<lambda>netifs.
       read_primary X c azureAssignedIPs netifs None [] (\<lambda>networkInterface assigned.
         write_interface (bind_err (configurations networkInterface) (\<lambda>(nic, cfgs).
           let toBeRemovedIPs = str_difference E assigned ips in
           Inr (nic, filter (\<lambda>cfg. \<not> has_address toBeRemovedIPs cfg) cfgs))))))"

definition removeUnNeededAzureAssignedIPs_loop :: "goenv \<Rightarrow> azure \<Rightarrow> azure_client \<Rightarrow> machines \<Rightarrow> rcontext \<Rightarrow> go_loop" where
  "removeUnNeededAzureAssignedIPs_loop E X c inst rc =
     (map (removeUnNeededAzureAssignedIPs_body E X c inst) (rc_FinallyAssignedIPsByNode rc), length (rc_FinallyAssignedIPsByNode rc))"

definition addNeededAzureAssignedIPs_body ::
  "goenv \<Rightarrow> azure \<Rightarrow> azure_client \<Rightarrow> machines \<Rightarrow> EgressIPAM \<Rightarrow> string \<times> string list \<Rightarrow> body" where
  "addNeededAzureAssignedIPs_body E X c inst egressIPAM = (\<lambda>(node, ips).
     machine_interfaces inst node (\<lambda>netifs.
       read_primary X c azureAssignedIPs netifs None [] (\<lambda>networkInterface assigned.
         (case getLoadBalancerPools egressIPAM networkInterface of
            Inl e \<Rightarrow> report e Stop
          | Inr pools \<Rightarrow>
              write_interface (bind_err (configurations networkInterface) (\<lambda>(nic, cfgs).
                bind_err (go_for (\<lambda>i ipConfigurations.
                  (case cfgs of
                     [] \<Rightarrow> Inl out_of_range
                   | first # _ \<Rightarrow> Inr (ipConfigurations @ [egress_configuration pools first i])))
                  (str_difference E ips assigned) cfgs) (\<lambda>ipConfigurations.
                  Inr (nic, ipConfigurations))))))))"

definition addNeededAzureAssignedIPs_loop :: "goenv \<Rightarrow> azure \<Rightarrow> azure_client \<Rightarrow> machines \<Rightarrow> rcontext \<Rightarrow> go_loop" where
  "addNeededAzureAssignedIPs_loop E X c inst rc =
     (map (addNeededAzureAssignedIPs_body E X c inst (rc_EgressIPAM rc)) (rc_FinallyAssignedIPsByNode rc), length (rc_FinallyAssignedIPsByNode rc))"

section \<open>They send once\<close>

lemma once_unassign_each [simp]: "once (unassign_each nic ips)"
  by (induction ips) (simp_all split: option.split)

lemma once_write_interface [simp]: "once (write_interface r)"
  by (auto simp: write_interface_def split: sum.split option.split)

lemma once_read_primary [simp]:
  "(\<And>nic s. once (go nic s)) \<Longrightarrow> once (read_primary X c visit netifs nic s go)"
  by (induction netifs arbitrary: nic s) (auto split: option.split bool.split sum.split)

lemma once_machine_interfaces [simp]: "(\<And>netifs. once (f netifs)) \<Longrightarrow> once (machine_interfaces inst node f)"
  by (auto simp: machine_interfaces_def split: option.split)

lemma once_bodies:
  "once (reconcileNetNamespaces_body rc n)" "once (removeNetnamespaceAssignedIPs_body rc n)" "once (removeNamespaceAssignedIPs_body n)"
  "once (reconcileHSAssignedIPs_body E rc x)" "once (removeHostsubnetAssignedIPsAndCIDRs_body x)"
  "once (removeAWSUnusedIPs_body E insts rc y)" "once (reconcileAWSAssignedIPs_body E insts rc y)"
  "once (removeAllAWSAssignedIPs_body insts z)" "once (removeAllAzureSecondaryIPs_body X c inst z)"
  "once (removeUnNeededAzureAssignedIPs_body E X c inst y)" "once (addNeededAzureAssignedIPs_body E X c inst ei y)"
  by (auto simp: reconcileNetNamespaces_body_def removeNetnamespaceAssignedIPs_body_def removeNamespaceAssignedIPs_body_def
      reconcileHSAssignedIPs_body_def removeHostsubnetAssignedIPsAndCIDRs_body_def removeAWSUnusedIPs_body_def
      reconcileAWSAssignedIPs_body_def removeAllAWSAssignedIPs_body_def removeAllAzureSecondaryIPs_body_def
      removeUnNeededAzureAssignedIPs_body_def addNeededAzureAssignedIPs_body_def Let_def
      split: option.split sum.split list.split prod.split)

section \<open>They do what the model computes\<close>

lemma report_body: "report e Stop = body_of (Send (Some e))"
  by simp

lemma unassign_each_body: "unassign_each nic ips = body_of (remove_each nic ips)"
  by (induction ips) (auto simp: fun_eq_iff split: option.split)

lemma removeAllAWSAssignedIPs_body: "removeAllAWSAssignedIPs_body inst (name, n) = body_of (remove_proc inst n)"
  by (simp add: removeAllAWSAssignedIPs_body_def remove_proc_def unassign_each_body report_def split: option.split sum.split list.split)

lemma write_interface_body: "write_interface r = body_of (update_interface r)"
  by (auto simp: write_interface_def update_interface_def fun_eq_iff split: sum.split option.split)

lemma read_primary_body:
  "(\<And>nic s. go nic s = body_of (go' nic s)) \<Longrightarrow> read_primary X c visit netifs nic s go = body_of (load_primary X c visit netifs nic s go')"
  by (induction netifs arbitrary: nic s) (auto simp: fun_eq_iff split: option.split bool.split sum.split)

lemma machine_interfaces_body:
  "(\<And>netifs. f netifs = body_of (g netifs)) \<Longrightarrow> machine_interfaces inst node f = body_of (with_interfaces inst node g)"
  by (simp add: machine_interfaces_def with_interfaces_def split: option.split)

lemma azure_bodies:
  "removeAllAzureSecondaryIPs_body X c inst z = body_of (remove_secondary_proc X c inst (fst z))"
  "removeUnNeededAzureAssignedIPs_body E X c inst y = body_of (remove_unneeded_proc E X c inst y)"
  "addNeededAzureAssignedIPs_body E X c inst ei y = body_of (add_needed_proc E X c inst ei y)"
proof -
  show "removeAllAzureSecondaryIPs_body X c inst z = body_of (remove_secondary_proc X c inst (fst z))"
    unfolding removeAllAzureSecondaryIPs_body_def remove_secondary_proc_def case_prod_beta
    by (intro machine_interfaces_body read_primary_body write_interface_body)
  show "removeUnNeededAzureAssignedIPs_body E X c inst y = body_of (remove_unneeded_proc E X c inst y)"
    unfolding removeUnNeededAzureAssignedIPs_body_def remove_unneeded_proc_def case_prod_beta
    by (intro machine_interfaces_body read_primary_body write_interface_body)
  have "(case getLoadBalancerPools ei nic of Inl e \<Rightarrow> report e Stop | Inr pools \<Rightarrow> write_interface (f pools)) =
      body_of (update_interface (bind_err (getLoadBalancerPools ei nic) f))" for nic f
    by (cases "getLoadBalancerPools ei nic") (simp_all add: write_interface_body, simp add: update_interface_def)
  then show "addNeededAzureAssignedIPs_body E X c inst ei y = body_of (add_needed_proc E X c inst ei y)"
    unfolding addNeededAzureAssignedIPs_body_def add_needed_proc_def case_prod_beta
    by (intro machine_interfaces_body read_primary_body)
qed

lemma same_procs:
  "remove_unneeded_proc (E\<lparr>go_interleave := js\<rparr>) = remove_unneeded_proc E"
  "add_needed_proc (E\<lparr>go_interleave := js\<rparr>) = add_needed_proc E"
proof -
  have "str_difference (E\<lparr>go_interleave := js\<rparr>) = str_difference E" by simp
  then show "remove_unneeded_proc (E\<lparr>go_interleave := js\<rparr>) = remove_unneeded_proc E"
    "add_needed_proc (E\<lparr>go_interleave := js\<rparr>) = add_needed_proc E"
    unfolding remove_unneeded_proc_def add_needed_proc_def by (simp_all only:)
qed

section \<open>All of them finish\<close>

definition operator_loops :: "goenv \<Rightarrow> azure \<Rightarrow> azure_client \<Rightarrow> instances \<Rightarrow> machines \<Rightarrow> infra \<Rightarrow> rcontext \<Rightarrow> go_loop list" where
  "operator_loops E X c instances machines infra rc =
     [load_objects_loop E rc, load_used_loop infra rc,
      reconcileNetNamespaces_loop rc, removeNetnamespaceAssignedIPs_loop rc, removeNamespaceAssignedIPs_loop rc,
      reconcileHSAssignedIPs_loop E rc, removeHostsubnetAssignedIPsAndCIDRs_loop rc,
      removeAWSUnusedIPs_loop E instances rc, reconcileAWSAssignedIPs_loop E instances rc, removeAllAWSAssignedIPs_loop instances rc,
      removeAllAzureSecondaryIPs_loop X c machines rc, removeUnNeededAzureAssignedIPs_loop E X c machines rc,
      addNeededAzureAssignedIPs_loop E X c machines rc]"

text \<open>
  C13. The parallel loops terminate. For each of the thirteen loops that start goroutines and collect
  their results over an unbuffered channel, with the sends, the returns after them and the
  number of receives as in the code, and for every order of the steps: no execution goes on for
  ever; none blocks, neither the loop for a result that nobody sends nor a goroutine with a
  result that nobody receives; nothing is sent on the channel once it is closed; and unless a
  goroutine panics by itself, every goroutine comes to its end and is heard exactly once. For
  the four loops with goroutines of several steps, the values they can return are those of
  the model over all interleavings.
\<close>

theorem parallel_loops_terminate:
  "list_all (finishes E h) (operator_loops E X c instances machines infra rc) \<and>
   returns E (\<lambda>E. removeAllAWSAssignedIPs E instances rc) (removeAllAWSAssignedIPs_loop instances rc) h \<and>
   returns E (\<lambda>E. removeAllAzureSecondaryIPs E X c machines rc) (removeAllAzureSecondaryIPs_loop X c machines rc) h \<and>
   returns E (\<lambda>E. removeUnNeededAzureAssignedIPs E X c machines rc) (removeUnNeededAzureAssignedIPs_loop E X c machines rc) h \<and>
   returns E (\<lambda>E. addNeededAzureAssignedIPs E X c machines rc) (addNeededAzureAssignedIPs_loop E X c machines rc) h"
proof (intro conjI)
  have load: "finishes E h (load_objects_loop E rc)" "finishes E h (load_used_loop infra rc)"
    unfolding load_objects_loop_def load_used_loop_def by (rule once_finishes; simp split: sum.split prod.split)+
  have maps: "finishes E h (map f xs, length xs)" if "\<And>x. once (f x)" for f :: "'x \<Rightarrow> body" and xs
    using that by (intro once_finishes) (simp_all add: list_all_iff)
  have "finishes E h (removeNetnamespaceAssignedIPs_loop rc)"
    unfolding removeNetnamespaceAssignedIPs_loop_def by (rule maps) (auto intro: once_bodies)
  then show "list_all (finishes E h) (operator_loops E X c instances machines infra rc)"
    unfolding operator_loops_def list.pred_inject(2) reconcileNetNamespaces_loop_def removeNamespaceAssignedIPs_loop_def
      reconcileHSAssignedIPs_loop_def removeHostsubnetAssignedIPsAndCIDRs_loop_def removeAWSUnusedIPs_loop_def
      reconcileAWSAssignedIPs_loop_def removeAllAWSAssignedIPs_loop_def removeAllAzureSecondaryIPs_loop_def
      removeUnNeededAzureAssignedIPs_loop_def addNeededAzureAssignedIPs_loop_def
    using load by (intro conjI maps once_bodies list.pred_inject(1))
  show "returns E (\<lambda>E. removeAllAWSAssignedIPs E instances rc) (removeAllAWSAssignedIPs_loop instances rc) h"
    unfolding removeAllAWSAssignedIPs_loop_def
    by (rule go_procs_returns [where l = 250 and f = "\<lambda>x. remove_proc instances (snd x)"])
      (auto simp: removeAllAWSAssignedIPs_def removeAllAWSAssignedIPs_body go_procs_def comp_def)
  show "returns E (\<lambda>E. removeAllAzureSecondaryIPs E X c machines rc) (removeAllAzureSecondaryIPs_loop X c machines rc) h"
    unfolding removeAllAzureSecondaryIPs_loop_def
    by (rule go_procs_returns [where l = 332 and f = "\<lambda>x. remove_secondary_proc X c machines (fst x)"])
      (simp_all add: removeAllAzureSecondaryIPs_def azure_bodies go_procs_def comp_def)
  show "returns E (\<lambda>E. removeUnNeededAzureAssignedIPs E X c machines rc) (removeUnNeededAzureAssignedIPs_loop E X c machines rc) h"
    unfolding removeUnNeededAzureAssignedIPs_loop_def
    by (rule go_procs_returns [where l = 382 and f = "remove_unneeded_proc E X c machines"])
      (simp_all only: removeUnNeededAzureAssignedIPs_def same_procs, simp_all add: azure_bodies)
  show "returns E (\<lambda>E. addNeededAzureAssignedIPs E X c machines rc) (addNeededAzureAssignedIPs_loop E X c machines rc) h"
    unfolding addNeededAzureAssignedIPs_loop_def
    by (rule go_procs_returns [where l = 450 and f = "add_needed_proc E X c machines (rc_EgressIPAM rc)"])
      (simp_all only: addNeededAzureAssignedIPs_def same_procs, simp_all add: azure_bodies)
qed

end
