(* ===== verification/Program.thy ===== *)
theory Program
  imports Setup
begin

text \<open>
  \<open>main.go\<close>, the registration of the types (\<open>groupversion_info.go\<close>, \<open>egressipam_types.go\<close>) and of
  the metrics: what happens before the first reconcile, and in which order. The manager of
  controller-runtime, the schemes of the packages and the registry of Prometheus are the
  parameter \<open>runtime\<close>.
\<close>

section \<open>Types and metrics\<close>

text \<open>A type of an API group, as a scheme registers it.\<close>

record api_type =
  type_Group :: string
  type_Version :: string
  type_Kind :: string

definition GroupVersion :: "string \<times> string" where
  "GroupVersion = (''redhatcop.redhat.io'', ''v1alpha1'')"

text \<open>What \<open>init\<close> of \<open>egressipam_types.go\<close> puts into the builder of the group.\<close>

definition SchemeBuilder :: "api_type list" where
  "SchemeBuilder = map (\<lambda>kind. \<lparr>type_Group = fst GroupVersion, type_Version = snd GroupVersion, type_Kind = kind\<rparr>)
     [''EgressIPAM'', ''EgressIPAMList'']"

record gauge_opts =
  gauge_Subsystem :: string
  gauge_Name :: string
  gauge_labels :: "string list"

definition ipCapacity :: gauge_opts where
  "ipCapacity = \<lparr>gauge_Subsystem = ''egressip'', gauge_Name = ''ip_capacity'', gauge_labels = [''egressipam'', ''node'']\<rparr>"

definition ipAllocated :: gauge_opts where
  "ipAllocated = \<lparr>gauge_Subsystem = ''egressip'', gauge_Name = ''ip_allocated'', gauge_labels = [''egressipam'', ''node'']\<rparr>"

section \<open>What the program is linked with\<close>

record manager_options =
  opt_Scheme :: "api_type list"
  opt_MetricsBindAddress :: string
  opt_Port :: int
  opt_HealthProbeBindAddress :: string
  opt_LeaderElection :: bool
  opt_LeaderElectionID :: string
  opt_LeaderElectionResourceLock :: string

text \<open>The packages whose \<open>AddToScheme\<close> is called, other than the operator's own.\<close>

datatype api_package = ClientGo | OpenShiftNetwork | OpenShiftConfig | CloudCredential | MachineAPI

record runtime =
  MustRegister :: "gauge_opts list \<Rightarrow> err option"
  package_types :: "api_package \<Rightarrow> api_type list"
  AddToScheme :: "api_type list \<Rightarrow> api_type list \<Rightarrow> err option"
    \<comment> \<open>the types to add, the scheme so far\<close>
  GetConfig :: "err option"
    \<comment> \<open>\<open>GetConfigOrDie\<close> exits with 1 when there is none\<close>
  NewManager :: "manager_options \<Rightarrow> err option"
  Complete :: "string \<Rightarrow> err option"             \<comment> \<open>the controller for a kind\<close>
  AddHealthzCheck :: "string \<Rightarrow> err option"
  AddReadyzCheck :: "string \<Rightarrow> err option"
  Start :: "history \<Rightarrow> err option"               \<comment> \<open>returns when the manager stops\<close>

text \<open>
  The flags that the command line sets. A command line that is wrong, or that asks for help,
  makes \<open>flag.Parse\<close> exit with a status of its own.
\<close>

record command_line =
  parse_exit :: "nat option"
  flag_text :: "string \<Rightarrow> string option"
  flag_bool :: "string \<Rightarrow> bool option"

section \<open>The program\<close>

text \<open>What has happened so far, in order.\<close>

datatype startup =
    MetricsRegistered
  | SchemeComplete "api_type list"
  | ManagerCreated manager_options
  | ControllerAdded string
  | HealthzAdded string
  | ReadyzAdded string
  | Started

type_synonym 'a start_action = "(startup list \<times> history, 'a) action"

definition attempt :: "startup \<Rightarrow> err option \<Rightarrow> unit start_action" where
  "attempt s r = (\<lambda>(log, h). case r of None \<Rightarrow> (Inr (), log @ [s], h) | Some e \<Rightarrow> (Inl e, log, h))"

definition on_history :: "(history, 'a) action \<Rightarrow> 'a start_action" where
  "on_history f = (\<lambda>(log, h). case f h of (r, h') \<Rightarrow> (r, log, h'))"

text \<open>\<open>init\<close> of the reconciler and of \<open>main\<close>: both panic when a registration fails.\<close>

definition init_metrics :: "runtime \<Rightarrow> unit start_action" where
  "init_metrics R = attempt MetricsRegistered (MustRegister R [ipCapacity, ipAllocated])"

definition init_scheme :: "runtime \<Rightarrow> (api_type list) start_action" where
  "init_scheme R =
     bind_w (pure_w (go_for (\<lambda>types scheme. case AddToScheme R types scheme of None \<Rightarrow> Inr (scheme @ types) | Some e \<Rightarrow> Inl e)
       [package_types R ClientGo, SchemeBuilder, package_types R OpenShiftNetwork, package_types R OpenShiftConfig,
        package_types R CloudCredential, package_types R MachineAPI] [])) (\<lambda>scheme.
     bind_w (attempt (SchemeComplete scheme) None) (\<lambda>u. pure_w (Inr scheme)))"

definition main_options :: "command_line \<Rightarrow> api_type list \<Rightarrow> manager_options" where
  "main_options cl scheme =
     (let metricsAddr = (case flag_text cl ''metrics-bind-address'' of None \<Rightarrow> '':8080'' | Some a \<Rightarrow> a);
          probeAddr = (case flag_text cl ''health-probe-bind-address'' of None \<Rightarrow> '':8081'' | Some a \<Rightarrow> a);
          enableLeaderElection = (case flag_bool cl ''leader-elect'' of None \<Rightarrow> False | Some b \<Rightarrow> b) in
      \<lparr>opt_Scheme = scheme, opt_MetricsBindAddress = metricsAddr, opt_Port = 9443,
       opt_HealthProbeBindAddress = probeAddr, opt_LeaderElection = enableLeaderElection,
       opt_LeaderElectionID = ''9ae943bf.redhat.io'', opt_LeaderElectionResourceLock = ''configmaps''\<rparr>)"

definition EgressIPAM_SetupWithManager :: "goenv \<Rightarrow> runtime \<Rightarrow> platform start_action" where
  "EgressIPAM_SetupWithManager E R =
     bind_w (on_history (setup_platform E)) (\<lambda>infrastructure.
     bind_w (attempt (ControllerAdded ''EgressIPAM'') (Complete R ''EgressIPAM'')) (\<lambda>u.
     pure_w (Inr infrastructure)))"

definition Namespace_SetupWithManager :: "runtime \<Rightarrow> unit start_action" where
  "Namespace_SetupWithManager R = attempt (ControllerAdded ''Namespace'') (Complete R ''Namespace'')"

text \<open>\<open>main\<close> from the flags on. An error is \<open>os.Exit(1)\<close>, but a panic ends the process as such.\<close>

definition run_main :: "goenv \<Rightarrow> runtime \<Rightarrow> command_line \<Rightarrow> api_type list \<Rightarrow> unit start_action" where
  "run_main E R cl scheme =
     bind_w (pure_w (case GetConfig R of None \<Rightarrow> Inr () | Some e \<Rightarrow> Inl e)) (\<lambda>config.
     bind_w (attempt (ManagerCreated (main_options cl scheme)) (NewManager R (main_options cl scheme))) (\<lambda>u.
     bind_w (EgressIPAM_SetupWithManager E R) (\<lambda>infrastructure.
     bind_w (Namespace_SetupWithManager R) (\<lambda>u.
     bind_w (attempt (HealthzAdded ''health'') (AddHealthzCheck R ''health'')) (\<lambda>u.
     bind_w (attempt (ReadyzAdded ''check'') (AddReadyzCheck R ''check'')) (\<lambda>u.
     bind_w (attempt Started None) (\<lambda>u. (\<lambda>(log, h). (case Start R h of None \<Rightarrow> Inr () | Some e \<Rightarrow> Inl e, log, h)))))))))"

datatype exit = Returned | Exit nat | PanicAtInit err | PanicInMain err

definition main :: "goenv \<Rightarrow> runtime \<Rightarrow> command_line \<Rightarrow> history \<Rightarrow> exit \<times> startup list \<times> history" where
  "main E R cl h =
     (case bind_w (init_metrics R) (\<lambda>u. init_scheme R) ([], h) of
        (Inl e, s) \<Rightarrow> (PanicAtInit e, s)
      | (Inr scheme, s) \<Rightarrow>
          (case parse_exit cl of
             Some n \<Rightarrow> (Exit n, s)
           | None \<Rightarrow>
               (case run_main E R cl scheme s of
                  (Inr u, s') \<Rightarrow> (Returned, s')
                | (Inl e, s') \<Rightarrow> (if is_panic e then PanicInMain e else Exit 1, s'))))"

section \<open>The order of the start\<close>

definition started_log :: "command_line \<Rightarrow> api_type list \<Rightarrow> startup list" where
  "started_log cl scheme = [MetricsRegistered, SchemeComplete scheme, ManagerCreated (main_options cl scheme),
     ControllerAdded ''EgressIPAM'', ControllerAdded ''Namespace'', HealthzAdded ''health'', ReadyzAdded ''check'', Started]"

lemma attempt_step:
  "bind_w (attempt s r) f (log, h) = (case r of None \<Rightarrow> f () (log @ [s], h) | Some e \<Rightarrow> (Inl e, log, h))"
  by (simp add: bind_w_def attempt_def split: option.split)

lemma on_history_step:
  "bind_w (on_history g) f (log, h) = (case g h of (Inl e, h') \<Rightarrow> (Inl e, log, h') | (Inr x, h') \<Rightarrow> f x (log, h'))"
  by (simp add: bind_w_def on_history_def split: prod.split sum.split)

lemma bind_w_assoc: "bind_w (bind_w a f) g = bind_w a (\<lambda>x. bind_w (f x) g)"
  by (rule ext) (simp add: bind_w_def split: prod.split sum.split)

lemma bind_w_pure [simp]: "bind_w (pure_w (Inr x)) f = f x" "bind_w (pure_w (Inl e)) f = pure_w (Inl e)"
  by (rule ext, simp add: bind_w_def pure_w_def)+

text \<open>\<open>main\<close> step by step, after the registrations.\<close>

text \<open>A log that ends after one of the given numbers of steps.\<close>

lemma ends_after_cases:
  assumes "P 3 \<or> P 4 \<or> P 5 \<or> P 6 \<or> P (8 :: nat)"
  shows "\<exists>n \<ge> 2. P n"
  using assms by (elim disjE) (rule exI, erule conjI [rotated], simp)+

lemma run_main_steps:
  assumes "run_main E R cl scheme ([MetricsRegistered, SchemeComplete scheme], h) = (r, log, h')"
  shows "(\<exists>n \<ge> 2. log = take n (started_log cl scheme)) \<and> (h' \<noteq> h \<longrightarrow> ManagerCreated (main_options cl scheme) \<in> set log) \<and>
    (Started \<in> set log \<longrightarrow> (\<exists>p. setup_platform E h = (Inr p, h'))) \<and>
    (r = Inr () \<longleftrightarrow> Started \<in> set log \<and> Start R h' = None)"
proof -
  note run = assms [unfolded run_main_def EgressIPAM_SetupWithManager_def Namespace_SetupWithManager_def bind_w_assoc
      bind_w_pure attempt_step on_history_step]
  let ?ends = "\<lambda>n. log = take n (started_log cl scheme)"
  obtain r1 h1 where p: "setup_platform E h = (r1, h1)" by fastforce
  consider e where "GetConfig R = Some e"
    | e where "GetConfig R = None" "NewManager R (main_options cl scheme) = Some e"
    | e where "GetConfig R = None" "NewManager R (main_options cl scheme) = None" "r1 = Inl e"
    | q where "GetConfig R = None" "NewManager R (main_options cl scheme) = None" "r1 = Inr q"
    by (cases "GetConfig R"; cases "NewManager R (main_options cl scheme)"; cases r1) auto
  then show ?thesis
  proof cases
    case 1
    with run have "?ends 2" "h' = h" "r \<noteq> Inr ()" by (auto simp: started_log_def pure_w_def bind_w_def eval_nat_numeral)
    then show ?thesis by (auto simp: started_log_def eval_nat_numeral)
  next
    case 2
    with run have "?ends 2" "h' = h" "r \<noteq> Inr ()" by (auto simp: started_log_def attempt_step eval_nat_numeral)
    then show ?thesis by (auto simp: started_log_def eval_nat_numeral)
  next
    case 3
    with run p have "?ends 3" "r \<noteq> Inr ()" by (auto simp: started_log_def attempt_step on_history_step eval_nat_numeral)
    then show ?thesis by (auto simp: started_log_def eval_nat_numeral intro!: exI [of _ 3])
  next
    case (4 q)
    note run = run [unfolded 4 option.case bind_w_assoc bind_w_pure attempt_step on_history_step,
        unfolded p 4 option.case prod.case sum.case bind_w_assoc bind_w_pure attempt_step on_history_step]
    have "h' = h1 \<and> (r \<noteq> Inr () \<and> (?ends 3 \<or> ?ends 4 \<or> ?ends 5 \<or> ?ends 6) \<or>
        ?ends 8 \<and> r = (case Start R h' of None \<Rightarrow> Inr () | Some e \<Rightarrow> Inl e))"
      using run by (auto simp: started_log_def eval_nat_numeral split: option.splits)
    then have h': "h' = h1" and ends: "(r \<noteq> Inr () \<and> (?ends 3 \<or> ?ends 4 \<or> ?ends 5 \<or> ?ends 6) \<or>
        ?ends 8 \<and> r = (case Start R h' of None \<Rightarrow> Inr () | Some e \<Rightarrow> Inl e))" by blast+
    have "?ends 3 \<or> ?ends 4 \<or> ?ends 5 \<or> ?ends 6 \<or> ?ends 8" using ends by blast
    then have "\<exists>n \<ge> 2. ?ends n" by (rule ends_after_cases)
    moreover have "ManagerCreated (main_options cl scheme) \<in> set log" and "r = Inr () \<longleftrightarrow> Started \<in> set log \<and> Start R h' = None"
      using ends by (auto simp: started_log_def eval_nat_numeral split: option.splits)
    ultimately show ?thesis using p 4 h' by simp
  qed
qed

lemma registrations:
  assumes "bind_w (init_metrics R) (\<lambda>u. init_scheme R) ([], h) = (r, log, h')"
  shows "h' = h" "r = Inr scheme \<Longrightarrow> log = [MetricsRegistered, SchemeComplete scheme] \<and>
      set SchemeBuilder \<subseteq> set scheme \<and> (\<forall>p. set (package_types R p) \<subseteq> set scheme)"
    "r = Inl e \<Longrightarrow> log = [] \<or> log = [MetricsRegistered]"
proof -
  let ?all = "[package_types R ClientGo, SchemeBuilder, package_types R OpenShiftNetwork, package_types R OpenShiftConfig,
        package_types R CloudCredential, package_types R MachineAPI]"
  let ?add = "\<lambda>types scheme. case AddToScheme R types scheme of None \<Rightarrow> Inr (scheme @ types) | Some e \<Rightarrow> Inl e"
  have concat: "go_for ?add ts s = Inr t \<Longrightarrow> t = s @ concat ts" for ts s t
  proof (induction ts arbitrary: s)
    case (Cons x xs)
    then have "go_for ?add xs (s @ x) = Inr t" by (simp split: option.splits)
    from Cons.IH [OF this] show ?case by simp
  qed simp
  have all: "set (package_types R p) \<subseteq> set (concat ?all)" for p by (cases p) auto
  show "h' = h" "r = Inl e \<Longrightarrow> log = [] \<or> log = [MetricsRegistered]"
    using assms by (auto simp: init_metrics_def init_scheme_def attempt_step bind_w_def pure_w_def attempt_def split: option.splits sum.splits)
  show "r = Inr scheme \<Longrightarrow> log = [MetricsRegistered, SchemeComplete scheme] \<and>
      set SchemeBuilder \<subseteq> set scheme \<and> (\<forall>p. set (package_types R p) \<subseteq> set scheme)"
  proof -
    assume r: "r = Inr scheme"
    then have s: "go_for ?add ?all [] = Inr scheme" and log: "log = [MetricsRegistered, SchemeComplete scheme]"
      using assms by (auto simp: init_metrics_def init_scheme_def attempt_step bind_w_def pure_w_def attempt_def split: option.splits sum.splits)
    from concat [OF s] all have "set (package_types R p) \<subseteq> set scheme" for p by simp
    moreover from concat [OF s] have "set SchemeBuilder \<subseteq> set scheme" by auto
    ultimately show ?thesis using log by simp
  qed
qed

text \<open>
  C38. The order of the start. Whatever fails, \<open>main\<close> has done a prefix of: register the metrics,
  complete the scheme, create the manager with it, set up the controller of EgressIPAMs, then
  that of namespaces, add the health and the readiness check, start. When the manager is
  started, the scheme holds the operator's own types and those of all packages, and the
  set-up with the request for cloud credentials has succeeded; no call is made before the
  manager exists. \<open>main\<close> returns only when the manager was started and stopped without
  error; any other end is \<open>os.Exit(1)\<close>, the exit of \<open>flag.Parse\<close> before the manager is
  created, or a panic, in the registrations before anything else.
\<close>

theorem main_starts_last:
  assumes "main E R cl h = (x, log, h')"
  shows "\<exists>scheme. (\<exists>n. log = take n (started_log cl scheme)) \<and>
    (h' \<noteq> h \<longrightarrow> ManagerCreated (main_options cl scheme) \<in> set log) \<and>
    (Started \<in> set log \<longrightarrow> set SchemeBuilder \<subseteq> set scheme \<and> (\<forall>p. set (package_types R p) \<subseteq> set scheme) \<and>
       (\<exists>p. setup_platform E h = (Inr p, h'))) \<and>
    (x = Returned \<longleftrightarrow> Started \<in> set log \<and> Start R h' = None) \<and>
    (case x of Returned \<Rightarrow> True | Exit n \<Rightarrow> 2 \<le> length log \<and> (n = 1 \<or> parse_exit cl = Some n \<and> length log = 2) | PanicAtInit e \<Rightarrow> length log < 2 | PanicInMain e \<Rightarrow> is_panic e)"
proof -
  obtain r0 log0 h0 where init: "bind_w (init_metrics R) (\<lambda>u. init_scheme R) ([], h) = (r0, log0, h0)" by (metis prod_cases3)
  note reg = registrations [OF init]
  show ?thesis
  proof (cases r0)
    case (Inl e)
    then have "x = PanicAtInit e" "log = log0" "h' = h" using assms init reg(1) by (auto simp: main_def)
    moreover have "log0 = take (length log0) (started_log cl s)" "length log0 < 2" "Started \<notin> set log0" for s
      using reg(3) [OF Inl] by (auto simp: started_log_def)
    ultimately show ?thesis by auto
  next
    case (Inr scheme)
    note scheme = reg(2) [OF Inr]
    show ?thesis
    proof (cases "parse_exit cl")
      case (Some n)
      then have "x = Exit n" "log = [MetricsRegistered, SchemeComplete scheme]" "h' = h"
        using assms init Inr scheme reg(1) by (auto simp: main_def)
      then show ?thesis using Some by (auto simp: started_log_def intro!: exI [of _ scheme] exI [of _ 2])
    next
      case None
      obtain r log1 h1 where run: "run_main E R cl scheme ([MetricsRegistered, SchemeComplete scheme], h) = (r, log1, h1)" by (metis prod_cases3)
      have end': "log1 = log" "h1 = h'" and x: "x = (case r of Inr u \<Rightarrow> Returned | Inl e \<Rightarrow> if is_panic e then PanicInMain e else Exit 1)"
        using assms init Inr scheme reg(1) run None by (auto simp: main_def split: sum.splits)
      note steps = run_main_steps [OF run [unfolded end']]
      from steps obtain n where n: "2 \<le> n" "log = take n (started_log cl scheme)" by blast
      then have "2 \<le> length log" by (simp add: started_log_def)
      then have "case x of Returned \<Rightarrow> True | Exit n \<Rightarrow> 2 \<le> length log \<and> (n = 1 \<or> parse_exit cl = Some n \<and> length log = 2)
          | PanicAtInit e \<Rightarrow> length log < 2 | PanicInMain e \<Rightarrow> is_panic e"
        by (cases r) (simp_all add: x)
      moreover have "x = Returned \<longleftrightarrow> r = Inr ()" by (cases r) (simp_all add: x)
      ultimately show ?thesis using steps scheme n(2) by blast
    qed
  qed
qed

section \<open>A witness\<close>

definition example_runtime :: runtime where
  "example_runtime = \<lparr>MustRegister = (\<lambda>gs. None),
     package_types = (\<lambda>p. case p of
        OpenShiftNetwork \<Rightarrow> map (\<lambda>k. \<lparr>type_Group = ''network.openshift.io'', type_Version = ''v1'', type_Kind = k\<rparr>) [''HostSubnet'', ''NetNamespace'']
      | _ \<Rightarrow> []),
     AddToScheme = (\<lambda>types scheme. None), GetConfig = None, NewManager = (\<lambda>opts. None), Complete = (\<lambda>k. None),
     AddHealthzCheck = (\<lambda>n. None), AddReadyzCheck = (\<lambda>n. None), Start = (\<lambda>h. None)\<rparr>"

theorem main_starts_last_witness:
  "\<exists>scheme h'. snd (main example_start example_runtime \<lparr>parse_exit = None, flag_text = (\<lambda>f. None), flag_bool = (\<lambda>f. Some True)\<rparr> []) =
      (started_log \<lparr>parse_exit = None, flag_text = (\<lambda>f. None), flag_bool = (\<lambda>f. Some True)\<rparr> scheme, h') \<and>
    set SchemeBuilder \<subseteq> set scheme \<and> (\<exists>p. setup_platform example_start [] = (Inr p, h'))"
proof -
  let ?cl = "\<lparr>parse_exit = None, flag_text = (\<lambda>f. None), flag_bool = (\<lambda>f. Some True)\<rparr>"
  obtain x log h' where run: "main example_start example_runtime ?cl [] = (x, log, h')" by (metis prod_cases3)
  have "fst (main example_start example_runtime ?cl []) = Returned" by code_simp
  then have x: "x = Returned" using run by simp
  from main_starts_last [OF run] x obtain scheme n where s: "log = take n (started_log ?cl scheme)" "Started \<in> set log"
    "set SchemeBuilder \<subseteq> set scheme" "\<exists>p. setup_platform example_start [] = (Inr p, h')" by auto
  have "log = started_log ?cl scheme"
  proof (cases "n \<ge> 8")
    case True
    then show ?thesis using s(1) by (simp add: started_log_def)
  next
    case False
    then have "Started \<notin> set (take n (started_log ?cl scheme))"
      by (auto simp: started_log_def take_Cons split: nat.splits)
    with s(1,2) show ?thesis by simp
  qed
  with run s(3,4) show ?thesis by (intro exI [of _ scheme] exI [of _ h']) simp
qed

end
