(* ===== verification/DeepCopy.thy ===== *)
theory DeepCopy
  imports Prelude
begin

text \<open>
  \<open>zz_generated.deepcopy.go\<close>: the deep copies of the operator's own types, over an explicit store
  in which slices may share their arrays. What a copy promises is the locale \<open>deep_copy\<close>: it
  reads as the original and its arrays are new. The rest of the development treats a copy as
  the object itself; this theory is why it may.
\<close>

section \<open>Store\<close>

text \<open>
  A slice is nil or a part of an array: the number of the array, where the part begins and its
  length. The types of apimachinery (\<open>ObjectMeta\<close>, \<open>ListMeta\<close>, \<open>LabelSelector\<close>, \<open>Condition\<close>) are
  the type variable.
\<close>

type_synonym part = "nat \<times> nat \<times> nat"

type_synonym slice = "part option"

record CIDRAssignment_go =
  go_CIDR :: string
  go_LabelValue :: string
  go_ReservedIPs :: slice

record 'x EgressIPAMSpec_go =
  go_CIDRAssignments :: slice
  go_TopologyLabel :: string
  go_NodeSelector :: 'x

record EgressIPAMStatus_go =
  go_Conditions :: slice

record 'x EgressIPAM_go =
  go_TypeMeta :: "string \<times> string"
  go_ObjectMeta :: 'x
  go_Spec :: "'x EgressIPAMSpec_go"
  go_Status :: EgressIPAMStatus_go

record 'x EgressIPAMList_go =
  go_ListTypeMeta :: "string \<times> string"
  go_ListMeta :: 'x
  go_Items :: slice

text \<open>The arrays that have been made; \<open>new(T)\<close> makes one of length 1.\<close>

datatype 'x cell =
    Strings "string list"
  | Assignments "CIDRAssignment_go list"
  | Conditions "'x list"
  | Specs "'x EgressIPAMSpec_go list"
  | Statuses "EgressIPAMStatus_go list"
  | EgressIPAMs "'x EgressIPAM_go list"
  | EgressIPAMLists "'x EgressIPAMList_go list"
  | Foreign 'x

type_synonym 'x store = "'x cell list"

definition strings_of :: "'x cell \<Rightarrow> string list" where
  "strings_of c = (case c of Strings xs \<Rightarrow> xs | _ \<Rightarrow> [])"

definition assignments_of :: "'x cell \<Rightarrow> CIDRAssignment_go list" where
  "assignments_of c = (case c of Assignments xs \<Rightarrow> xs | _ \<Rightarrow> [])"

definition conditions_of :: "'x cell \<Rightarrow> 'x list" where
  "conditions_of c = (case c of Conditions xs \<Rightarrow> xs | _ \<Rightarrow> [])"

definition specs_of :: "'x cell \<Rightarrow> 'x EgressIPAMSpec_go list" where
  "specs_of c = (case c of Specs xs \<Rightarrow> xs | _ \<Rightarrow> [])"

definition statuses_of :: "'x cell \<Rightarrow> EgressIPAMStatus_go list" where
  "statuses_of c = (case c of Statuses xs \<Rightarrow> xs | _ \<Rightarrow> [])"

definition egressipams_of :: "'x cell \<Rightarrow> 'x EgressIPAM_go list" where
  "egressipams_of c = (case c of EgressIPAMs xs \<Rightarrow> xs | _ \<Rightarrow> [])"

definition lists_of :: "'x cell \<Rightarrow> 'x EgressIPAMList_go list" where
  "lists_of c = (case c of EgressIPAMLists xs \<Rightarrow> xs | _ \<Rightarrow> [])"

named_theorems cell_simps \<open>the arrays of each type\<close>

lemmas [cell_simps] = strings_of_def assignments_of_def conditions_of_def specs_of_def statuses_of_def
  egressipams_of_def lists_of_def

definition make_array :: "'x cell \<Rightarrow> 'x store \<Rightarrow> nat \<times> 'x store" where
  "make_array c h = (length h, h @ [c])"

definition elements :: "('x cell \<Rightarrow> 'e list) \<Rightarrow> 'x store \<Rightarrow> part \<Rightarrow> 'e list" where
  "elements get h p = (case p of (b, offset, n) \<Rightarrow> take n (drop offset (get (h ! b))))"

section \<open>Copying a slice\<close>

text \<open>\<open>for i := range *in { (*in)[i].DeepCopyInto(&(*out)[i]) }\<close>\<close>

fun copy_each :: "('e list \<Rightarrow> 'x cell) \<Rightarrow> ('x cell \<Rightarrow> 'e list) \<Rightarrow> ('e \<Rightarrow> 'x store \<Rightarrow> 'e \<times> 'x store) \<Rightarrow>
    part \<Rightarrow> nat \<Rightarrow> nat list \<Rightarrow> 'x store \<Rightarrow> 'x store" where
  "copy_each put get DeepCopyInto p out [] h = h"
| "copy_each put get DeepCopyInto (b, offset, n) out (i # is) h =
     (case DeepCopyInto (get (h ! b) ! (offset + i)) h of
        (e, h1) \<Rightarrow> copy_each put get DeepCopyInto (b, offset, n) out is (h1[out := put ((get (h1 ! out))[i := e])]))"

definition copy_slice :: "('e list \<Rightarrow> 'x cell) \<Rightarrow> ('x cell \<Rightarrow> 'e list) \<Rightarrow> 'e \<Rightarrow>
    ('e \<Rightarrow> 'x store \<Rightarrow> 'e \<times> 'x store) \<Rightarrow> slice \<Rightarrow> 'x store \<Rightarrow> slice \<times> 'x store" where
  "copy_slice put get zero DeepCopyInto s h =
     (case s of
        None \<Rightarrow> (None, h)
      | Some (b, offset, n) \<Rightarrow>
          (case make_array (put (replicate n zero)) h of
             (out, h1) \<Rightarrow> (Some (out, 0, n), copy_each put get DeepCopyInto (b, offset, n) out [0..<n] h1)))"

text \<open>\<open>*out = make([]string, len( *in)); copy( *out, *in)\<close>\<close>

definition copy_strings :: "slice \<Rightarrow> 'x store \<Rightarrow> slice \<times> 'x store" where
  "copy_strings s h =
     (case s of
        None \<Rightarrow> (None, h)
      | Some p \<Rightarrow>
          (case make_array (Strings (replicate (snd (snd p)) '''')) h of
             (out, h1) \<Rightarrow> (Some (out, 0, snd (snd p)), h1[out := Strings (elements strings_of h1 p)])))"

text \<open>\<open>DeepCopy\<close> on a pointer to an element of an array: \<open>out := new(T); in.DeepCopyInto(out)\<close>.\<close>

type_synonym pointer = "(nat \<times> nat) option"

definition copy_pointer :: "('e list \<Rightarrow> 'x cell) \<Rightarrow> ('x cell \<Rightarrow> 'e list) \<Rightarrow> 'e \<Rightarrow>
    ('e \<Rightarrow> 'x store \<Rightarrow> 'e \<times> 'x store) \<Rightarrow> pointer \<Rightarrow> 'x store \<Rightarrow> pointer \<times> 'x store" where
  "copy_pointer put get zero DeepCopyInto p h =
     (case p of
        None \<Rightarrow> (None, h)
      | Some (b, i) \<Rightarrow>
          (case make_array (put [zero]) h of
             (out, h1) \<Rightarrow> (case DeepCopyInto (get (h1 ! b) ! i) h1 of
               (v, h2) \<Rightarrow> (Some (out, 0), h2[out := put ((get (h2 ! out))[0 := v])]))))"

section \<open>The operator's types\<close>

text \<open>The copies of the types of apimachinery, and their zero value.\<close>

record 'x foreign =
  zero_value :: 'x
  copy_ObjectMeta :: "'x \<Rightarrow> 'x store \<Rightarrow> 'x \<times> 'x store"
  copy_ListMeta :: "'x \<Rightarrow> 'x store \<Rightarrow> 'x \<times> 'x store"
  copy_LabelSelector :: "'x \<Rightarrow> 'x store \<Rightarrow> 'x \<times> 'x store"
  copy_Condition :: "'x \<Rightarrow> 'x store \<Rightarrow> 'x \<times> 'x store"

definition zero_CIDRAssignment :: CIDRAssignment_go where
  "zero_CIDRAssignment = \<lparr>go_CIDR = '''', go_LabelValue = '''', go_ReservedIPs = None\<rparr>"

definition zero_EgressIPAMSpec :: "'x foreign \<Rightarrow> 'x EgressIPAMSpec_go" where
  "zero_EgressIPAMSpec F = \<lparr>go_CIDRAssignments = None, go_TopologyLabel = '''', go_NodeSelector = zero_value F\<rparr>"

definition zero_EgressIPAMStatus :: EgressIPAMStatus_go where
  "zero_EgressIPAMStatus = \<lparr>go_Conditions = None\<rparr>"

definition zero_EgressIPAM :: "'x foreign \<Rightarrow> 'x EgressIPAM_go" where
  "zero_EgressIPAM F = \<lparr>go_TypeMeta = ('''', ''''), go_ObjectMeta = zero_value F, go_Spec = zero_EgressIPAMSpec F,
     go_Status = zero_EgressIPAMStatus\<rparr>"

definition zero_EgressIPAMList :: "'x foreign \<Rightarrow> 'x EgressIPAMList_go" where
  "zero_EgressIPAMList F = \<lparr>go_ListTypeMeta = ('''', ''''), go_ListMeta = zero_value F, go_Items = None\<rparr>"

text \<open>
  \<open>DeepCopyInto\<close> as the value that it leaves in \<open>out\<close>, which is never the variable it reads:
  \<open>out\<close> is new wherever the file calls it.
\<close>

definition CIDRAssignment_DeepCopyInto :: "CIDRAssignment_go \<Rightarrow> 'x store \<Rightarrow> CIDRAssignment_go \<times> 'x store" where
  "CIDRAssignment_DeepCopyInto v h =
     (case copy_strings (go_ReservedIPs v) h of (ips, h1) \<Rightarrow> (v\<lparr>go_ReservedIPs := ips\<rparr>, h1))"

definition EgressIPAMSpec_DeepCopyInto :: "'x foreign \<Rightarrow> 'x EgressIPAMSpec_go \<Rightarrow> 'x store \<Rightarrow> 'x EgressIPAMSpec_go \<times> 'x store" where
  "EgressIPAMSpec_DeepCopyInto F v h =
     (case copy_slice Assignments assignments_of zero_CIDRAssignment CIDRAssignment_DeepCopyInto (go_CIDRAssignments v) h of
        (assignments, h1) \<Rightarrow> (case copy_LabelSelector F (go_NodeSelector v) h1 of
          (selector, h2) \<Rightarrow> (v\<lparr>go_CIDRAssignments := assignments, go_NodeSelector := selector\<rparr>, h2)))"

definition EgressIPAMStatus_DeepCopyInto :: "'x foreign \<Rightarrow> EgressIPAMStatus_go \<Rightarrow> 'x store \<Rightarrow> EgressIPAMStatus_go \<times> 'x store" where
  "EgressIPAMStatus_DeepCopyInto F v h =
     (case copy_slice Conditions conditions_of (zero_value F) (copy_Condition F) (go_Conditions v) h of
        (conditions, h1) \<Rightarrow> (v\<lparr>go_Conditions := conditions\<rparr>, h1))"

definition EgressIPAM_DeepCopyInto :: "'x foreign \<Rightarrow> 'x EgressIPAM_go \<Rightarrow> 'x store \<Rightarrow> 'x EgressIPAM_go \<times> 'x store" where
  "EgressIPAM_DeepCopyInto F v h =
     (case copy_ObjectMeta F (go_ObjectMeta v) h of
        (meta, h1) \<Rightarrow> (case EgressIPAMSpec_DeepCopyInto F (go_Spec v) h1 of
          (spec, h2) \<Rightarrow> (case EgressIPAMStatus_DeepCopyInto F (go_Status v) h2 of
            (status, h3) \<Rightarrow> (v\<lparr>go_ObjectMeta := meta, go_Spec := spec, go_Status := status\<rparr>, h3))))"

definition EgressIPAMList_DeepCopyInto :: "'x foreign \<Rightarrow> 'x EgressIPAMList_go \<Rightarrow> 'x store \<Rightarrow> 'x EgressIPAMList_go \<times> 'x store" where
  "EgressIPAMList_DeepCopyInto F v h =
     (case copy_ListMeta F (go_ListMeta v) h of
        (meta, h1) \<Rightarrow> (case copy_slice EgressIPAMs egressipams_of (zero_EgressIPAM F) (EgressIPAM_DeepCopyInto F) (go_Items v) h1 of
          (items, h2) \<Rightarrow> (v\<lparr>go_ListMeta := meta, go_Items := items\<rparr>, h2)))"

definition CIDRAssignment_DeepCopy :: "pointer \<Rightarrow> 'x store \<Rightarrow> pointer \<times> 'x store" where
  "CIDRAssignment_DeepCopy = copy_pointer Assignments assignments_of zero_CIDRAssignment CIDRAssignment_DeepCopyInto"

definition EgressIPAMSpec_DeepCopy :: "'x foreign \<Rightarrow> pointer \<Rightarrow> 'x store \<Rightarrow> pointer \<times> 'x store" where
  "EgressIPAMSpec_DeepCopy F = copy_pointer Specs specs_of (zero_EgressIPAMSpec F) (EgressIPAMSpec_DeepCopyInto F)"

definition EgressIPAMStatus_DeepCopy :: "'x foreign \<Rightarrow> pointer \<Rightarrow> 'x store \<Rightarrow> pointer \<times> 'x store" where
  "EgressIPAMStatus_DeepCopy F = copy_pointer Statuses statuses_of zero_EgressIPAMStatus (EgressIPAMStatus_DeepCopyInto F)"

definition EgressIPAM_DeepCopy :: "'x foreign \<Rightarrow> pointer \<Rightarrow> 'x store \<Rightarrow> pointer \<times> 'x store" where
  "EgressIPAM_DeepCopy F = copy_pointer EgressIPAMs egressipams_of (zero_EgressIPAM F) (EgressIPAM_DeepCopyInto F)"

definition EgressIPAMList_DeepCopy :: "'x foreign \<Rightarrow> pointer \<Rightarrow> 'x store \<Rightarrow> pointer \<times> 'x store" where
  "EgressIPAMList_DeepCopy F = copy_pointer EgressIPAMLists lists_of (zero_EgressIPAMList F) (EgressIPAMList_DeepCopyInto F)"

text \<open>A \<open>runtime.Object\<close> is nil or one of the two types: a nil pointer becomes a nil object.\<close>

datatype runtime_object = EgressIPAMObject "nat \<times> nat" | EgressIPAMListObject "nat \<times> nat"

definition EgressIPAM_DeepCopyObject :: "'x foreign \<Rightarrow> pointer \<Rightarrow> 'x store \<Rightarrow> runtime_object option \<times> 'x store" where
  "EgressIPAM_DeepCopyObject F p h =
     (case EgressIPAM_DeepCopy F p h of
        (Some c, h') \<Rightarrow> (Some (EgressIPAMObject c), h')
      | (None, h') \<Rightarrow> (None, h'))"

definition EgressIPAMList_DeepCopyObject :: "'x foreign \<Rightarrow> pointer \<Rightarrow> 'x store \<Rightarrow> runtime_object option \<times> 'x store" where
  "EgressIPAMList_DeepCopyObject F p h =
     (case EgressIPAMList_DeepCopy F p h of
        (Some c, h') \<Rightarrow> (Some (EgressIPAMListObject c), h')
      | (None, h') \<Rightarrow> (None, h'))"

text \<open>Reading and writing the conditions of an EgressIPAM copies the slice, not its array.\<close>

definition GetConditions :: "'x EgressIPAM_go \<Rightarrow> slice" where
  "GetConditions m = go_Conditions (go_Status m)"

definition SetConditions :: "slice \<Rightarrow> 'x EgressIPAM_go \<Rightarrow> 'x EgressIPAM_go" where
  "SetConditions conditions m = m\<lparr>go_Status := (go_Status m)\<lparr>go_Conditions := conditions\<rparr>\<rparr>"

section \<open>What a deep copy promises\<close>

text \<open>
  \<open>reads\<close> is the value with the contents of its slices, \<open>arrays\<close> are those it can reach, and
  a value is \<open>sound\<close> when they exist and have its types.
\<close>

locale deep_copy =
  fixes copy :: "'v \<Rightarrow> 'x store \<Rightarrow> 'v \<times> 'x store"
    and reads :: "'x store \<Rightarrow> 'v \<Rightarrow> 'r"
    and arrays :: "'x store \<Rightarrow> 'v \<Rightarrow> nat set"
    and sound :: "'x store \<Rightarrow> 'v \<Rightarrow> bool"
  assumes copied: "sound h v \<Longrightarrow> copy v h = (v', h') \<Longrightarrow>
      (\<exists>t. h' = h @ t) \<and> sound h' v' \<and> reads h' v' = reads h v \<and> arrays h' v' \<subseteq> {length h..<length h'}"
    and own: "sound h v \<Longrightarrow> (\<And>b. b \<in> arrays h v \<Longrightarrow> b < length g \<and> g ! b = h ! b) \<Longrightarrow>
      sound g v \<and> reads g v = reads h v \<and> arrays g v = arrays h v"
    and exist: "sound h v \<Longrightarrow> arrays h v \<subseteq> {..<length h}"
begin

lemma own_extended: "sound h v \<Longrightarrow> sound (h @ t) v \<and> reads (h @ t) v = reads h v \<and> arrays (h @ t) v = arrays h v"
  by (rule own) (auto simp: nth_append dest: exist)

text \<open>Neither the original nor the copy notices what is written through the other.\<close>

lemma independent:
  assumes "sound h v" "copy v h = (v', h')"
  shows "arrays h' v \<inter> arrays h' v' = {}"
    "length h' \<le> length g \<Longrightarrow> (\<forall>b < length h'. b \<notin> arrays h' v' \<longrightarrow> g ! b = h' ! b) \<Longrightarrow> reads g v = reads h v"
    "length h' \<le> length g \<Longrightarrow> (\<forall>b < length h'. b \<notin> arrays h' v \<longrightarrow> g ! b = h' ! b) \<Longrightarrow> reads g v' = reads h v"
proof -
  from copied [OF assms] obtain t where c: "h' = h @ t" "sound h' v'" "reads h' v' = reads h v"
    "arrays h' v' \<subseteq> {length h..<length h'}" by blast
  have o: "sound h' v" "reads h' v = reads h v" "arrays h' v = arrays h v"
    using own_extended [OF assms(1)] c(1) by blast+
  show disj: "arrays h' v \<inter> arrays h' v' = {}" using exist [OF assms(1)] o(3) c(4) by force
  show "reads g v = reads h v" if "length h' \<le> length g" "\<forall>b < length h'. b \<notin> arrays h' v' \<longrightarrow> g ! b = h' ! b"
    using own [OF o(1), of g] exist [OF o(1)] that disj o(2) by (metis IntI empty_iff lessThan_iff less_le_trans subsetD)
  show "reads g v' = reads h v" if "length h' \<le> length g" "\<forall>b < length h'. b \<notin> arrays h' v \<longrightarrow> g ! b = h' ! b"
    using own [OF c(2), of g] exist [OF c(2)] that disj c(3) by (metis IntI empty_iff lessThan_iff less_le_trans subsetD)
qed

end

text \<open>The contents of a slice whose elements have contents.\<close>

definition slice_reads :: "('x cell \<Rightarrow> 'e list) \<Rightarrow> ('x store \<Rightarrow> 'e \<Rightarrow> 'r) \<Rightarrow> 'x store \<Rightarrow> slice \<Rightarrow> 'r list option" where
  "slice_reads get reads h s = map_option (\<lambda>p. map (reads h) (elements get h p)) s"

definition slice_arrays :: "('x cell \<Rightarrow> 'e list) \<Rightarrow> ('x store \<Rightarrow> 'e \<Rightarrow> nat set) \<Rightarrow> 'x store \<Rightarrow> slice \<Rightarrow> nat set" where
  "slice_arrays get arrays h s =
     (case s of None \<Rightarrow> {} | Some p \<Rightarrow> insert (fst p) (\<Union>e \<in> set (elements get h p). arrays h e))"

definition slice_sound :: "('e list \<Rightarrow> 'x cell) \<Rightarrow> ('x cell \<Rightarrow> 'e list) \<Rightarrow> ('x store \<Rightarrow> 'e \<Rightarrow> bool) \<Rightarrow> 'x store \<Rightarrow> slice \<Rightarrow> bool" where
  "slice_sound put get sound h s =
     (case s of None \<Rightarrow> True
      | Some (b, offset, n) \<Rightarrow> b < length h \<and> put (get (h ! b)) = h ! b \<and> offset + n \<le> length (get (h ! b)) \<and>
          (\<forall>e \<in> set (elements get h (b, offset, n)). sound h e))"

lemma set_elements: "e \<in> set (elements get h (b, offset, n)) \<longleftrightarrow>
    (\<exists>j < n. offset + j < length (get (h ! b)) \<and> e = get (h ! b) ! (offset + j))"
  by (auto simp: elements_def in_set_conv_nth less_diff_conv add.commute)

locale array_copy = deep_copy copy reads arrays sound
  for copy :: "'v \<Rightarrow> 'x store \<Rightarrow> 'v \<times> 'x store" and reads :: "'x store \<Rightarrow> 'v \<Rightarrow> 'r" and arrays sound +
  fixes put :: "'v list \<Rightarrow> 'x cell" and get :: "'x cell \<Rightarrow> 'v list" and zero :: 'v
  assumes get_put: "get (put xs) = xs"
begin

lemma sound_element:
  assumes "slice_sound put get sound h (Some (b, offset, n))" "j < n"
  shows "sound h (get (h ! b) ! (offset + j))"
proof -
  have "get (h ! b) ! (offset + j) \<in> set (elements get h (b, offset, n))"
    unfolding set_elements using assms by (intro exI [of _ j]) (simp add: slice_sound_def)
  with assms show ?thesis by (simp add: slice_sound_def)
qed

text \<open>The loop: what is done after \<open>i\<close> elements.\<close>

lemma copy_each_loop:
  assumes s: "slice_sound put get sound h0 (Some (b, offset, n))" and out: "out = length h0"
    and h: "h = h0 @ rest" "out < length h" "h ! out = put ys" "length ys = n" and i: "i \<le> n"
    and before: "\<And>j. j < i \<Longrightarrow> sound h (ys ! j) \<and> reads h (ys ! j) = reads h0 (get (h0 ! b) ! (offset + j)) \<and>
      arrays h (ys ! j) \<subseteq> {length h0<..<length h}"
  shows "\<exists>rest ys. copy_each put get copy (b, offset, n) out [i..<n] h = h0 @ rest \<and> out < length (h0 @ rest) \<and>
    (h0 @ rest) ! out = put ys \<and> length ys = n \<and>
    (\<forall>j < n. sound (h0 @ rest) (ys ! j) \<and> reads (h0 @ rest) (ys ! j) = reads h0 (get (h0 ! b) ! (offset + j)) \<and>
      arrays (h0 @ rest) (ys ! j) \<subseteq> {length h0<..<length (h0 @ rest)})"
  using h i before
proof (induction "n - i" arbitrary: i h rest ys)
  case 0
  then have "i = n" by simp
  with 0 show ?case by (intro exI [of _ rest] exI [of _ ys]) (use \<open>i = n\<close> in simp)
next
  case (Suc k)
  note h = Suc.prems(1-4) and before' = Suc.prems(6)
  have i: "i < n" using Suc.hyps(2) by simp
  let ?e = "get (h0 ! b) ! (offset + i)"
  from s have b: "b < length h0" by (simp add: slice_sound_def)
  note e = sound_element [OF s i] own_extended [OF sound_element [OF s i], of rest]
  obtain e' h1 where c: "copy ?e h = (e', h1)" by fastforce
  from copied [OF _ c] e(2) h(1) obtain t where t: "h1 = h @ t" "sound h1 e'" "reads h1 e' = reads h ?e"
    "arrays h1 e' \<subseteq> {length h..<length h1}" by blast
  define h2 where "h2 = h1[out := put (ys[i := e'])]"
  have same: "b < length h2 \<and> h2 ! b = h1 ! b" if "b \<noteq> out" "b < length h1" for b using that by (simp add: h2_def)
  have new: "sound h2 e' \<and> reads h2 e' = reads h1 e' \<and> arrays h2 e' = arrays h1 e'"
  proof (rule own [OF t(2)])
    fix b assume "b \<in> arrays h1 e'"
    then show "b < length h2 \<and> h2 ! b = h1 ! b" using t(4) h(2) by (intro same) auto
  qed
  have old: "sound h2 (ys ! j) \<and> reads h2 (ys ! j) = reads h (ys ! j) \<and> arrays h2 (ys ! j) = arrays h (ys ! j)" if "j < i" for j
  proof (rule own)
    show "sound h (ys ! j)" using before' [OF that] by blast
    fix b assume "b \<in> arrays h (ys ! j)"
    then have "length h0 < b" "b < length h" using before' [OF that] by auto
    then show "b < length h2 \<and> h2 ! b = h ! b" using same [of b] t(1) out by (simp add: nth_append)
  qed
  have "copy_each put get copy (b, offset, n) out [i..<n] h = copy_each put get copy (b, offset, n) out [Suc i..<n] h2"
  proof -
    have "h ! b = h0 ! b" using b h(1) by (simp add: nth_append)
    moreover have "h1 ! out = put ys" using h(2,3) unfolding t(1) by (simp add: nth_append)
    ultimately show ?thesis using i c by (simp add: upt_conv_Cons h2_def get_put)
  qed
  moreover have "h2 = h0 @ drop (length h0) h2" using t(1) h(1) out by (simp add: h2_def list_update_append)
  moreover have "out < length h2" "h2 ! out = put (ys[i := e'])" "length (ys[i := e']) = n"
    using h t(1) by (auto simp: h2_def)
  moreover have "sound h2 (ys[i := e'] ! j) \<and> reads h2 (ys[i := e'] ! j) = reads h0 (get (h0 ! b) ! (offset + j)) \<and>
      arrays h2 (ys[i := e'] ! j) \<subseteq> {length h0<..<length h2}" if "j < Suc i" for j
  proof (cases "j = i")
    case True
    have "{length h..<length h1} \<subseteq> {length h0<..<length h2}" using h(2) out by (auto simp: h2_def)
    then have "arrays h2 e' \<subseteq> {length h0<..<length h2}" using new t(4) by simp
    moreover have "reads h2 e' = reads h0 ?e" using new t(3) e(2) h(1) by simp
    ultimately show ?thesis using new t(2) h(4) i True by simp
  next
    case False
    with that have j: "j < i" by simp
    from old [OF j] before' [OF j] t(1) i h(4) False show ?thesis by (auto simp: h2_def)
  qed
  ultimately show ?case using Suc.hyps(1) [of "Suc i" h2 "drop (length h0) h2" "ys[i := e']"] Suc.hyps(2) i by simp
qed

lemma deep_copy_slice:
  "deep_copy (copy_slice put get zero copy) (slice_reads get reads) (slice_arrays get arrays) (slice_sound put get sound)"
proof
  fix h s s' h' assume s: "slice_sound put get sound h s" and c: "copy_slice put get zero copy s h = (s', h')"
  show "(\<exists>t. h' = h @ t) \<and> slice_sound put get sound h' s' \<and> slice_reads get reads h' s' = slice_reads get reads h s \<and>
      slice_arrays get arrays h' s' \<subseteq> {length h..<length h'}"
  proof (cases s)
    case None
    with c show ?thesis by (simp add: copy_slice_def slice_sound_def slice_reads_def slice_arrays_def)
  next
    case (Some p)
    then obtain b offset n where p: "s = Some (b, offset, n)" by (metis prod_cases3)
    let ?h = "h @ [put (replicate n zero)]"
    from c p have s': "s' = Some (length h, 0, n)" and h': "h' = copy_each put get copy (b, offset, n) (length h) [0..<n] ?h"
      by (auto simp: copy_slice_def make_array_def)
    obtain rest ys where r: "h' = h @ rest" "length h < length (h @ rest)" "(h @ rest) ! length h = put ys" "length ys = n"
      "\<And>j. j < n \<Longrightarrow> sound (h @ rest) (ys ! j) \<and> reads (h @ rest) (ys ! j) = reads h (get (h ! b) ! (offset + j)) \<and>
        arrays (h @ rest) (ys ! j) \<subseteq> {length h<..<length (h @ rest)}"
      using copy_each_loop [OF s [unfolded p] refl, of ?h "[put (replicate n zero)]" "replicate n zero" 0] h'
      by (auto simp: nth_append)
    have ys: "elements get h' (length h, 0, n) = ys" using r(1,3,4) by (simp add: elements_def get_put)
    have n: "offset + n \<le> length (get (h ! b))" using s p by (simp add: slice_sound_def)
    have each: "sound h' e \<and> arrays h' e \<subseteq> {length h..<length h'}" if "e \<in> set ys" for e
      using that r(1,4) r(5) by (fastforce simp: in_set_conv_nth)
    have "map (reads h') ys = map (reads h) (elements get h (b, offset, n))"
      using r(1,4,5) n by (intro nth_equalityI) (auto simp: elements_def)
    with each r(1-4) s' p ys show ?thesis
      by (auto simp: slice_sound_def slice_reads_def slice_arrays_def get_put)
  qed
next
  fix h s and g :: "'x store"
  assume s: "slice_sound put get sound h s" and b: "\<And>b. b \<in> slice_arrays get arrays h s \<Longrightarrow> b < length g \<and> g ! b = h ! b"
  show "slice_sound put get sound g s \<and> slice_reads get reads g s = slice_reads get reads h s \<and>
      slice_arrays get arrays g s = slice_arrays get arrays h s"
  proof (cases s)
    case None
    then show ?thesis by (simp add: slice_sound_def slice_reads_def slice_arrays_def)
  next
    case (Some p)
    have el: "elements get g p = elements get h p" and a: "fst p < length g" "g ! fst p = h ! fst p"
      using b [of "fst p"] Some by (auto simp: slice_arrays_def elements_def split: prod.split)
    have "sound g e \<and> reads g e = reads h e \<and> arrays g e = arrays h e" if "e \<in> set (elements get h p)" for e
      by (rule own) (use s b that Some in \<open>auto simp: slice_sound_def slice_arrays_def split: prod.splits\<close>)
    with s a el Some show ?thesis
      by (auto simp: slice_sound_def slice_reads_def slice_arrays_def split: prod.splits)
  qed
next
  fix h s assume "slice_sound put get sound h s"
  then show "slice_arrays get arrays h s \<subseteq> {..<length h}"
    using exist by (fastforce simp: slice_sound_def slice_arrays_def split: option.splits prod.splits)
qed

end

sublocale array_copy \<subseteq> slice: deep_copy "copy_slice put get zero copy" "slice_reads get reads" "slice_arrays get arrays"
    "slice_sound put get sound"
  by (rule deep_copy_slice)

section \<open>Copying a struct\<close>

text \<open>Fields without references, two fields one after the other, and a struct as its fields.\<close>

lemma deep_copy_plain: "deep_copy (\<lambda>v h. (v, h)) (\<lambda>h v. v) (\<lambda>h v. {}) (\<lambda>h v. True)"
  by unfold_locales auto

lemma deep_copy_both:
  assumes "deep_copy c1 reads1 arrays1 sound1" "deep_copy c2 reads2 arrays2 sound2"
  shows "deep_copy (\<lambda>(v, w) h. case c1 v h of (v', h1) \<Rightarrow> case c2 w h1 of (w', h2) \<Rightarrow> ((v', w'), h2))
    (\<lambda>h (v, w). (reads1 h v, reads2 h w)) (\<lambda>h (v, w). arrays1 h v \<union> arrays2 h w) (\<lambda>h (v, w). sound1 h v \<and> sound2 h w)"
proof (unfold_locales, goal_cases)
  case (1 h vw vw' h')
  obtain v w where vw: "vw = (v, w)" by fastforce
  obtain v' h1 where c1: "c1 v h = (v', h1)" by fastforce
  obtain w' h2 where c2: "c2 w h1 = (w', h2)" by fastforce
  have vw': "vw' = (v', w')" "h' = h2" using 1(2) by (simp_all add: vw c1 c2)
  have s: "sound1 h v" "sound2 h w" using 1(1) by (simp_all add: vw)
  from deep_copy.copied [OF assms(1) s(1) c1] obtain t where t: "h1 = h @ t" "sound1 h1 v'" "reads1 h1 v' = reads1 h v"
    "arrays1 h1 v' \<subseteq> {length h..<length h1}" by blast
  note w = deep_copy.own_extended [OF assms(2) s(2), of t]
  from deep_copy.copied [OF assms(2) _ c2] w t(1) obtain u where u: "h2 = h1 @ u" "sound2 h2 w'" "reads2 h2 w' = reads2 h w"
    "arrays2 h2 w' \<subseteq> {length h1..<length h2}" by auto
  note v' = deep_copy.own_extended [OF assms(1) t(2), of u]
  show ?case using t u v' unfolding vw vw' by auto
next
  case (2 h vw g)
  obtain v w where vw: "vw = (v, w)" by fastforce
  from 2 show ?case using deep_copy.own [OF assms(1), of h v g] deep_copy.own [OF assms(2), of h w g] unfolding vw by auto
next
  case (3 h vw)
  then show ?case using deep_copy.exist [OF assms(1)] deep_copy.exist [OF assms(2)] by (auto split: prod.splits)
qed

lemma deep_copy_struct:
  assumes "deep_copy c reads arrays sound" and "\<And>v h x h'. c (parts v) h = (x, h') \<Longrightarrow> parts (struct x) = x"
    and "\<And>v h. copy v h = (case c (parts v) h of (x, h') \<Rightarrow> (struct x, h'))"
  shows "deep_copy copy (\<lambda>h v. reads h (parts v)) (\<lambda>h v. arrays h (parts v)) (\<lambda>h v. sound h (parts v))"
proof (unfold_locales, goal_cases)
  case (1 h v v' h')
  obtain x h1 where c: "c (parts v) h = (x, h1)" by fastforce
  with 1(2) assms(3) have "v' = struct x" "h' = h1" by simp_all
  with deep_copy.copied [OF assms(1) 1(1) c] assms(2) [OF c] show ?case by simp
next
  case (2 h v g)
  then show ?case using deep_copy.own [OF assms(1)] by metis
next
  case (3 h v)
  then show ?case by (rule deep_copy.exist [OF assms(1)])
qed

text \<open>A pointer is a slice of length 1.\<close>

definition as_slice :: "pointer \<Rightarrow> slice" where
  "as_slice p = map_option (\<lambda>(b, i). (b, i, 1)) p"

context array_copy
begin

lemma deep_copy_pointer:
  "deep_copy (copy_pointer put get zero copy) (\<lambda>h p. slice_reads get reads h (as_slice p))
    (\<lambda>h p. slice_arrays get arrays h (as_slice p)) (\<lambda>h p. slice_sound put get sound h (as_slice p))"
proof (rule deep_copy_struct [OF deep_copy_slice, where struct = "map_option (\<lambda>(b, offset, n). (b, offset))"])
  show "as_slice (map_option (\<lambda>(b, offset, n). (b, offset)) x) = x" if "copy_slice put get zero copy (as_slice v) h = (x, h')" for v h x h'
    using that by (cases v) (auto simp: as_slice_def copy_slice_def make_array_def)
  show "copy_pointer put get zero copy v h =
      (case copy_slice put get zero copy (as_slice v) h of (x, h') \<Rightarrow> (map_option (\<lambda>(b, offset, n). (b, offset)) x, h'))" for v h
    by (cases v) (auto simp: as_slice_def copy_slice_def copy_pointer_def make_array_def split: prod.split)
qed

end

section \<open>The copies of the operator's types\<close>

interpretation string_array: array_copy "\<lambda>v h. (v, h)" "\<lambda>h v. v" "\<lambda>h v. {}" "\<lambda>h v. True" Strings strings_of "''''"
  by (intro array_copy.intro deep_copy_plain array_copy_axioms.intro) (simp add: cell_simps)

definition reads_strings :: "'x store \<Rightarrow> slice \<Rightarrow> string list option" where
  "reads_strings = slice_reads strings_of (\<lambda>h v. v)"

definition arrays_strings :: "'x store \<Rightarrow> slice \<Rightarrow> nat set" where
  "arrays_strings = slice_arrays strings_of (\<lambda>h v. {})"

definition sound_strings :: "'x store \<Rightarrow> slice \<Rightarrow> bool" where
  "sound_strings = slice_sound Strings strings_of (\<lambda>h v. True)"

interpretation strings: deep_copy copy_strings reads_strings arrays_strings sound_strings
proof (unfold_locales, goal_cases)
  case (1 h s s' h')
  show ?case
  proof (cases s)
    case None
    with 1 show ?thesis by (simp add: copy_strings_def sound_strings_def slice_sound_def reads_strings_def
        slice_reads_def arrays_strings_def slice_arrays_def)
  next
    case (Some p)
    then obtain b offset n where p: "s = Some (b, offset, n)" by (metis prod_cases3)
    let ?xs = "elements strings_of h (b, offset, n)"
    have n: "b < length h" "length ?xs = n" using 1(1) p by (auto simp: sound_strings_def slice_sound_def elements_def)
    have "elements strings_of (h @ [c]) (b, offset, n) = ?xs" for c using n(1) by (simp add: elements_def nth_append)
    with 1(2) p have "s' = Some (length h, 0, n)" "h' = h @ [Strings ?xs]" by (auto simp: copy_strings_def make_array_def)
    with n(2) p show ?thesis
      by (auto simp: sound_strings_def slice_sound_def reads_strings_def slice_reads_def arrays_strings_def slice_arrays_def
          elements_def cell_simps)
  qed
next
  case (2 h s g)
  then show ?case unfolding sound_strings_def reads_strings_def arrays_strings_def by (rule string_array.slice.own)
next
  case (3 h s)
  then show ?case unfolding sound_strings_def arrays_strings_def by (rule string_array.slice.exist)
qed

definition reads_CIDRAssignment :: "'x store \<Rightarrow> CIDRAssignment_go \<Rightarrow> (string \<times> string) \<times> string list option" where
  "reads_CIDRAssignment h v = ((go_CIDR v, go_LabelValue v), reads_strings h (go_ReservedIPs v))"

definition arrays_CIDRAssignment :: "'x store \<Rightarrow> CIDRAssignment_go \<Rightarrow> nat set" where
  "arrays_CIDRAssignment h v = arrays_strings h (go_ReservedIPs v)"

definition sound_CIDRAssignment :: "'x store \<Rightarrow> CIDRAssignment_go \<Rightarrow> bool" where
  "sound_CIDRAssignment h v = sound_strings h (go_ReservedIPs v)"

interpretation assignment: deep_copy CIDRAssignment_DeepCopyInto reads_CIDRAssignment arrays_CIDRAssignment sound_CIDRAssignment
proof -
  have "deep_copy CIDRAssignment_DeepCopyInto
     (\<lambda>h v. case ((go_CIDR v, go_LabelValue v), go_ReservedIPs v) of (v, w) \<Rightarrow> (v, reads_strings h w))
     (\<lambda>h v. case ((go_CIDR v, go_LabelValue v), go_ReservedIPs v) of (v, w) \<Rightarrow> {} \<union> arrays_strings h w)
     (\<lambda>h v. case ((go_CIDR v, go_LabelValue v), go_ReservedIPs v) of (v, w) \<Rightarrow> True \<and> sound_strings h w)"
    by (rule deep_copy_struct [OF deep_copy_both [OF deep_copy_plain strings.deep_copy_axioms],
          where struct = "\<lambda>((c, l), s). \<lparr>go_CIDR = c, go_LabelValue = l, go_ReservedIPs = s\<rparr>"])
      (auto simp: CIDRAssignment_DeepCopyInto_def split: prod.splits)
  then show "deep_copy CIDRAssignment_DeepCopyInto reads_CIDRAssignment arrays_CIDRAssignment sound_CIDRAssignment"
    unfolding reads_CIDRAssignment_def [abs_def] arrays_CIDRAssignment_def [abs_def] sound_CIDRAssignment_def [abs_def] by simp
qed

interpretation assignments: array_copy CIDRAssignment_DeepCopyInto reads_CIDRAssignment arrays_CIDRAssignment
    sound_CIDRAssignment Assignments assignments_of zero_CIDRAssignment
  by (intro array_copy.intro assignment.deep_copy_axioms array_copy_axioms.intro) (simp add: cell_simps)

text \<open>
  With types of apimachinery in them: what is assumed of the copies of these types is that they
  are deep copies.
\<close>

type_synonym ('x, 'r) reading = "'x store \<Rightarrow> 'x \<Rightarrow> 'r"

type_synonym 'x reaching = "'x store \<Rightarrow> 'x \<Rightarrow> nat set"

type_synonym 'x soundness = "'x store \<Rightarrow> 'x \<Rightarrow> bool"

definition apimachinery_laws :: "'x foreign \<Rightarrow> ('x, 'r) reading \<Rightarrow> 'x reaching \<Rightarrow> 'x soundness \<Rightarrow> bool" where
  "apimachinery_laws F rd ar sd \<longleftrightarrow> deep_copy (copy_ObjectMeta F) rd ar sd \<and> deep_copy (copy_ListMeta F) rd ar sd \<and>
     deep_copy (copy_LabelSelector F) rd ar sd \<and> deep_copy (copy_Condition F) rd ar sd"

definition reads_EgressIPAMSpec where
  "reads_EgressIPAMSpec rd h v = (go_TopologyLabel v,
     slice_reads assignments_of reads_CIDRAssignment h (go_CIDRAssignments v), rd h (go_NodeSelector v))"

definition arrays_EgressIPAMSpec where
  "arrays_EgressIPAMSpec ar h v =
     slice_arrays assignments_of arrays_CIDRAssignment h (go_CIDRAssignments v) \<union> ar h (go_NodeSelector v)"

definition sound_EgressIPAMSpec where
  "sound_EgressIPAMSpec sd h v \<longleftrightarrow>
     slice_sound Assignments assignments_of sound_CIDRAssignment h (go_CIDRAssignments v) \<and> sd h (go_NodeSelector v)"

definition reads_EgressIPAMStatus where
  "reads_EgressIPAMStatus rd h v = slice_reads conditions_of rd h (go_Conditions v)"

definition arrays_EgressIPAMStatus where
  "arrays_EgressIPAMStatus ar h v = slice_arrays conditions_of ar h (go_Conditions v)"

definition sound_EgressIPAMStatus where
  "sound_EgressIPAMStatus sd h v = slice_sound Conditions conditions_of sd h (go_Conditions v)"

definition reads_EgressIPAM where
  "reads_EgressIPAM rd h v = (go_TypeMeta v, rd h (go_ObjectMeta v), reads_EgressIPAMSpec rd h (go_Spec v),
     reads_EgressIPAMStatus rd h (go_Status v))"

definition arrays_EgressIPAM where
  "arrays_EgressIPAM ar h v = ar h (go_ObjectMeta v) \<union> (arrays_EgressIPAMSpec ar h (go_Spec v) \<union>
     arrays_EgressIPAMStatus ar h (go_Status v))"

definition sound_EgressIPAM where
  "sound_EgressIPAM sd h v \<longleftrightarrow> sd h (go_ObjectMeta v) \<and> sound_EgressIPAMSpec sd h (go_Spec v) \<and>
     sound_EgressIPAMStatus sd h (go_Status v)"

definition reads_EgressIPAMList where
  "reads_EgressIPAMList rd h v = (go_ListTypeMeta v, rd h (go_ListMeta v),
     slice_reads egressipams_of (reads_EgressIPAM rd) h (go_Items v))"

definition arrays_EgressIPAMList where
  "arrays_EgressIPAMList ar h v = ar h (go_ListMeta v) \<union> slice_arrays egressipams_of (arrays_EgressIPAM ar) h (go_Items v)"

definition sound_EgressIPAMList where
  "sound_EgressIPAMList sd h v \<longleftrightarrow> sd h (go_ListMeta v) \<and>
     slice_sound EgressIPAMs egressipams_of (sound_EgressIPAM sd) h (go_Items v)"

named_theorems reading_simps \<open>what the values of the operator's types read as, reach and need\<close>

lemmas [reading_simps] = reads_EgressIPAMSpec_def arrays_EgressIPAMSpec_def sound_EgressIPAMSpec_def
  reads_EgressIPAMStatus_def arrays_EgressIPAMStatus_def sound_EgressIPAMStatus_def
  reads_EgressIPAM_def arrays_EgressIPAM_def sound_EgressIPAM_def
  reads_EgressIPAMList_def arrays_EgressIPAMList_def sound_EgressIPAMList_def

lemma deep_copy_eq:
  "deep_copy c rd ar sd \<Longrightarrow> c = c' \<Longrightarrow> rd = rd' \<Longrightarrow> ar = ar' \<Longrightarrow> sd = sd' \<Longrightarrow> deep_copy c' rd' ar' sd'"
  by simp

lemma EgressIPAMSpec_deep_copy:
  assumes "apimachinery_laws F rd ar sd"
  shows "deep_copy (EgressIPAMSpec_DeepCopyInto F) (reads_EgressIPAMSpec rd) (arrays_EgressIPAMSpec ar) (sound_EgressIPAMSpec sd)"
proof -
  have selector: "deep_copy (copy_LabelSelector F) rd ar sd" using assms by (simp add: apimachinery_laws_def)
  show ?thesis
    by (rule deep_copy_eq [OF deep_copy_struct [OF deep_copy_both [OF deep_copy_plain
            deep_copy_both [OF assignments.deep_copy_slice selector]],
          where parts = "\<lambda>v. (go_TopologyLabel v, go_CIDRAssignments v, go_NodeSelector v)" and copy = "EgressIPAMSpec_DeepCopyInto F"
            and struct = "\<lambda>(l, a, s). \<lparr>go_CIDRAssignments = a, go_TopologyLabel = l, go_NodeSelector = s\<rparr>"]])
      (auto simp: EgressIPAMSpec_DeepCopyInto_def reading_simps fun_eq_iff split: prod.splits)
qed

lemma EgressIPAMStatus_deep_copy:
  assumes "apimachinery_laws F rd ar sd"
  shows "deep_copy (EgressIPAMStatus_DeepCopyInto F) (reads_EgressIPAMStatus rd) (arrays_EgressIPAMStatus ar)
    (sound_EgressIPAMStatus sd :: 'x store \<Rightarrow> EgressIPAMStatus_go \<Rightarrow> bool)"
proof -
  have conditions: "array_copy (copy_Condition F) rd ar sd Conditions conditions_of"
    using assms by (intro array_copy.intro array_copy_axioms.intro) (simp_all add: apimachinery_laws_def cell_simps)
  show ?thesis
    by (rule deep_copy_eq [OF deep_copy_struct [OF array_copy.deep_copy_slice [OF conditions, where zero = "zero_value F"],
          where parts = go_Conditions and copy = "EgressIPAMStatus_DeepCopyInto F"
            and struct = "\<lambda>c. \<lparr>go_Conditions = c\<rparr>"]])
      (auto simp: EgressIPAMStatus_DeepCopyInto_def reading_simps fun_eq_iff split: prod.splits)
qed

lemma EgressIPAM_deep_copy:
  assumes "apimachinery_laws F rd ar sd"
  shows "deep_copy (EgressIPAM_DeepCopyInto F) (reads_EgressIPAM rd) (arrays_EgressIPAM ar) (sound_EgressIPAM sd)"
proof -
  have meta: "deep_copy (copy_ObjectMeta F) rd ar sd" using assms by (simp add: apimachinery_laws_def)
  show ?thesis
    by (rule deep_copy_eq [OF deep_copy_struct [OF deep_copy_both [OF deep_copy_plain deep_copy_both [OF meta
            deep_copy_both [OF EgressIPAMSpec_deep_copy [OF assms] EgressIPAMStatus_deep_copy [OF assms]]]],
          where parts = "\<lambda>v. (go_TypeMeta v, go_ObjectMeta v, go_Spec v, go_Status v)" and copy = "EgressIPAM_DeepCopyInto F"
            and struct = "\<lambda>(t, m, s, u). \<lparr>go_TypeMeta = t, go_ObjectMeta = m, go_Spec = s, go_Status = u\<rparr>"]])
      (auto simp: EgressIPAM_DeepCopyInto_def reads_EgressIPAM_def arrays_EgressIPAM_def sound_EgressIPAM_def fun_eq_iff
         split: prod.splits)
qed

lemma EgressIPAM_array:
  "apimachinery_laws F rd ar sd \<Longrightarrow> array_copy (EgressIPAM_DeepCopyInto F) (reads_EgressIPAM rd) (arrays_EgressIPAM ar)
    (sound_EgressIPAM sd) EgressIPAMs egressipams_of"
  by (intro array_copy.intro array_copy_axioms.intro EgressIPAM_deep_copy) (simp_all add: cell_simps)

lemma EgressIPAMList_deep_copy:
  assumes "apimachinery_laws F rd ar sd"
  shows "deep_copy (EgressIPAMList_DeepCopyInto F) (reads_EgressIPAMList rd) (arrays_EgressIPAMList ar) (sound_EgressIPAMList sd)"
proof -
  have meta: "deep_copy (copy_ListMeta F) rd ar sd" using assms by (simp add: apimachinery_laws_def)
  show ?thesis
    by (rule deep_copy_eq [OF deep_copy_struct [OF deep_copy_both [OF deep_copy_plain deep_copy_both [OF meta
            array_copy.deep_copy_slice [OF EgressIPAM_array [OF assms], where zero = "zero_EgressIPAM F"]]],
          where parts = "\<lambda>v. (go_ListTypeMeta v, go_ListMeta v, go_Items v)" and copy = "EgressIPAMList_DeepCopyInto F"
            and struct = "\<lambda>(t, m, i). \<lparr>go_ListTypeMeta = t, go_ListMeta = m, go_Items = i\<rparr>"]])
      (auto simp: EgressIPAMList_DeepCopyInto_def reads_EgressIPAMList_def arrays_EgressIPAMList_def sound_EgressIPAMList_def
         fun_eq_iff split: prod.splits)
qed

lemma EgressIPAMList_array:
  "apimachinery_laws F rd ar sd \<Longrightarrow> array_copy (EgressIPAMList_DeepCopyInto F) (reads_EgressIPAMList rd) (arrays_EgressIPAMList ar)
    (sound_EgressIPAMList sd) EgressIPAMLists lists_of"
  by (intro array_copy.intro array_copy_axioms.intro EgressIPAMList_deep_copy) (simp_all add: cell_simps)

section \<open>Nothing is shared\<close>

text \<open>
  \<open>v'\<close> is a copy of \<open>v\<close> that was made in the store \<open>h\<close>: only new arrays were written, both read
  as \<open>v\<close> did, and whatever is written later through one of them, the other reads as before.
\<close>

definition separate_copy :: "('x store \<Rightarrow> 'v \<Rightarrow> 'r) \<Rightarrow> ('x store \<Rightarrow> 'v \<Rightarrow> nat set) \<Rightarrow> 'v \<Rightarrow> 'x store \<Rightarrow> 'v \<Rightarrow> 'x store \<Rightarrow> bool" where
  "separate_copy rd ar v h v' h' \<longleftrightarrow>
     (\<exists>t. h' = h @ t) \<and> rd h' v = rd h v \<and> rd h' v' = rd h v \<and> ar h' v \<inter> ar h' v' = {} \<and>
     (\<forall>g. length h' \<le> length g \<longrightarrow> (\<forall>b < length h'. b \<notin> ar h' v' \<longrightarrow> g ! b = h' ! b) \<longrightarrow> rd g v = rd h v) \<and>
     (\<forall>g. length h' \<le> length g \<longrightarrow> (\<forall>b < length h'. b \<notin> ar h' v \<longrightarrow> g ! b = h' ! b) \<longrightarrow> rd g v' = rd h v)"

context deep_copy
begin

lemma separate:
  assumes "sound h v" "copy v h = (v', h')"
  shows "separate_copy reads arrays v h v' h'"
  using copied [OF assms] own_extended [OF assms(1)] independent [OF assms] unfolding separate_copy_def by metis

end

context array_copy
begin

lemma separate_pointer:
  assumes "slice_sound put get sound h (as_slice p)" "copy_pointer put get zero copy p h = (c, h')"
  shows "separate_copy (\<lambda>h p. slice_reads get reads h (as_slice p)) (\<lambda>h p. slice_arrays get arrays h (as_slice p)) p h c h'"
    "c = None \<longleftrightarrow> p = None" "p = None \<Longrightarrow> h' = h"
proof -
  show "separate_copy (\<lambda>h p. slice_reads get reads h (as_slice p)) (\<lambda>h p. slice_arrays get arrays h (as_slice p)) p h c h'"
    by (rule deep_copy.separate [OF deep_copy_pointer assms])
  show "c = None \<longleftrightarrow> p = None" "p = None \<Longrightarrow> h' = h"
    using assms(2) by (auto simp: copy_pointer_def make_array_def split: option.splits prod.splits)
qed

end

text \<open>
  C14. A copy shares nothing with its original. When the copies of the types of apimachinery are
  deep, \<open>DeepCopyObject\<close> of an EgressIPAM and of a list of them gives nil for nil and otherwise
  an object of the same type that reads the same (nil slices as nil, in every item, CIDR
  assignment and condition) and has no array in common with the original: no array that
  existed is written, and no write through one of them is seen through the other.
\<close>

theorem DeepCopyObject_shares_nothing:
  assumes "apimachinery_laws F rd ar sd"
    and "slice_sound EgressIPAMs egressipams_of (sound_EgressIPAM sd) h (as_slice p)"
    and "slice_sound EgressIPAMLists lists_of (sound_EgressIPAMList sd) h (as_slice q)"
  shows "(case EgressIPAM_DeepCopyObject F p h of
      (None, h') \<Rightarrow> p = None \<and> h' = h
    | (Some (EgressIPAMObject c), h') \<Rightarrow> p \<noteq> None \<and>
        separate_copy (\<lambda>h p. slice_reads egressipams_of (reads_EgressIPAM rd) h (as_slice p))
          (\<lambda>h p. slice_arrays egressipams_of (arrays_EgressIPAM ar) h (as_slice p)) p h (Some c) h'
    | (Some (EgressIPAMListObject c), h') \<Rightarrow> False) \<and>
    (case EgressIPAMList_DeepCopyObject F q h of
      (None, h') \<Rightarrow> q = None \<and> h' = h
    | (Some (EgressIPAMListObject c), h') \<Rightarrow> q \<noteq> None \<and>
        separate_copy (\<lambda>h p. slice_reads lists_of (reads_EgressIPAMList rd) h (as_slice p))
          (\<lambda>h p. slice_arrays lists_of (arrays_EgressIPAMList ar) h (as_slice p)) q h (Some c) h'
    | (Some (EgressIPAMObject c), h') \<Rightarrow> False)"
proof -
  obtain c h1 where c: "EgressIPAM_DeepCopy F p h = (c, h1)" by fastforce
  obtain d h2 where d: "EgressIPAMList_DeepCopy F q h = (d, h2)" by fastforce
  note 1 = array_copy.separate_pointer [OF EgressIPAM_array [OF assms(1)] assms(2) c [unfolded EgressIPAM_DeepCopy_def]]
  note 2 = array_copy.separate_pointer [OF EgressIPAMList_array [OF assms(1)] assms(3) d [unfolded EgressIPAMList_DeepCopy_def]]
  show ?thesis using 1 2 c d by (auto simp: EgressIPAM_DeepCopyObject_def EgressIPAMList_DeepCopyObject_def split: option.split)
qed

text \<open>A list with one EgressIPAM; what comes from apimachinery is a slice of strings.\<close>

definition example_foreign :: "slice foreign" where
  "example_foreign = \<lparr>zero_value = None, copy_ObjectMeta = copy_strings, copy_ListMeta = copy_strings,
     copy_LabelSelector = copy_strings, copy_Condition = copy_strings\<rparr>"

definition example_EgressIPAM_go :: "slice EgressIPAM_go" where
  "example_EgressIPAM_go = \<lparr>go_TypeMeta = (''redhatcop.redhat.io/v1alpha1'', ''EgressIPAM''), go_ObjectMeta = Some (0, 0, 1),
     go_Spec = \<lparr>go_CIDRAssignments = Some (2, 0, 1), go_TopologyLabel = ''zone'', go_NodeSelector = None\<rparr>,
     go_Status = \<lparr>go_Conditions = None\<rparr>\<rparr>"

definition example_store :: "slice store" where
  "example_store =
     [Strings [''egressip-ipam-operator''], Strings [''10.0.0.1'', ''10.0.0.2''],
      Assignments [\<lparr>go_CIDR = ''10.0.0.0/24'', go_LabelValue = ''a'', go_ReservedIPs = Some (1, 1, 1)\<rparr>],
      EgressIPAMs [example_EgressIPAM_go],
      EgressIPAMLists [\<lparr>go_ListTypeMeta = ('''', ''''), go_ListMeta = None, go_Items = Some (3, 0, 1)\<rparr>]]"

theorem DeepCopyObject_shares_nothing_witness:
  "\<exists>h'. EgressIPAMList_DeepCopyObject example_foreign (Some (4, 0)) example_store = (Some (EgressIPAMListObject (5, 0)), h') \<and>
    separate_copy (\<lambda>h p. slice_reads lists_of (reads_EgressIPAMList reads_strings) h (as_slice p))
      (\<lambda>h p. slice_arrays lists_of (arrays_EgressIPAMList arrays_strings) h (as_slice p)) (Some (4, 0)) example_store (Some (5, 0)) h'"
proof -
  have laws: "apimachinery_laws example_foreign reads_strings arrays_strings sound_strings"
    using strings.deep_copy_axioms by (simp add: apimachinery_laws_def example_foreign_def)
  have sound: "slice_sound EgressIPAMs egressipams_of (sound_EgressIPAM sound_strings) example_store (as_slice (Some (3, 0)))"
    "slice_sound EgressIPAMLists lists_of (sound_EgressIPAMList sound_strings) example_store (as_slice (Some (4, 0)))"
    by code_simp+
  obtain r h' where run: "EgressIPAMList_DeepCopyObject example_foreign (Some (4, 0)) example_store = (r, h')" by fastforce
  have "fst (EgressIPAMList_DeepCopyObject example_foreign (Some (4, 0)) example_store) = Some (EgressIPAMListObject (5, 0))"
    by code_simp
  then have r: "r = Some (EgressIPAMListObject (5, 0))" using run by simp
  show ?thesis using DeepCopyObject_shares_nothing [OF laws sound] run r by simp
qed

end
