(* ===== verification/Spec2Isabelle.thy ===== *)
theory Spec2Isabelle
  imports Setup Convergence Loops Program DeepCopy
begin

text \<open>
  A verification development for the egressip-ipam-operator, a Kubernetes operator that gives
  the namespaces of an OpenShift cluster egress IP addresses out of the CIDRs of an
  \<open>EgressIPAM\<close> resource and distributes these addresses over the nodes.

  \<^bold>\<open>The program and its parts.\<close> Watches (\<open>SetupWithManager\<close>, and the handlers in
  \<open>node.go\<close>, \<open>hostsubnet.go\<close>, \<open>namespace.go\<close>, \<open>netnamespace.go\<close>, all under
  \<open>src/controllers/egressipam/\<close>) put the names of EgressIPAMs into a queue. For each,
  \<open>Reconcile\<close> validates and initialises the instance, loads a \<open>ReconcileContext\<close> (nodes,
  HostSubnets, namespaces, NetNamespaces, CIDRs) and runs the cycle
  \<open>processReconcileContext\<close>: addresses for namespaces that have none (\<open>ipam.go\<close>), NetNamespaces,
  the distribution over the nodes (\<open>ipam.go\<close>), the secondary addresses of the machines
  (interface \<open>Infra\<close>: \<open>aws\<close>, \<open>azure\<close>, \<open>baremetal\<close>), HostSubnets. A deleted instance is
  cleaned up before its finalizer is removed. A second controller
  (\<open>src/controllers/namespace/\<close>) cleans up a namespace that opts out. \<open>main.go\<close> sets both up
  and starts the manager; the types of the resource and their deep copies are under
  \<open>src/api/v1alpha1/\<close>.

  \<^bold>\<open>Theories.\<close>
  \<^item> \<open>Prelude\<close>: errors as values, Go's loops with early return (\<open>go_for\<close>, and \<open>go_for_w\<close> when
    the body makes calls), sequencing (\<open>bind_w\<close>), Go's maps as association lists (\<open>gomap\<close>)
    with the laws of a keyed store as a locale.
  \<^item> \<open>GoNet\<close>: what the code uses of package \<open>net\<close>, from the text of an address to its bits.
  \<^item> \<open>Model\<close>: the objects, the reconcile context, the calls to the outside and their history,
    the \<open>Infra\<close> interface as a record of operations. \<open>Externals\<close>: everything that is not in
    the repository, as the parameter \<open>goenv\<close>, with its documented behaviour as the predicates
    \<open>_laws\<close>. \<open>Examples\<close>: a cluster for the witnesses.
  \<^item> \<open>Goroutines\<close>: the parallel loops. A goroutine that makes one call is a step of a schedule
    (a permutation); one of several steps is a resumption \<open>proc\<close> (\<open>Send\<close>, \<open>Read\<close>, \<open>Call\<close>), and
    \<open>go_procs\<close> runs many of them under any interleaving, no law assumed. Invariants of a run,
    what it emits, a rely-guarantee rule (\<open>go_procs_safe\<close>), and when its success is honest.
    \<open>Channels\<close>: the same loops as steps of goroutines over an unbuffered channel; every execution
    stops, none is blocked, and the results are those of \<open>go_procs\<close>. \<open>Bodies\<close>: goroutines as
    statements in which a send is one statement among others, so that a body may send twice or
    not at all, with the number of receives and the closing of the channel as the loop has them;
    what it means that a loop finishes, and that those whose bodies send once do, in lockstep
    with \<open>Channels\<close>. \<open>Loops\<close>: the thirteen parallel loops of the operator in this form.
  \<^item> \<open>Namespaces\<close> (\<open>namespace.go\<close>), \<open>Nodes\<close> (\<open>node.go\<close>, \<open>egressipam.go\<close>), \<open>BareMetal\<close> (the
    contract of \<open>Infra\<close> as the locale \<open>infra_contract\<close>, and \<open>baremetal.go\<close>, which meets it),
    \<open>NetNamespaces\<close> (\<open>netnamespace.go\<close>), \<open>HostSubnets\<close> (\<open>hostsubnet.go\<close>).
  \<^item> \<open>Allocation\<close> (\<open>ipam.go\<close>, first half): the locale \<open>allocator\<close> is the interface of a choice
    of free addresses, interpreted on \<open>getNextAvailableIPs\<close>. \<open>RoundTrip\<close>: the annotation it
    writes is read back by \<open>sortIPsByCIDR\<close>.
  \<^item> \<open>NodeAssignment\<close> (\<open>ipam.go\<close>, second half): the relation \<open>placements\<close> is the abstract
    specification (each address goes to a least loaded ready node of its CIDR), which the
    loops with their buckets refine (\<open>placeIPs_refines\<close>).
  \<^item> \<open>Aws\<close> (\<open>aws.go\<close>) and \<open>Azure\<close> (\<open>azure.go\<close>): the cloud platforms, each on a record of the
    operations of its SDK (\<open>ec2\<close>, \<open>azure\<close>), each an interpretation of \<open>infra_contract\<close>. The
    abstract specification of a reconcile is a difference of sets per machine.
  \<^item> \<open>Controller\<close> (\<open>egressipam_controller.go\<close>), \<open>Cycle\<close> (properties of the cycle on any platform
    that meets the contract), \<open>Loaded\<close> (the loaded context as a function of what the API server
    lists, \<open>reads_cluster\<close>), \<open>Progress\<close> (when a cycle succeeds), \<open>Lifecycle\<close> (clean-up,
    \<open>Reconcile\<close>), \<open>Completion\<close> (when a whole \<open>Reconcile\<close> succeeds), \<open>Convergence\<close> (many in a row,
    with an API server that stores what is written), \<open>Platforms\<close> (the platforms the operator is
    built with meet the contract),
    \<open>NamespaceController\<close> (\<open>namespace_controller.go\<close>), \<open>Setup\<close> (\<open>SetupWithManager\<close>: the request for cloud
    credentials, and which events of which objects put which names into the queues),
    \<open>Program\<close> (\<open>main.go\<close>, the registration of types and metrics). This theory has the
    properties that span them.
  \<^item> \<open>DeepCopy\<close> (\<open>zz_generated.deepcopy.go\<close>): the operator's types with their slices, over a
    store of arrays; a deep copy as the locale \<open>deep_copy\<close>, which copies of slices and structs
    inherit from those of their elements. Everywhere else objects are values, and a copy is
    the object.

  \<^bold>\<open>Correspondence.\<close> A Go function is the definition of the same name, with the suffix \<open>_AWS\<close>,
  \<open>_Azure\<close> where both platforms have it; a loop body or a goroutine is a definition of its own,
  with the source lines in its comment. A returned error is \<open>Inl\<close>; a panic (index out of
  range, nil dereference, assignment to a nil map) is the error \<open>GoPanic\<close>, which ends the whole
  computation. A call that changes something outside is appended to the history together with
  its answer, and every answer and every read may depend on the history. Each \<open>range\<close> over a
  map asks the environment for an order, identified by its source line, each parallel loop
  for a schedule or an interleaving; theorems hold for all of them. Logging is left out.
  Three abstractions: the operation \<open>GetIPCapacity\<close> of \<open>aws.go\<close> runs with an empty cache of
  instance types (that a full one gives the same answer is proved); \<open>CreateOrUpdate\<close> of
  \<open>azure.go\<close> and the wait for its completion are one call with one answer; and on a cloud the contract of \<open>Infra\<close>
  holds for CIDRs that hold the three addresses after their own, which the code takes to be
  the cloud's without a look at the size of the CIDR (\<open>cloud_room\<close>, the predicate \<open>assured\<close> of
  the locale).

  \<^bold>\<open>What is shown.\<close> Allocation: fresh addresses, no double assignment, least free address, exact
  failure condition, annotations that are read back, and which annotations are an error and
  which a panic. Distribution: exactly the addresses of
  the namespaces are served, stable, a fixed point, balanced, one node per address, exact
  failure condition. Objects: NetNamespaces and HostSubnets follow, each update happens exactly
  once whatever the schedule, a second run is idle. Clouds: the calls that free and assign
  secondary addresses are the differences between what machines have and what they should
  have, every configuration that is not the operator's is kept, and whether errors are
  swallowed. Cycle and clean-up: the order of the calls, no phase before the earlier ones
  succeeded, what a successful cycle and a successful \<open>Reconcile\<close> have established, and that
  \<open>Reconcile\<close> on bare metal succeeds when there is room, a ready node per CIDR and an API server
  that accepts, or removes the finalizer of an instance that is being deleted, and that every
  later \<open>Reconcile\<close> leaves what the first one has brought about as it is. Loops: each of the
  thirteen terminates, hears every goroutine once and never sends on a closed channel. Life cycle:
  invalid instances cause no call, the finalizer is added first and removed last. Start: the
  order of the start, the secret asked for is the one that is read; a change of readiness of a
  node is noticed by every EgressIPAM whose cycle has used the node. Copies: a deep copy reads as the original and shares nothing with it.

  \<^bold>\<open>Bounds.\<close> Addresses are 32-bit words with wrap-around (\<open>ipmath\<close>, \<open>NetworkSize\<close>), the capacity
  gauge is a 32-bit word; every loop of the code is structural recursion over a finite list,
  so there is no fuel. A goroutine is a finite resumption, and a run of several gives every
  goroutine its remaining turns at the end, so every interleaving completes; the termination
  order of \<open>Channels\<close> is the multiset of what the goroutines still have to do.

  \<^bold>\<open>Not modelled.\<close> What the flag package, the manager and the builder of controllers of
  controller-runtime do (\<open>Program\<close> has their answers as parameters); the fields of
  \<open>AzureMachineProviderSpec\<close> that no code reads; logging. Theorems about allocation are for
  IPv4 CIDRs (\<open>ipv4_cidrs\<close>): with an IPv6 CIDR the code reads four bytes of a nil slice and
  panics.
\<close>

section \<open>A whole reconcile\<close>

lemma Reconcile_success_steps:
  assumes "Reconcile E P p name h = (ManagedSuccess gs, h')"
  obtains x rc infra h1 where "get_egressipam E name h = Inr x" "IsValid (ClientEgressIPAM x) = (True, None)"
    "has_finalizer E x controllerName" "\<not> is_being_deleted E x"
    "loadReconcileContext E P p x h = (Inr (rc, infra), h1)" "processReconcileContext E infra rc h1 = (Inr gs, h')"
proof -
  have no: "manage_error e \<noteq> ManagedSuccess gs" for e by (cases e) (simp_all add: manage_error_def)
  obtain x where x: "get_egressipam E name h = Inr x"
    using assms by (cases "get_egressipam E name h") (auto simp: Reconcile_def split: err.splits)
  have valid: "IsValid (ClientEgressIPAM x) = (True, None)"
    using assms x no by (auto simp: Reconcile_def IsValid_def split: sum.splits)
  have upd: "fst (update_instance E x' h1) \<noteq> ManagedSuccess gs" for x' h1
    using no by (auto simp: update_instance_def split: prod.splits option.splits)
  have init: "has_finalizer E x controllerName"
    using assms x valid upd by (auto simp: Reconcile_def IsInitialized_def split: if_splits) (metis fst_conv)+
  have live: "\<not> is_being_deleted E x"
  proof
    assume "is_being_deleted E x"
    then show False using assms x valid init upd no
      by (auto simp: Reconcile_def IsInitialized_def split: prod.splits sum.splits) (metis fst_conv)+
  qed
  show ?thesis
    using assms x valid init live no
    by (auto simp: Reconcile_def IsInitialized_def split: prod.splits sum.splits intro: that)
qed

text \<open>On any platforms that meet the contract of \<open>Infra\<close>.\<close>

lemma Reconcile_success_on:
  assumes "range_laws E" "ipmath_laws E" "u32set_laws E" "strset_laws E" "schedule_laws E" "multierror_laws E"
    and "platforms_ok assured E P" "Reconcile E P p name h = (ManagedSuccess gs, h')"
    and "\<forall>x. get_egressipam E name h = Inr x \<longrightarrow> ipv4_cidrs x \<and> assured (map CIDR (CIDRAssignments x))"
  shows "\<exists>x rc infra used newly assigned k.
    get_egressipam E name h = Inr x \<and> IsValid (ClientEgressIPAM x) = (True, None) \<and>
    has_finalizer E x controllerName \<and> \<not> is_being_deleted E x \<and>
    loadReconcileContext E P p x h = (Inr (rc, infra), h) \<and> reads_cluster E x h rc \<and>
    h' = h @ k \<and> cycle_calls E rc newly assigned k \<and> map ns_name newly = map ns_name (rc_UnAssignedNamespaces rc) \<and>
    GetUsedIPsByCIDR infra rc h = (Inr used, h) \<and>
    (\<forall>i < length (rc_CIDRs rc). distinct (map (\<lambda>n. ns_addr n i) newly) \<and>
       (\<forall>n \<in> set newly. in_cidr (rc_CIDRs rc ! i) (ns_addr n i) \<and> \<not> taken rc used i (ns_addr n i))) \<and>
    (\<forall>ip. (\<exists>n. ip \<in> set (gm_get [] assigned n)) \<longleftrightarrow>
       (\<exists>c \<in> set (rc_CIDRs rc). wanted (cycle_rc rc newly assigned) c ip))"
proof -
  obtain x rc infra h1 where x: "get_egressipam E name h = Inr x" "IsValid (ClientEgressIPAM x) = (True, None)"
    "has_finalizer E x controllerName" "\<not> is_being_deleted E x"
    and load: "loadReconcileContext E P p x h = (Inr (rc, infra), h1)"
    and process: "processReconcileContext E infra rc h1 = (Inr gs, h')"
    using Reconcile_success_steps [OF assms(8)] .
  note h1 = loadReconcileContext_reads(1) [OF assms(7) load]
  note infra = loadReconcileContext_reads(2) [OF assms(7) load refl]
  have "ipv4_cidrs x" and assured: "assured (rc_CIDRs rc)" using assms(9) x(1) loadReconcileContext_CIDRs [OF load] by simp_all
  with loadReconcileContext_ok [OF assms(1,6,5) x(2) this(1) load] have ok: "ctx_ok rc" by blast
  note reads = loadReconcileContext_reads_cluster [OF load]
  from process_established [OF infra assms(1-6) assured ok process [unfolded h1]] obtain k newly assigned used where
    "h' = h @ k" "cycle_calls E rc newly assigned k" "map ns_name newly = map ns_name (rc_UnAssignedNamespaces rc)"
    "GetUsedIPsByCIDR infra rc h = (Inr used, h)"
    "\<forall>i < length (rc_CIDRs rc). distinct (map (\<lambda>n. ns_addr n i) newly) \<and>
       (\<forall>n \<in> set newly. in_cidr (rc_CIDRs rc ! i) (ns_addr n i) \<and> \<not> taken rc used i (ns_addr n i))"
    "\<forall>ip. (\<exists>n. ip \<in> set (gm_get [] assigned n)) \<longleftrightarrow>
       (\<exists>c \<in> set (rc_CIDRs rc). wanted (cycle_rc rc newly assigned) c ip)" by blast
  with x load [unfolded h1] reads show ?thesis by (intro exI conjI)
qed

text \<open>
  C1. From the instance to the cluster, on AWS, Azure and bare metal. When \<open>Reconcile\<close> ends in
  \<open>ManageSuccess\<close>, the instance existed, was valid, carried the finalizer and was not being
  deleted; and for IPv4 CIDRs with room for the three addresses that the clouds reserve, in
  every environment that behaves as documented, the context it loaded has the CIDRs of the
  instance and the nodes, HostSubnets, namespaces and NetNamespaces as they were listed
  (\<open>reads_cluster\<close>), and the cluster has been brought to the state the cycle promises for that
  context: exactly the namespaces without addresses have been updated; the address each of them
  got in a CIDR lies in the CIDR, differs from the others handed out, and was not taken (held by
  a namespace, reserved, the address of a node, the base or broadcast address, or in use on the
  platform); the NetNamespaces of all namespaces and the HostSubnets follow; every address of a
  namespace that refers to the instance is on a node, and no other address is; every call
  succeeded.
\<close>

theorem Reconcile_success:
  assumes "range_laws E" "ipmath_laws E" "u32set_laws E" "strset_laws E" "schedule_laws E" "multierror_laws E"
    and "Reconcile E (operator_platforms E X Y) p name h = (ManagedSuccess gs, h')"
    and "\<forall>x. get_egressipam E name h = Inr x \<longrightarrow> ipv4_cidrs x \<and> (\<forall>a \<in> set (CIDRAssignments x). cloud_room (CIDR a))"
  shows "\<exists>x rc infra used newly assigned k.
    get_egressipam E name h = Inr x \<and> IsValid (ClientEgressIPAM x) = (True, None) \<and>
    has_finalizer E x controllerName \<and> \<not> is_being_deleted E x \<and>
    loadReconcileContext E (operator_platforms E X Y) p x h = (Inr (rc, infra), h) \<and> reads_cluster E x h rc \<and>
    h' = h @ k \<and> cycle_calls E rc newly assigned k \<and> map ns_name newly = map ns_name (rc_UnAssignedNamespaces rc) \<and>
    GetUsedIPsByCIDR infra rc h = (Inr used, h) \<and>
    (\<forall>i < length (rc_CIDRs rc). distinct (map (\<lambda>n. ns_addr n i) newly) \<and>
       (\<forall>n \<in> set newly. in_cidr (rc_CIDRs rc ! i) (ns_addr n i) \<and> \<not> taken rc used i (ns_addr n i))) \<and>
    (\<forall>ip. (\<exists>n. ip \<in> set (gm_get [] assigned n)) \<longleftrightarrow>
       (\<exists>c \<in> set (rc_CIDRs rc). wanted (cycle_rc rc newly assigned) c ip))"
proof (rule Reconcile_success_on [OF assms(1-6) operator_platforms_ok assms(7)])
  show "\<forall>x. get_egressipam E name h = Inr x \<longrightarrow> ipv4_cidrs x \<and> cloud_assured E (map CIDR (CIDRAssignments x))"
    using assms(1,2,6,8) by (simp add: cloud_assured_def)
qed

section \<open>The two controllers\<close>

text \<open>
  C37. A namespace that opts out. When the annotation that names the EgressIPAM is removed, the
  event goes to the namespace controller and not to the EgressIPAM controller; the clean-up
  leaves the namespace without both annotations; and neither the event of that update nor
  the event of the NetNamespace's update puts an EgressIPAM into the queue. (So the address
  stays on its node until another event causes a reconcile.)
\<close>

theorem namespace_opt_out:
  assumes "ns_egressipam old = Some name"
    and "ns_annotations new = deleteAnnotation (ns_annotations old) NamespaceAnnotation"
  shows "IsAnnotated_namespace (ns_annotations old) (ns_annotations new) \<and>
    \<not> IsAnnotated_Update (ns_annotations old) (ns_annotations new) \<and>
    ns_egressipam (without_ips new) = None \<and> ns_ips (without_ips new) = None \<and>
    Namespace_Update new (without_ips new) = [] \<and>
    (get_namespace E (nn_name nn) h \<in> {Inr new, Inr (without_ips new)} \<longrightarrow>
      NetNamespace_Update E (KNetNamespace nn) (KNetNamespace (nn\<lparr>nn_egressIPs := Some []\<rparr>)) h = [])"
proof -
  have new: "getAnnotation (ns_annotations new) NamespaceAnnotation = None"
    "getAnnotation (ns_annotations new) NamespaceAssociationAnnotation =
      getAnnotation (ns_annotations old) NamespaceAssociationAnnotation"
    using assms(2) by (simp_all add: getAnnotation_delete)
  then have "enqueue_annotation (ns_annotations new) = []" "enqueue_annotation (ns_annotations (without_ips new)) = []"
    by (simp_all add: enqueue_annotation_def without_ips_def getAnnotation_delete)
  moreover have "ns_egressipam (without_ips new) = None"
    using new(1) unfolding without_ips_annotations by (simp add: ns_egressipam_def)
  moreover have "getAnnotation (ns_annotations old) NamespaceAnnotation = Some name"
    using assms(1) by (simp add: ns_egressipam_def)
  ultimately show ?thesis using new
    by (auto simp: IsAnnotated_namespace_def IsAnnotated_Update_def Let_def without_ips_annotations(1)
        Namespace_Update_def NetNamespace_Update_def getNamespace_def)
qed

section \<open>Witnesses\<close>

lemma example_reconciles:
  "Reconcile example_cluster (operator_platforms example_cluster example_ec2 example_azure) (OtherPlatform ''None'') ''ipam'' [] =
     (ManagedSuccess example_gauges, map (\<lambda>c. (c, None)) example_cycle)"
  by code_simp

theorem Reconcile_success_witness:
  "\<exists>rc used newly assigned. reads_cluster example_cluster example_instance [] rc \<and> map ns_name newly = [''ns2'', ''ns3''] \<and>
     cycle_calls example_cluster rc newly assigned (map (\<lambda>c. (c, None)) example_cycle) \<and>
     \<not> taken rc used 0 (ns_addr (newly ! 0) 0)"
proof -
  have "ParseCIDR ''10.0.0.0/29'' = Inr (IPv4 0x0A000000, Net4 0x0A000000 29)"
    "ParseCIDR ''10.0.1.0/29'' = Inr (IPv4 0x0A000100, Net4 0x0A000100 29)" by code_simp+
  moreover have "cloud_room ''10.0.0.0/29''" "cloud_room ''10.0.1.0/29''" by code_simp+
  ultimately have v4: "\<forall>x. get_egressipam example_cluster ''ipam'' [] = Inr x \<longrightarrow>
      ipv4_cidrs x \<and> (\<forall>a \<in> set (CIDRAssignments x). cloud_room (CIDR a))"
    by (simp add: ipv4_cidrs_def example_cluster_def example_instance_def example_egressipam_def)
  have get: "get_egressipam example_cluster ''ipam'' [] = Inr example_instance" by (simp add: example_cluster_def)
  have "map ns_name (filter (\<lambda>n. ns_egressipam n = Some (ei_name example_instance) \<and> ns_ips n = None)
      (map snd (rc_ReferringNamespaces example_rc))) = [''ns2'', ''ns3'']" by code_simp
  then have names: "map ns_name (rc_UnAssignedNamespaces rc) = [''ns2'', ''ns3''] \<and> 0 < length (rc_CIDRs rc)"
    if "reads_cluster example_cluster example_instance [] rc" for rc
    using that by (auto simp: reads_cluster_def example_cluster_def example_instance_def example_egressipam_def)
  obtain rc used newly assigned where reads: "reads_cluster example_cluster example_instance [] rc"
    and calls: "cycle_calls example_cluster rc newly assigned (map (\<lambda>c. (c, None)) example_cycle)"
    and newly: "map ns_name newly = map ns_name (rc_UnAssignedNamespaces rc)"
    and fresh: "\<forall>i < length (rc_CIDRs rc). distinct (map (\<lambda>n. ns_addr n i) newly) \<and>
       (\<forall>n \<in> set newly. in_cidr (rc_CIDRs rc ! i) (ns_addr n i) \<and> \<not> taken rc used i (ns_addr n i))"
    using Reconcile_success [OF example_cluster_laws(1,3,5,6,2,7) example_reconciles v4] unfolding get append_Nil by blast
  have "0 < length newly" using newly names [OF reads] arg_cong [OF newly, of length] by auto
  with reads calls newly fresh names [OF reads] show ?thesis by (metis nth_mem)
qed

theorem namespace_opt_out_witness:
  "IsAnnotated_namespace (Some [(NamespaceAnnotation, ''ipam''), (NamespaceAssociationAnnotation, ''10.0.0.2'')])
     (Some [(NamespaceAssociationAnnotation, ''10.0.0.2'')]) \<and>
   Namespace_Update \<lparr>ns_name = ''ns1'', ns_annotations = Some [(NamespaceAssociationAnnotation, ''10.0.0.2'')]\<rparr>
     \<lparr>ns_name = ''ns1'', ns_annotations = Some []\<rparr> = []"
  using namespace_opt_out [of "example_ns ''ns1'' (Some ''10.0.0.2'')" "''ipam''"
      "\<lparr>ns_name = ''ns1'', ns_annotations = Some [(NamespaceAssociationAnnotation, ''10.0.0.2'')]\<rparr>"]
  by (simp add: example_ns_def ns_egressipam_def getAnnotation_def deleteAnnotation_def without_ips_def)

end
